(* ===== verification/Oneshot_Prelude.thy ===== *)
theory Oneshot_Prelude
  imports Main "HOL-Library.Word"
begin

text \<open>
  Shared vocabulary of the development: the fact collections the component theories fill, the
  Rust \<open>Result\<close> type, machine integers and identifiers, the lattice of memory views used by the
  model of the atomic operations, and generic lemmas on lists.
\<close>

named_theorems code_unfold \<open>bodies of the crate's methods, unfolded when a program is verified\<close>
named_theorems proto_simps \<open>the protocol's transitions, action by action\<close>
named_theorems mem_simps \<open>effect of the elementary memory actions\<close>

type_synonym u8 = "8 word"
type_synonym tid = nat
type_synonym wid = nat
type_synonym instant = nat
type_synonym duration = nat

datatype ('a, 'e) result = Ok 'a | Err 'e

definition map_err :: "('e \<Rightarrow> 'f) \<Rightarrow> ('a, 'e) result \<Rightarrow> ('a, 'f) result" where
  "map_err f r = (case r of Ok a \<Rightarrow> Ok a | Err e \<Rightarrow> Err (f e))"

lemma map_err_simps [simp]:
  "map_err f (Ok a) = Ok a"
  "map_err f (Err e) = Err (f e)"
  by (simp_all add: map_err_def)

lemma map_err_Ok_iff [simp]: "map_err f r = Ok a \<longleftrightarrow> r = Ok a"
  by (cases r) simp_all

section \<open>Views\<close>

text \<open>
  A view is what a thread knows of the other accesses to a channel: \<open>vt\<close> is the position in the
  modification order of the atomic state that it has observed at least, \<open>vtx\<close> and \<open>vrx\<close> count
  the accesses of the sending and of the receiving endpoint that happen before it.
\<close>

datatype view = View (vt: nat) (vtx: nat) (vrx: nat)

instantiation view :: bounded_semilattice_sup_bot
begin

definition less_eq_view :: "view \<Rightarrow> view \<Rightarrow> bool" where
  "less_eq_view a b \<longleftrightarrow> vt a \<le> vt b \<and> vtx a \<le> vtx b \<and> vrx a \<le> vrx b"

definition less_view :: "view \<Rightarrow> view \<Rightarrow> bool" where
  "less_view a b \<longleftrightarrow> a \<le> b \<and> \<not> b \<le> a"

definition sup_view :: "view \<Rightarrow> view \<Rightarrow> view" where
  "sup_view a b = View (max (vt a) (vt b)) (max (vtx a) (vtx b)) (max (vrx a) (vrx b))"

definition bot_view :: view where
  "bot_view = View 0 0 0"

instance
  by standard
    (auto simp: less_eq_view_def less_view_def sup_view_def bot_view_def intro: view.expand)

end

lemma vt_simps [simp]:
  "vt (sup a b) = max (vt a) (vt b)"
  "vtx (sup a b) = max (vtx a) (vtx b)"
  "vrx (sup a b) = max (vrx a) (vrx b)"
  "vt bot = 0" "vtx bot = 0" "vrx bot = 0"
  by (simp_all add: sup_view_def bot_view_def)

lemma view_leD:
  assumes "a \<le> (b :: view)"
  shows "vt a \<le> vt b" "vtx a \<le> vtx b" "vrx a \<le> vrx b"
  using assms by (simp_all add: less_eq_view_def)

section \<open>Lists\<close>

lemma drop_snoc_le: "n \<le> length xs \<Longrightarrow> List.drop n (xs @ [x]) = List.drop n xs @ [x]"
  by simp

lemma drop_singleton_last:
  assumes "List.drop n xs = [y]"
  shows "n = length xs - 1" "xs \<noteq> []" "last xs = y"
proof -
  have "length (List.drop n xs) = 1" and ne: "List.drop n xs \<noteq> []"
    using assms by simp_all
  then show "n = length xs - 1" and "xs \<noteq> []"
    by auto
  have "n < length xs"
    using ne by (simp add: not_le)
  then show "last xs = y"
    using assms last_drop [of n xs] by simp
qed

lemma nth_length_snoc: "(xs @ [x]) ! length xs = x"
  by simp

end
