(* ===== verification/States.thy ===== *)
theory States
  imports Oneshot_Prelude
begin

unbundle bit_operations_syntax

text \<open>
  The values of the channel's one-byte atomic state (\<open>src/states.rs\<close>) and the arithmetic that the
  sender's two read-modify-write operations rely on.
\<close>

definition EMPTY :: u8 where "EMPTY = 0b011"
definition MESSAGE :: u8 where "MESSAGE = 0b100"
definition RECEIVING :: u8 where "RECEIVING = 0b000"
definition UNPARKING :: u8 where "UNPARKING = 0b001"
definition DISCONNECTED :: u8 where "DISCONNECTED = 0b010"

lemmas state_defs = EMPTY_def MESSAGE_def RECEIVING_def UNPARKING_def DISCONNECTED_def

lemma states_distinct [simp]:
  "EMPTY \<noteq> MESSAGE" "EMPTY \<noteq> RECEIVING" "EMPTY \<noteq> UNPARKING" "EMPTY \<noteq> DISCONNECTED"
  "MESSAGE \<noteq> EMPTY" "MESSAGE \<noteq> RECEIVING" "MESSAGE \<noteq> UNPARKING" "MESSAGE \<noteq> DISCONNECTED"
  "RECEIVING \<noteq> EMPTY" "RECEIVING \<noteq> MESSAGE" "RECEIVING \<noteq> UNPARKING" "RECEIVING \<noteq> DISCONNECTED"
  "UNPARKING \<noteq> EMPTY" "UNPARKING \<noteq> MESSAGE" "UNPARKING \<noteq> RECEIVING" "UNPARKING \<noteq> DISCONNECTED"
  "DISCONNECTED \<noteq> EMPTY" "DISCONNECTED \<noteq> MESSAGE" "DISCONNECTED \<noteq> RECEIVING"
  "DISCONNECTED \<noteq> UNPARKING"
  by (simp_all add: state_defs)

text \<open>The values the state is documented to have.\<close>

definition is_state :: "u8 \<Rightarrow> bool" where
  "is_state v \<longleftrightarrow> v \<in> {EMPTY, MESSAGE, RECEIVING, UNPARKING, DISCONNECTED}"

lemma is_state_simps [simp]:
  "is_state EMPTY" "is_state MESSAGE" "is_state RECEIVING" "is_state UNPARKING" "is_state DISCONNECTED"
  by (simp_all add: is_state_def)

text \<open>The transitions \<open>fetch_add(1)\<close> performs in \<open>Sender::send\<close>.\<close>

lemma send_transitions [simp]:
  "EMPTY + 1 = MESSAGE"
  "RECEIVING + 1 = UNPARKING"
  by (simp_all add: state_defs)

text \<open>The transitions \<open>fetch_xor(0b001)\<close> performs in \<open>Sender::drop\<close>.\<close>

lemma drop_transitions [simp]:
  "EMPTY XOR 1 = DISCONNECTED"
  "RECEIVING XOR 1 = UNPARKING"
  by (simp_all add: state_defs)

text \<open>
  What the two operations write over \<open>DISCONNECTED\<close> is \<open>EMPTY\<close>, a regular state: it is harmless
  only because nobody reads the state after that write.
\<close>

lemma disconnected_transitions:
  "DISCONNECTED + 1 = EMPTY"
  "DISCONNECTED XOR 1 = EMPTY"
  by (simp_all add: state_defs)

text \<open>The transitions that the two operations stand for, written out.\<close>

definition send_transition :: "u8 \<Rightarrow> u8" where
  "send_transition s =
     (if s = EMPTY then MESSAGE else if s = RECEIVING then UNPARKING
      else if s = DISCONNECTED then EMPTY else s)"

definition drop_transition :: "u8 \<Rightarrow> u8" where
  "drop_transition s =
     (if s = EMPTY then DISCONNECTED else if s = RECEIVING then UNPARKING
      else if s = DISCONNECTED then EMPTY else s)"

lemma transitions:
  assumes "s \<in> {EMPTY, RECEIVING, DISCONNECTED}"
  shows "s + 1 = send_transition s" "s XOR 1 = drop_transition s"
  using assms by (auto simp: send_transition_def drop_transition_def disconnected_transitions)

end
