(* ===== verification/Memory.thy ===== *)
theory Memory
  imports States
begin

text \<open>
  The memory of one channel and the effect of every elementary action on it: the atomic operations
  of \<open>src/atomic.rs\<close> with their orderings, the unsynchronised accesses to the message and waker
  fields, the deallocation, and thread parking (\<open>src/thread.rs\<close>).

  Atomics follow the release/acquire fragment of the C11 model that Rust uses. The modification
  order of the state byte is the list \<open>hist\<close>; a load may return any write that is not older than
  what its thread has observed, a read-modify-write operates on the last one, and each write
  carries the view that an acquiring reader obtains. Every unsynchronised access and the
  deallocation check that the conflicting accesses of the other endpoint happen before them.
\<close>

section \<open>Vocabulary\<close>

datatype ordering = Relaxed | Acquire | Release | AcqRel

definition acquiring :: "ordering \<Rightarrow> bool" where
  "acquiring ord \<longleftrightarrow> ord = Acquire \<or> ord = AcqRel"

definition releasing :: "ordering \<Rightarrow> bool" where
  "releasing ord \<longleftrightarrow> ord = Release \<or> ord = AcqRel"

lemma acquiring_simps [simp]:
  "\<not> acquiring Relaxed" "acquiring Acquire" "\<not> acquiring Release" "acquiring AcqRel"
  by (simp_all add: acquiring_def)

lemma releasing_simps [simp]:
  "\<not> releasing Relaxed" "\<not> releasing Acquire" "releasing Release" "releasing AcqRel"
  by (simp_all add: releasing_def)

text \<open>\<open>ReceiverWaker\<close> of \<open>src/waker.rs\<close>, with both features enabled.\<close>

datatype waker = Thread tid | Task wid

text \<open>The two endpoints of a channel. \<open>SendError\<close> takes over the sender's role.\<close>

datatype agent = Tx | Rx

fun peer :: "agent \<Rightarrow> agent" where
  "peer Tx = Rx"
| "peer Rx = Tx"

fun own_clock :: "agent \<Rightarrow> view \<Rightarrow> nat" where
  "own_clock Tx v = vtx v"
| "own_clock Rx v = vrx v"

fun tick :: "agent \<Rightarrow> view \<Rightarrow> view" where
  "tick Tx v = View (vt v) (Suc (vtx v)) (vrx v)"
| "tick Rx v = View (vt v) (vtx v) (Suc (vrx v))"

datatype 'm action =
    ALoad ordering
  | AStore u8 ordering
  | ASwap u8 ordering
  | AFetchAdd u8 ordering
  | AFetchXor u8 ordering
  | ACompareExchange u8 u8 ordering ordering
  | AFenceAcquire
  | AWriteMessage 'm
  | AReadMessage
  | ARefMessage
  | ADropMessage
  | AWriteWaker waker
  | AReadWaker
  | ADropWaker
  | ADealloc
  | APark tid
  | AParkTimeout tid duration
  | AUnpark tid
  | AWake wid
  | AWakeByRef wid
  | AInstantNow
  | ASpinLoop

datatype 'm resp =
    RUnit
  | RU8 u8
  | RCas "(u8, u8) result"
  | RMsg 'm
  | RWaker waker
  | RInstant instant

text \<open>
  What the scheduler and the environment decide at a step: which write a load returns, whether
  \<open>park\<close> returns because of a token or spuriously (a timeout is of the second kind), and how much
  time has passed.
\<close>

datatype choice = Go | At nat | Spurious | Elapse nat

text \<open>
  What must not happen: undefined behaviour and panics. \<open>Store_Order\<close> guards the model: a plain
  store is given the end of the modification order, which is the only possibility when the storing
  thread has observed the last write.
\<close>

datatype fault =
  Use_After_Free | Data_Race | Uninit_Read | Store_Order | Unreachable_Reached

datatype 'a outcome = Disabled | Fault fault | Step 'a

fun fault_of :: "'a outcome \<Rightarrow> fault option" where
  "fault_of (Fault f) = Some f"
| "fault_of _ = None"

section \<open>The memory of a channel\<close>

datatype store_event = Write (val: u8) (rel: view)

record 'm mem =
  hist :: "store_event list"
  message :: "'m option"
  waker_slot :: "waker option"
  freed :: bool
  cur :: "agent \<Rightarrow> view"
  acq :: "agent \<Rightarrow> view"
  msg_at :: "agent \<Rightarrow> nat"
  wak_at :: "agent \<Rightarrow> nat"
  token :: "tid \<Rightarrow> view option"
  woken :: "wid list"
  clock :: instant
  dropped :: "'m list"
  leaked :: bool

text \<open>
  \<open>msg_at\<close> and \<open>wak_at\<close> date the last access of each endpoint to the two fields, \<open>dropped\<close> lists
  the messages dropped in place, and \<open>leaked\<close> records the loss of an initialised message or waker:
  overwriting it, or freeing the channel around it (both fields are \<open>MaybeUninit\<close>).

  \<open>Channel::new\<close>: the state is \<open>EMPTY\<close>, both fields are uninitialised, and the creation happens
  before everything either endpoint does. Threads may hold park tokens from elsewhere.
\<close>

definition channel_new :: "(tid \<Rightarrow> bool) \<Rightarrow> 'm mem" where
  "channel_new parked = \<lparr>hist = [Write EMPTY bot], message = None, waker_slot = None,
     freed = False, cur = (\<lambda>_. bot), acq = (\<lambda>_. bot), msg_at = (\<lambda>_. 0), wak_at = (\<lambda>_. 0),
     token = (\<lambda>t. if parked t then Some bot else None), woken = [], clock = 0, dropped = [],
     leaked = False\<rparr>"

section \<open>Atomic operations\<close>

definition ticked :: "agent \<Rightarrow> 'm mem \<Rightarrow> 'm mem" where
  "ticked a \<mu> = \<mu>\<lparr>cur := (cur \<mu>)(a := tick a (cur \<mu> a))\<rparr>"

text \<open>Every access to the allocation counts, and none is allowed after the deallocation.\<close>

definition access :: "agent \<Rightarrow> 'm mem \<Rightarrow> ('m mem \<Rightarrow> 'b outcome) \<Rightarrow> 'b outcome" where
  "access a \<mu> k = (if freed \<mu> then Fault Use_After_Free else k (ticked a \<mu>))"

text \<open>Reading the \<open>i\<close>-th write; without an acquire ordering its view is kept for a later fence.\<close>

definition observe :: "agent \<Rightarrow> ordering \<Rightarrow> nat \<Rightarrow> 'm mem \<Rightarrow> 'm mem" where
  "observe a ord i \<mu> =
     (let r = rel (hist \<mu> ! i);
          c = sup (cur \<mu> a) (View i 0 0)
      in \<mu>\<lparr>cur := (cur \<mu>)(a := if acquiring ord then sup c r else c),
           acq := (acq \<mu>)(a := sup (acq \<mu> a) r)\<rparr>)"

text \<open>
  Appending a write. \<open>base\<close> is the view of the write that a read-modify-write replaces (the release
  sequence continues through it) and \<open>bot\<close> for a plain store (which ends it).
\<close>

definition emit :: "agent \<Rightarrow> ordering \<Rightarrow> u8 \<Rightarrow> view \<Rightarrow> 'm mem \<Rightarrow> 'm mem" where
  "emit a ord v base \<mu> =
     (let n = length (hist \<mu>);
          c = sup (cur \<mu> a) (View n 0 0);
          r = sup (View n 0 0) (sup base (if releasing ord then c else bot))
      in \<mu>\<lparr>cur := (cur \<mu>)(a := c), hist := hist \<mu> @ [Write v r]\<rparr>)"

definition visible :: "agent \<Rightarrow> nat \<Rightarrow> 'm mem \<Rightarrow> bool" where
  "visible a i \<mu> \<longleftrightarrow> vt (cur \<mu> a) \<le> i \<and> i < length (hist \<mu>)"

definition load_at :: "agent \<Rightarrow> ordering \<Rightarrow> nat \<Rightarrow> 'm mem \<Rightarrow> ('m resp \<times> 'm mem) outcome" where
  "load_at a ord i \<mu> =
     (if visible a i \<mu> then Step (RU8 (val (hist \<mu> ! i)), observe a ord i \<mu>) else Disabled)"

definition store_last :: "agent \<Rightarrow> u8 \<Rightarrow> ordering \<Rightarrow> 'm mem \<Rightarrow> ('m resp \<times> 'm mem) outcome" where
  "store_last a v ord \<mu> =
     (if Suc (vt (cur \<mu> a)) = length (hist \<mu>) then Step (RUnit, emit a ord v bot \<mu>)
      else Fault Store_Order)"

definition rmw :: "agent \<Rightarrow> (u8 \<Rightarrow> u8) \<Rightarrow> ordering \<Rightarrow> 'm mem \<Rightarrow> ('m resp \<times> 'm mem) outcome" where
  "rmw a f ord \<mu> =
     (let i = length (hist \<mu>) - 1; w = hist \<mu> ! i
      in Step (RU8 (val w), emit a ord (f (val w)) (rel w) (observe a ord i \<mu>)))"

text \<open>
  A strong compare-exchange: it succeeds on the last write only, and a failure is a load with the
  failure ordering.
\<close>

definition compare_exchange_at ::
  "agent \<Rightarrow> u8 \<Rightarrow> u8 \<Rightarrow> ordering \<Rightarrow> ordering \<Rightarrow> nat \<Rightarrow> 'm mem \<Rightarrow> ('m resp \<times> 'm mem) outcome" where
  "compare_exchange_at a expected new ok_ord err_ord i \<mu> =
     (if \<not> visible a i \<mu> then Disabled
      else let w = hist \<mu> ! i in
        if val w \<noteq> expected then Step (RCas (Err (val w)), observe a err_ord i \<mu>)
        else if Suc i = length (hist \<mu>)
          then Step (RCas (Ok (val w)), emit a ok_ord new (rel w) (observe a ok_ord i \<mu>))
        else Disabled)"

definition fence_acquire :: "agent \<Rightarrow> 'm mem \<Rightarrow> 'm mem" where
  "fence_acquire a \<mu> = \<mu>\<lparr>cur := (cur \<mu>)(a := sup (cur \<mu> a) (acq \<mu> a))\<rparr>"

section \<open>Unsynchronised accesses and deallocation\<close>

fun other_clock :: "agent \<Rightarrow> view \<Rightarrow> nat" where
  "other_clock Tx v = vrx v"
| "other_clock Rx v = vtx v"

definition msg_access :: "agent \<Rightarrow> 'm mem \<Rightarrow> ('m mem \<Rightarrow> 'b outcome) \<Rightarrow> 'b outcome" where
  "msg_access a \<mu> k =
     (if msg_at \<mu> (peer a) \<le> other_clock a (cur \<mu> a)
      then k (\<mu>\<lparr>msg_at := (msg_at \<mu>)(a := own_clock a (cur \<mu> a))\<rparr>) else Fault Data_Race)"

definition wak_access :: "agent \<Rightarrow> 'm mem \<Rightarrow> ('m mem \<Rightarrow> 'b outcome) \<Rightarrow> 'b outcome" where
  "wak_access a \<mu> k =
     (if wak_at \<mu> (peer a) \<le> other_clock a (cur \<mu> a)
      then k (\<mu>\<lparr>wak_at := (wak_at \<mu>)(a := own_clock a (cur \<mu> a))\<rparr>) else Fault Data_Race)"

definition put_message :: "'m \<Rightarrow> 'm mem \<Rightarrow> ('m resp \<times> 'm mem) outcome" where
  "put_message m \<mu> =
     Step (RUnit, \<mu>\<lparr>message := Some m, leaked := leaked \<mu> \<or> \<not> Option.is_none (message \<mu>)\<rparr>)"

text \<open>
  \<open>ptr::read\<close> moves the message out; a second read or drop of the moved value would be
  undefined behaviour, so the slot counts as uninitialised afterwards.
\<close>

definition move_message :: "'m mem \<Rightarrow> ('m resp \<times> 'm mem) outcome" where
  "move_message \<mu> =
     (case message \<mu> of None \<Rightarrow> Fault Uninit_Read | Some m \<Rightarrow> Step (RMsg m, \<mu>\<lparr>message := None\<rparr>))"

definition borrow_message :: "'m mem \<Rightarrow> ('m resp \<times> 'm mem) outcome" where
  "borrow_message \<mu> =
     (case message \<mu> of None \<Rightarrow> Fault Uninit_Read | Some m \<Rightarrow> Step (RMsg m, \<mu>))"

definition drop_message_in_place :: "'m mem \<Rightarrow> ('m resp \<times> 'm mem) outcome" where
  "drop_message_in_place \<mu> =
     (case message \<mu> of None \<Rightarrow> Fault Uninit_Read
      | Some m \<Rightarrow> Step (RUnit, \<mu>\<lparr>message := None, dropped := dropped \<mu> @ [m]\<rparr>))"

definition put_waker :: "waker \<Rightarrow> 'm mem \<Rightarrow> ('m resp \<times> 'm mem) outcome" where
  "put_waker w \<mu> =
     Step (RUnit, \<mu>\<lparr>waker_slot := Some w, leaked := leaked \<mu> \<or> \<not> Option.is_none (waker_slot \<mu>)\<rparr>)"

definition move_waker :: "'m mem \<Rightarrow> ('m resp \<times> 'm mem) outcome" where
  "move_waker \<mu> =
     (case waker_slot \<mu> of None \<Rightarrow> Fault Uninit_Read
      | Some w \<Rightarrow> Step (RWaker w, \<mu>\<lparr>waker_slot := None\<rparr>))"

definition drop_waker_in_place :: "'m mem \<Rightarrow> ('m resp \<times> 'm mem) outcome" where
  "drop_waker_in_place \<mu> =
     (case waker_slot \<mu> of None \<Rightarrow> Fault Uninit_Read
      | Some w \<Rightarrow> Step (RUnit, \<mu>\<lparr>waker_slot := None\<rparr>))"

text \<open>
  Freeing the channel: every access of the other endpoint so far happens before it; what the two
  fields still hold is lost.
\<close>

definition free_channel :: "agent \<Rightarrow> 'm mem \<Rightarrow> ('m resp \<times> 'm mem) outcome" where
  "free_channel a \<mu> =
     (if other_clock a (cur \<mu> a) < own_clock (peer a) (cur \<mu> (peer a)) then Fault Data_Race
      else Step (RUnit, \<mu>\<lparr>freed := True,
                         leaked := leaked \<mu> \<or> \<not> Option.is_none (message \<mu>) \<or> \<not> Option.is_none (waker_slot \<mu>)\<rparr>))"

section \<open>Parking\<close>

text \<open>
  \<open>unpark\<close> makes the token available and \<open>park\<close> consumes it, with a happens-before edge from the
  one to the other; \<open>park\<close> may also return spuriously, without any synchronisation.
\<close>

definition park :: "agent \<Rightarrow> choice \<Rightarrow> tid \<Rightarrow> 'm mem \<Rightarrow> ('m resp \<times> 'm mem) outcome" where
  "park a c t \<mu> =
     (case c of
        Go \<Rightarrow> (case token \<mu> t of
            None \<Rightarrow> Disabled
          | Some v \<Rightarrow> Step (RUnit, \<mu>\<lparr>token := (token \<mu>)(t := None),
                                       cur := (cur \<mu>)(a := sup (cur \<mu> a) v)\<rparr>))
      | Spurious \<Rightarrow> Step (RUnit, \<mu>)
      | _ \<Rightarrow> Disabled)"

definition unpark_thread :: "agent \<Rightarrow> tid \<Rightarrow> 'm mem \<Rightarrow> 'm mem" where
  "unpark_thread a t \<mu> =
     \<mu>\<lparr>token := (token \<mu>)(t := Some (sup (cur \<mu> a)
         (case token \<mu> t of None \<Rightarrow> bot | Some v \<Rightarrow> v)))\<rparr>"

section \<open>One action\<close>

definition with_index :: "choice \<Rightarrow> (nat \<Rightarrow> 'b outcome) \<Rightarrow> 'b outcome" where
  "with_index c k = (case c of At i \<Rightarrow> k i | _ \<Rightarrow> Disabled)"

fun act :: "agent \<Rightarrow> choice \<Rightarrow> 'm action \<Rightarrow> 'm mem \<Rightarrow> ('m resp \<times> 'm mem) outcome" where
  "act a c (ALoad ord) \<mu> = access a \<mu> (\<lambda>\<mu>. with_index c (\<lambda>i. load_at a ord i \<mu>))"
| "act a c (AStore v ord) \<mu> = access a \<mu> (store_last a v ord)"
| "act a c (ASwap v ord) \<mu> = access a \<mu> (rmw a (\<lambda>_. v) ord)"
| "act a c (AFetchAdd v ord) \<mu> = access a \<mu> (rmw a (\<lambda>x. x + v) ord)"
| "act a c (AFetchXor v ord) \<mu> = access a \<mu> (rmw a (\<lambda>x. xor x v) ord)"
| "act a c (ACompareExchange x n ok_ord err_ord) \<mu> =
     access a \<mu> (\<lambda>\<mu>. with_index c (\<lambda>i. compare_exchange_at a x n ok_ord err_ord i \<mu>))"
| "act a c AFenceAcquire \<mu> = Step (RUnit, fence_acquire a \<mu>)"
| "act a c (AWriteMessage m) \<mu> = access a \<mu> (\<lambda>\<mu>. msg_access a \<mu> (put_message m))"
| "act a c AReadMessage \<mu> = access a \<mu> (\<lambda>\<mu>. msg_access a \<mu> move_message)"
| "act a c ARefMessage \<mu> = access a \<mu> (\<lambda>\<mu>. msg_access a \<mu> borrow_message)"
| "act a c ADropMessage \<mu> = access a \<mu> (\<lambda>\<mu>. msg_access a \<mu> drop_message_in_place)"
| "act a c (AWriteWaker w) \<mu> = access a \<mu> (\<lambda>\<mu>. wak_access a \<mu> (put_waker w))"
| "act a c AReadWaker \<mu> = access a \<mu> (\<lambda>\<mu>. wak_access a \<mu> move_waker)"
| "act a c ADropWaker \<mu> = access a \<mu> (\<lambda>\<mu>. wak_access a \<mu> drop_waker_in_place)"
| "act a c ADealloc \<mu> = access a \<mu> (free_channel a)"
| "act a c (APark t) \<mu> = park a c t \<mu>"
| "act a c (AParkTimeout t d) \<mu> = park a c t \<mu>"
| "act a c (AUnpark t) \<mu> = Step (RUnit, unpark_thread a t \<mu>)"
| "act a c (AWake i) \<mu> = Step (RUnit, \<mu>\<lparr>woken := woken \<mu> @ [i]\<rparr>)"
| "act a c (AWakeByRef i) \<mu> = Step (RUnit, \<mu>\<lparr>woken := woken \<mu> @ [i]\<rparr>)"
| "act a c AInstantNow \<mu> =
     (case c of Elapse d \<Rightarrow> Step (RInstant (clock \<mu> + d), \<mu>\<lparr>clock := clock \<mu> + d\<rparr>)
      | _ \<Rightarrow> Disabled)"
| "act a c ASpinLoop \<mu> = Step (RUnit, \<mu>)"

text \<open>
  loom has no \<open>park_timeout\<close>; the crate then yields instead, which the model covers as a spurious return.
\<close>

definition loom_park_timeout ::
  "('m mem \<Rightarrow> ('m resp \<times> 'm mem) outcome) \<Rightarrow> duration \<Rightarrow> 'm mem \<Rightarrow> ('m resp \<times> 'm mem) outcome" where
  "loom_park_timeout yield_now timeout \<mu> = yield_now \<mu>"

lemma loom_park_timeout_covered:
  assumes "\<And>\<nu>. yield_now \<nu> = Step (RUnit, \<nu>)"
  shows "loom_park_timeout yield_now timeout \<mu> = act a Spurious (AParkTimeout t timeout) \<mu>"
  by (simp add: loom_park_timeout_def assms park_def)

end
