(* ===== verification/Program.thy ===== *)
theory Program
  imports Memory
begin

text \<open>
  Method bodies as programs: trees of actions, each continuing with the answer it gets, so that a
  body reads like its Rust source and a thread can be interrupted between any two actions. A loop
  is a \<open>Loop\<close> node around its body; \<open>Continue\<close> goes round again and leaving the body through any
  other leaf is \<open>break\<close> (no loop of the crate is nested in the body of another one that goes on).
\<close>

datatype ('m, 'r) prog =
    Return 'r
  | Unreachable
  | Continue
  | Loop "('m, 'r) prog"
  | Do "'m action" "'m resp \<Rightarrow> ('m, 'r) prog"

section \<open>Actions with typed answers\<close>

definition perform :: "'m action \<Rightarrow> ('m, 'r) prog \<Rightarrow> ('m, 'r) prog" where
  "perform \<alpha> k = Do \<alpha> (\<lambda>_. k)"

definition get_u8 :: "'m action \<Rightarrow> (u8 \<Rightarrow> ('m, 'r) prog) \<Rightarrow> ('m, 'r) prog" where
  "get_u8 \<alpha> k = Do \<alpha> (\<lambda>r. case r of RU8 v \<Rightarrow> k v | _ \<Rightarrow> Unreachable)"

definition get_msg :: "'m action \<Rightarrow> ('m \<Rightarrow> ('m, 'r) prog) \<Rightarrow> ('m, 'r) prog" where
  "get_msg \<alpha> k = Do \<alpha> (\<lambda>r. case r of RMsg v \<Rightarrow> k v | _ \<Rightarrow> Unreachable)"

definition get_waker :: "'m action \<Rightarrow> (waker \<Rightarrow> ('m, 'r) prog) \<Rightarrow> ('m, 'r) prog" where
  "get_waker \<alpha> k = Do \<alpha> (\<lambda>r. case r of RWaker v \<Rightarrow> k v | _ \<Rightarrow> Unreachable)"

text \<open>The operations of \<open>AtomicU8\<close> on \<open>channel.state()\<close>, and \<open>fence(Acquire)\<close>.\<close>

definition state_load :: "ordering \<Rightarrow> (u8 \<Rightarrow> ('m, 'r) prog) \<Rightarrow> ('m, 'r) prog" where
  "state_load ord = get_u8 (ALoad ord)"

definition state_store :: "u8 \<Rightarrow> ordering \<Rightarrow> ('m, 'r) prog \<Rightarrow> ('m, 'r) prog" where
  "state_store v ord = perform (AStore v ord)"

definition state_swap :: "u8 \<Rightarrow> ordering \<Rightarrow> (u8 \<Rightarrow> ('m, 'r) prog) \<Rightarrow> ('m, 'r) prog" where
  "state_swap v ord = get_u8 (ASwap v ord)"

definition state_fetch_add :: "u8 \<Rightarrow> ordering \<Rightarrow> (u8 \<Rightarrow> ('m, 'r) prog) \<Rightarrow> ('m, 'r) prog" where
  "state_fetch_add v ord = get_u8 (AFetchAdd v ord)"

definition state_fetch_xor :: "u8 \<Rightarrow> ordering \<Rightarrow> (u8 \<Rightarrow> ('m, 'r) prog) \<Rightarrow> ('m, 'r) prog" where
  "state_fetch_xor v ord = get_u8 (AFetchXor v ord)"

definition state_compare_exchange ::
  "u8 \<Rightarrow> u8 \<Rightarrow> ordering \<Rightarrow> ordering \<Rightarrow> ((u8, u8) result \<Rightarrow> ('m, 'r) prog) \<Rightarrow> ('m, 'r) prog" where
  "state_compare_exchange expected new ok_ord err_ord k =
     Do (ACompareExchange expected new ok_ord err_ord)
       (\<lambda>r. case r of RCas v \<Rightarrow> k v | _ \<Rightarrow> Unreachable)"

definition fence_Acquire :: "('m, 'r) prog \<Rightarrow> ('m, 'r) prog" where
  "fence_Acquire = perform AFenceAcquire"

text \<open>\<open>thread::park\<close>, \<open>thread::park_timeout\<close>, \<open>Instant::now\<close> and \<open>hint::spin_loop\<close>.\<close>

definition thread_park :: "tid \<Rightarrow> ('m, 'r) prog \<Rightarrow> ('m, 'r) prog" where
  "thread_park t = perform (APark t)"

definition thread_park_timeout :: "tid \<Rightarrow> duration \<Rightarrow> ('m, 'r) prog \<Rightarrow> ('m, 'r) prog" where
  "thread_park_timeout t d = perform (AParkTimeout t d)"

definition instant_now :: "(instant \<Rightarrow> ('m, 'r) prog) \<Rightarrow> ('m, 'r) prog" where
  "instant_now k = Do AInstantNow (\<lambda>r. case r of RInstant i \<Rightarrow> k i | _ \<Rightarrow> Unreachable)"

definition spin_loop :: "('m, 'r) prog \<Rightarrow> ('m, 'r) prog" where
  "spin_loop = perform ASpinLoop"

text \<open>
  \<open>Instant::checked_add\<close> fails beyond the last representable instant, which is a parameter;
  \<open>Instant::checked_duration_since\<close> fails for an earlier instant.
\<close>

definition checked_add :: "instant \<Rightarrow> instant \<Rightarrow> duration \<Rightarrow> instant option" where
  "checked_add last_instant i d = (if i + d \<le> last_instant then Some (i + d) else None)"

definition checked_duration_since :: "instant \<Rightarrow> instant \<Rightarrow> duration option" where
  "checked_duration_since later earlier = (if earlier \<le> later then Some (later - earlier) else None)"

lemmas action_defs [code_unfold] =
  perform_def get_u8_def get_msg_def get_waker_def state_load_def state_store_def state_swap_def
  state_fetch_add_def state_fetch_xor_def state_compare_exchange_def fence_Acquire_def
  thread_park_def thread_park_timeout_def instant_now_def spin_loop_def

section \<open>Threads\<close>

text \<open>A thread in a method: what is left of the body, and the innermost loop it is in.\<close>

type_synonym ('m, 'r) thread = "('m, 'r) prog \<times> ('m, 'r) prog option"

definition start :: "('m, 'r) prog \<Rightarrow> ('m, 'r) thread" where
  "start p = (p, None)"

fun run_thread ::
  "agent \<Rightarrow> choice \<Rightarrow> ('m, 'r) thread \<Rightarrow> 'm mem \<Rightarrow> (('m, 'r) thread \<times> 'm mem) outcome" where
  "run_thread a c (Return r, fr) \<mu> = Disabled"
| "run_thread a c (Unreachable, fr) \<mu> = Fault Unreachable_Reached"
| "run_thread a c (Continue, fr) \<mu> =
     (case fr of None \<Rightarrow> Fault Unreachable_Reached | Some b \<Rightarrow> Step ((b, fr), \<mu>))"
| "run_thread a c (Loop b, fr) \<mu> = Step ((b, Some b), \<mu>)"
| "run_thread a c (Do \<alpha> k, fr) \<mu> =
     (case act a c \<alpha> \<mu> of
        Disabled \<Rightarrow> Disabled
      | Fault f \<Rightarrow> Fault f
      | Step (r, \<mu>') \<Rightarrow> Step ((k r, fr), \<mu>'))"

end
