(* ===== verification/Errors.thy ===== *)
theory Errors
  imports Program
begin

text \<open>The error types of \<open>src/errors.rs\<close> and the messages they display.\<close>

text \<open>
  \<open>SendError\<close> owns the channel: it stands for the pointer to the allocation in which the message
  that could not be sent still lies. Its methods are programs on the channel (\<open>Sender.thy\<close>).
\<close>

datatype SendError = SendError

datatype RecvError = RecvError

datatype TryRecvError = TryRecvError_Empty | TryRecvError_Disconnected

datatype RecvTimeoutError = RecvTimeoutError_Timeout | RecvTimeoutError_Disconnected

definition SendError_display :: "SendError \<Rightarrow> string" where
  "SendError_display e = ''sending on a closed channel''"

definition SendError_debug :: "string \<Rightarrow> SendError \<Rightarrow> string" where
  "SendError_debug type_name e = ''SendError<'' @ type_name @ ''>(_)''"

definition RecvError_display :: "RecvError \<Rightarrow> string" where
  "RecvError_display e = ''receiving on a closed channel''"

fun TryRecvError_display :: "TryRecvError \<Rightarrow> string" where
  "TryRecvError_display TryRecvError_Empty = ''receiving on an empty channel''"
| "TryRecvError_display TryRecvError_Disconnected = ''receiving on a closed channel''"

fun RecvTimeoutError_display :: "RecvTimeoutError \<Rightarrow> string" where
  "RecvTimeoutError_display RecvTimeoutError_Timeout = ''timed out waiting on channel''"
| "RecvTimeoutError_display RecvTimeoutError_Disconnected =
     ''channel is empty and sending half is closed''"

end
