(* ===== verification/Channel.thy ===== *)
theory Channel
  imports Errors
begin

text \<open>
  The accessors of \<open>Channel\<close> (\<open>src/channel.rs\<close>), the receiver's waker (\<open>src/waker.rs\<close>) and the
  deallocation (\<open>dealloc\<close> of \<open>src/lib.rs\<close>). Each takes the rest of the caller as its continuation.
\<close>

section \<open>The fields\<close>

definition channel_message :: "('m \<Rightarrow> ('m, 'r) prog) \<Rightarrow> ('m, 'r) prog" where
  "channel_message = get_msg ARefMessage"

definition write_message :: "'m \<Rightarrow> ('m, 'r) prog \<Rightarrow> ('m, 'r) prog" where
  "write_message m = perform (AWriteMessage m)"

definition take_message :: "('m \<Rightarrow> ('m, 'r) prog) \<Rightarrow> ('m, 'r) prog" where
  "take_message = get_msg AReadMessage"

definition drop_message :: "('m, 'r) prog \<Rightarrow> ('m, 'r) prog" where
  "drop_message = perform ADropMessage"

definition write_waker :: "waker \<Rightarrow> ('m, 'r) prog \<Rightarrow> ('m, 'r) prog" where
  "write_waker w = perform (AWriteWaker w)"

definition take_waker :: "(waker \<Rightarrow> ('m, 'r) prog) \<Rightarrow> ('m, 'r) prog" where
  "take_waker = get_waker AReadWaker"

definition drop_waker :: "('m, 'r) prog \<Rightarrow> ('m, 'r) prog" where
  "drop_waker = perform ADropWaker"

definition dealloc :: "('m, 'r) prog \<Rightarrow> ('m, 'r) prog" where
  "dealloc = perform ADealloc"

section \<open>The waker\<close>

definition current_thread :: "tid \<Rightarrow> waker" where
  "current_thread t = Thread t"

text \<open>A task context \<open>cx\<close> is represented by the identity of its waker.\<close>

definition task_waker :: "wid \<Rightarrow> waker" where
  "task_waker cx = Task cx"

fun unpark :: "waker \<Rightarrow> ('m, 'r) prog \<Rightarrow> ('m, 'r) prog" where
  "unpark (Thread t) k = perform (AUnpark t) k"
| "unpark (Task w) k = perform (AWake w) k"

definition wake_by_ref :: "wid \<Rightarrow> ('m, 'r) prog \<Rightarrow> ('m, 'r) prog" where
  "wake_by_ref cx = perform (AWakeByRef cx)"

section \<open>Registering an asynchronous waker\<close>

datatype 'a poll = Ready 'a | Pending

definition write_async_waker ::
  "wid \<Rightarrow> ('m, ('m, RecvError) result poll) prog" where
  "write_async_waker cx =
     write_waker (task_waker cx) (
     state_compare_exchange EMPTY RECEIVING Release Relaxed (\<lambda>r.
       case r of
         Ok _ \<Rightarrow> Return Pending
       | Err s \<Rightarrow>
           if s = MESSAGE then
             drop_waker (
             state_store DISCONNECTED Relaxed (
             fence_Acquire (
             take_message (\<lambda>message.
             Return (Ready (Ok message))))))
           else if s = DISCONNECTED then
             drop_waker (
             Return (Ready (Err RecvError)))
           else Unreachable))"

lemmas channel_defs [code_unfold] =
  channel_message_def write_message_def take_message_def drop_message_def write_waker_def
  take_waker_def drop_waker_def dealloc_def current_thread_def task_waker_def wake_by_ref_def
  write_async_waker_def

end
