(* ===== verification/Sender.thy ===== *)
theory Sender
  imports Channel
begin

text \<open>The methods of \<open>Sender\<close> (\<open>src/sender.rs\<close>) and of \<open>SendError\<close> (\<open>src/errors.rs\<close>).\<close>

definition sender_send :: "'m \<Rightarrow> ('m, (unit, SendError) result) prog" where
  "sender_send msg =
     write_message msg (
     state_fetch_add 1 AcqRel (\<lambda>s.
       if s = EMPTY then Return (Ok ())
       else if s = RECEIVING then
         take_waker (\<lambda>waker.
         state_swap MESSAGE AcqRel (\<lambda>_.
         unpark waker (
         Return (Ok ()))))
       else if s = DISCONNECTED then Return (Err SendError)
       else Unreachable))"

definition sender_is_closed :: "('m, bool) prog" where
  "sender_is_closed = state_load Relaxed (\<lambda>s. Return (s = DISCONNECTED))"

definition sender_drop :: "('m, unit) prog" where
  "sender_drop =
     state_fetch_xor 0b001 AcqRel (\<lambda>s.
       if s = EMPTY then Return ()
       else if s = RECEIVING then
         take_waker (\<lambda>waker.
         state_swap DISCONNECTED AcqRel (\<lambda>_.
         unpark waker (
         Return ())))
       else if s = DISCONNECTED then
         dealloc (
         Return ())
       else Unreachable)"

text \<open>
  \<open>into_raw\<close> forgets the sender and hands out its pointer, \<open>from_raw\<close> makes a sender of it again:
  neither accesses the channel, so what they do is to change the value in hand (\<open>System.thy\<close>).
\<close>

definition sender_into_raw :: "('m, unit) prog" where
  "sender_into_raw = Return ()"

definition sender_from_raw :: "('m, unit) prog" where
  "sender_from_raw = Return ()"

section \<open>SendError\<close>

definition send_error_into_inner :: "('m, 'm) prog" where
  "send_error_into_inner =
     take_message (\<lambda>message.
     dealloc (
     Return message))"

definition send_error_as_inner :: "('m, 'm) prog" where
  "send_error_as_inner = channel_message (\<lambda>message. Return message)"

definition send_error_drop :: "('m, unit) prog" where
  "send_error_drop =
     drop_message (
     dealloc (
     Return ()))"

lemmas sender_defs [code_unfold] =
  sender_send_def sender_is_closed_def sender_drop_def send_error_into_inner_def
  send_error_as_inner_def send_error_drop_def sender_into_raw_def sender_from_raw_def

end
