(* ===== verification/Receiver.thy ===== *)
theory Receiver
  imports Channel
begin

text \<open>
  The methods of \<open>Receiver\<close> (\<open>src/receiver.rs\<close>). The blocking ones take the identity of the
  thread they run on (\<open>thread::current()\<close>).
\<close>

section \<open>Receiving without blocking\<close>

definition receiver_try_recv :: "('m, ('m, TryRecvError) result) prog" where
  "receiver_try_recv =
     state_load Relaxed (\<lambda>s.
       if s = MESSAGE then
         state_store DISCONNECTED Relaxed (
         fence_Acquire (
         take_message (\<lambda>message.
         Return (Ok message))))
       else if s = EMPTY then Return (Err TryRecvError_Empty)
       else if s = DISCONNECTED then Return (Err TryRecvError_Disconnected)
       else Unreachable)"

definition receiver_is_closed :: "('m, bool) prog" where
  "receiver_is_closed = state_load Relaxed (\<lambda>s. Return (s = DISCONNECTED))"

definition receiver_has_message :: "('m, bool) prog" where
  "receiver_has_message = state_load Acquire (\<lambda>s. Return (s = MESSAGE))"

section \<open>The consuming receive\<close>

definition receiver_recv :: "tid \<Rightarrow> ('m, ('m, RecvError) result) prog" where
  "receiver_recv t =
     state_load Relaxed (\<lambda>s.
       if s = EMPTY then
         write_waker (current_thread t) (
         state_swap RECEIVING Release (\<lambda>s.
           if s = EMPTY then Loop (
             thread_park t (
             state_load Acquire (\<lambda>s.
               if s = MESSAGE then
                 take_message (\<lambda>message.
                 dealloc (
                 Return (Ok message)))
               else if s = DISCONNECTED then
                 dealloc (
                 Return (Err RecvError))
               else if s = RECEIVING \<or> s = UNPARKING then Continue
               else Unreachable)))
           else if s = MESSAGE then
             drop_waker (
             fence_Acquire (
             take_message (\<lambda>message.
             dealloc (
             Return (Ok message)))))
           else if s = DISCONNECTED then
             drop_waker (
             fence_Acquire (
             dealloc (
             Return (Err RecvError))))
           else Unreachable))
       else if s = MESSAGE then
         fence_Acquire (
         take_message (\<lambda>message.
         dealloc (
         Return (Ok message))))
       else if s = DISCONNECTED then
         fence_Acquire (
         dealloc (
         Return (Err RecvError)))
       else Unreachable)"

section \<open>Receiving by reference\<close>

definition start_recv_ref ::
  "tid \<Rightarrow> 'e \<Rightarrow> ('m, ('m, 'e) result) prog \<Rightarrow> ('m, ('m, 'e) result) prog" where
  "start_recv_ref t disconnected_error finish =
     state_load Acquire (\<lambda>s.
       if s = EMPTY then
         write_waker (current_thread t) (
         state_swap RECEIVING Release (\<lambda>s.
           if s = EMPTY then finish
           else if s = MESSAGE then
             drop_waker (
             state_store DISCONNECTED Relaxed (
             fence_Acquire (
             take_message (\<lambda>message.
             Return (Ok message)))))
           else if s = DISCONNECTED then
             drop_waker (
             state_store DISCONNECTED Relaxed (
             fence_Acquire (
             Return (Err disconnected_error))))
           else Unreachable))
       else if s = MESSAGE then
         state_store DISCONNECTED Relaxed (
         take_message (\<lambda>message.
         Return (Ok message)))
       else if s = DISCONNECTED then Return (Err disconnected_error)
       else Unreachable)"

definition receiver_recv_ref :: "tid \<Rightarrow> ('m, ('m, RecvError) result) prog" where
  "receiver_recv_ref t =
     start_recv_ref t RecvError (Loop (
       thread_park t (
       state_load Acquire (\<lambda>s.
         if s = MESSAGE then
           state_store DISCONNECTED Relaxed (
           take_message (\<lambda>message.
           Return (Ok message)))
         else if s = DISCONNECTED then Return (Err RecvError)
         else if s = RECEIVING \<or> s = UNPARKING then Continue
         else Unreachable))))"

definition wait_for_unpark :: "tid \<Rightarrow> ('m, ('m, RecvTimeoutError) result) prog" where
  "wait_for_unpark t =
     Loop (
       thread_park t (
       state_load Relaxed (\<lambda>s.
         if s = MESSAGE then
           state_store DISCONNECTED Relaxed (
           take_message (\<lambda>message.
           Return (Ok message)))
         else if s = DISCONNECTED then Return (Err RecvTimeoutError_Disconnected)
         else if s = EMPTY then Continue
         else Unreachable)))"

definition receiver_recv_deadline ::
  "tid \<Rightarrow> instant \<Rightarrow> ('m, ('m, RecvTimeoutError) result) prog" where
  "receiver_recv_deadline t deadline =
     start_recv_ref t RecvTimeoutError_Disconnected (Loop (
       instant_now (\<lambda>now.
         case checked_duration_since deadline now of
           Some timeout \<Rightarrow>
             thread_park_timeout t timeout (
             state_load Acquire (\<lambda>s.
               if s = MESSAGE then
                 state_store DISCONNECTED Relaxed (
                 take_message (\<lambda>message.
                 Return (Ok message)))
               else if s = DISCONNECTED then Return (Err RecvTimeoutError_Disconnected)
               else if s = RECEIVING \<or> s = UNPARKING then Continue
               else Unreachable))
         | None \<Rightarrow>
             state_swap EMPTY Acquire (\<lambda>s.
               if s = RECEIVING then
                 drop_waker (
                 Return (Err RecvTimeoutError_Timeout))
               else if s = MESSAGE then
                 state_store DISCONNECTED Relaxed (
                 take_message (\<lambda>message.
                 Return (Ok message)))
               else if s = DISCONNECTED then
                 state_store DISCONNECTED Relaxed (
                 Return (Err RecvTimeoutError_Disconnected))
               else if s = UNPARKING then wait_for_unpark t
               else Unreachable))))"

text \<open>\<open>last_instant\<close> is the largest value an \<open>Instant\<close> can represent.\<close>

definition receiver_recv_timeout ::
  "instant \<Rightarrow> tid \<Rightarrow> duration \<Rightarrow> ('m, ('m, RecvTimeoutError) result) prog" where
  "receiver_recv_timeout last_instant t timeout =
     instant_now (\<lambda>now.
       case checked_add last_instant now timeout of
         Some deadline \<Rightarrow> receiver_recv_deadline t deadline
       | None \<Rightarrow> map_prog (map_err (\<lambda>_. RecvTimeoutError_Disconnected)) (receiver_recv_ref t))"

section \<open>Dropping the receiver\<close>

definition receiver_drop :: "('m, unit) prog" where
  "receiver_drop =
     state_swap DISCONNECTED AcqRel (\<lambda>s.
       if s = EMPTY then Return ()
       else if s = MESSAGE then
         drop_message (
         dealloc (
         Return ()))
       else if s = DISCONNECTED then
         dealloc (
         Return ())
       else Unreachable)"

section \<open>Conversions\<close>

text \<open>
  \<open>into_raw\<close>, \<open>from_raw\<close> and \<open>into_future\<close> move the channel pointer into another value without
  accessing the channel; which value is in hand afterwards is part of \<open>System.thy\<close>.
\<close>

definition receiver_into_raw :: "('m, unit) prog" where
  "receiver_into_raw = Return ()"

definition receiver_from_raw :: "('m, unit) prog" where
  "receiver_from_raw = Return ()"

definition receiver_into_future :: "('m, unit) prog" where
  "receiver_into_future = Return ()"

section \<open>The asynchronous receiver\<close>

definition async_receiver_is_closed :: "('m, bool) prog" where
  "async_receiver_is_closed = state_load Relaxed (\<lambda>s. Return (s = DISCONNECTED))"

definition async_receiver_has_message :: "('m, bool) prog" where
  "async_receiver_has_message = state_load Acquire (\<lambda>s. Return (s = MESSAGE))"

definition async_receiver_poll :: "wid \<Rightarrow> ('m, ('m, RecvError) result poll) prog" where
  "async_receiver_poll cx =
     state_load Relaxed (\<lambda>s.
       if s = EMPTY then write_async_waker cx
       else if s = RECEIVING then
         state_compare_exchange RECEIVING EMPTY Relaxed Relaxed (\<lambda>r.
           case r of
             Ok _ \<Rightarrow>
               drop_waker (
               write_async_waker cx)
           | Err s \<Rightarrow>
               if s = MESSAGE then
                 state_store DISCONNECTED Relaxed (
                 fence_Acquire (
                 take_message (\<lambda>message.
                 Return (Ready (Ok message)))))
               else if s = DISCONNECTED then Return (Ready (Err RecvError))
               else if s = UNPARKING then
                 wake_by_ref cx (
                 Return Pending)
               else Unreachable)
       else if s = MESSAGE then
         state_store DISCONNECTED Relaxed (
         fence_Acquire (
         take_message (\<lambda>message.
         Return (Ready (Ok message)))))
       else if s = DISCONNECTED then Return (Ready (Err RecvError))
       else if s = UNPARKING then Loop (
         spin_loop (
         state_load Relaxed (\<lambda>s.
           if s = MESSAGE then
             state_store DISCONNECTED Relaxed (
             fence_Acquire (
             take_message (\<lambda>message.
             Return (Ready (Ok message)))))
           else if s = DISCONNECTED then Return (Ready (Err RecvError))
           else if s = UNPARKING then Continue
           else Unreachable)))
       else Unreachable)"

text \<open>
  \<open>Drop for AsyncReceiver\<close>: leaving the \<open>RECEIVING\<close> state, then the disconnecting swap, whose
  \<open>UNPARKING\<close> branch spins and then falls through to the fence and the deallocation.
\<close>

definition async_receiver_disconnect :: "('m, unit) prog" where
  "async_receiver_disconnect =
     (let after_loop = fence_Acquire (dealloc (Return ())) in
      state_swap DISCONNECTED AcqRel (\<lambda>s.
        if s = EMPTY then Return ()
        else if s = MESSAGE then
          drop_message (
          dealloc (
          Return ()))
        else if s = DISCONNECTED then
          dealloc (
          Return ())
        else if s = UNPARKING then Loop (
          spin_loop (
          state_load Relaxed (\<lambda>s.
            if s = MESSAGE then drop_message after_loop
            else if s = DISCONNECTED then after_loop
            else if s = UNPARKING then Continue
            else Unreachable)))
        else Unreachable))"

definition async_receiver_drop :: "('m, unit) prog" where
  "async_receiver_drop =
     state_load Relaxed (\<lambda>s.
       if s = RECEIVING then
         state_compare_exchange RECEIVING EMPTY Relaxed Relaxed (\<lambda>r.
           case r of
             Ok _ \<Rightarrow> drop_waker async_receiver_disconnect
           | Err _ \<Rightarrow> async_receiver_disconnect)
       else async_receiver_disconnect)"

lemmas receiver_defs [code_unfold] =
  receiver_try_recv_def receiver_is_closed_def receiver_has_message_def receiver_recv_def
  start_recv_ref_def receiver_recv_ref_def wait_for_unpark_def receiver_recv_deadline_def
  receiver_recv_timeout_def receiver_drop_def async_receiver_is_closed_def
  async_receiver_has_message_def async_receiver_poll_def async_receiver_disconnect_def
  async_receiver_drop_def receiver_into_raw_def receiver_from_raw_def receiver_into_future_def

end
