(* ===== verification/System.thy ===== *)
theory System
  imports Sender Receiver
begin

text \<open>
  A channel and its two endpoints in use: each endpoint belongs to one client, which calls the
  methods that Rust's ownership rules allow for the value it holds, one at a time and in any order,
  while the actions of the two endpoints interleave arbitrarily.
\<close>

section \<open>Calls and results\<close>

datatype tx_handle = TxSender | TxRaw | TxSendError | TxGone

datatype rx_handle = RxReceiver | RxRaw | RxAsync | RxGone

datatype 'm tx_call =
    CSend 'm
  | CTxIsClosed
  | CTxDrop
  | CTxIntoRaw
  | CTxFromRaw
  | CErrAsInner
  | CErrIntoInner
  | CErrDrop

datatype rx_call =
    CTryRecv
  | CRecv tid
  | CRecvRef tid
  | CRecvTimeout tid duration
  | CRecvDeadline tid instant
  | CIsClosed
  | CHasMessage
  | CDrop
  | CIntoRaw
  | CFromRaw
  | CIntoFuture
  | CPoll wid
  | CAsyncIsClosed
  | CAsyncHasMessage
  | CAsyncDrop

datatype 'm tx_ret =
  TxSent "(unit, SendError) result" | TxBool bool | TxUnit | TxInner 'm

datatype 'm rx_ret =
    RxTry "('m, TryRecvError) result"
  | RxRecv "('m, RecvError) result"
  | RxTimeout "('m, RecvTimeoutError) result"
  | RxPoll "('m, RecvError) result poll"
  | RxBool bool
  | RxUnit

fun tx_body :: "'m tx_call \<Rightarrow> ('m, 'm tx_ret) prog" where
  "tx_body (CSend m) = map_prog TxSent (sender_send m)"
| "tx_body CTxIsClosed = map_prog TxBool sender_is_closed"
| "tx_body CTxDrop = map_prog (\<lambda>_. TxUnit) sender_drop"
| "tx_body CTxIntoRaw = map_prog (\<lambda>_. TxUnit) sender_into_raw"
| "tx_body CTxFromRaw = map_prog (\<lambda>_. TxUnit) sender_from_raw"
| "tx_body CErrAsInner = map_prog TxInner send_error_as_inner"
| "tx_body CErrIntoInner = map_prog TxInner send_error_into_inner"
| "tx_body CErrDrop = map_prog (\<lambda>_. TxUnit) send_error_drop"

fun rx_body :: "instant \<Rightarrow> rx_call \<Rightarrow> ('m, 'm rx_ret) prog" where
  "rx_body li CTryRecv = map_prog RxTry receiver_try_recv"
| "rx_body li (CRecv t) = map_prog RxRecv (receiver_recv t)"
| "rx_body li (CRecvRef t) = map_prog RxRecv (receiver_recv_ref t)"
| "rx_body li (CRecvTimeout t d) = map_prog RxTimeout (receiver_recv_timeout li t d)"
| "rx_body li (CRecvDeadline t i) = map_prog RxTimeout (receiver_recv_deadline t i)"
| "rx_body li CIsClosed = map_prog RxBool receiver_is_closed"
| "rx_body li CHasMessage = map_prog RxBool receiver_has_message"
| "rx_body li CDrop = map_prog (\<lambda>_. RxUnit) receiver_drop"
| "rx_body li CIntoRaw = map_prog (\<lambda>_. RxUnit) receiver_into_raw"
| "rx_body li CFromRaw = map_prog (\<lambda>_. RxUnit) receiver_from_raw"
| "rx_body li CIntoFuture = map_prog (\<lambda>_. RxUnit) receiver_into_future"
| "rx_body li (CPoll cx) = map_prog RxPoll (async_receiver_poll cx)"
| "rx_body li CAsyncIsClosed = map_prog RxBool async_receiver_is_closed"
| "rx_body li CAsyncHasMessage = map_prog RxBool async_receiver_has_message"
| "rx_body li CAsyncDrop = map_prog (\<lambda>_. RxUnit) async_receiver_drop"

section \<open>Ownership\<close>

text \<open>Which methods the value in hand has, and what is left of it when the method returns.\<close>

fun tx_owns :: "tx_handle \<Rightarrow> 'm tx_call \<Rightarrow> bool" where
  "tx_owns TxSender (CSend m) = True"
| "tx_owns TxSender CTxIsClosed = True"
| "tx_owns TxSender CTxDrop = True"
| "tx_owns TxSender CTxIntoRaw = True"
| "tx_owns TxRaw CTxFromRaw = True"
| "tx_owns TxSendError CErrAsInner = True"
| "tx_owns TxSendError CErrIntoInner = True"
| "tx_owns TxSendError CErrDrop = True"
| "tx_owns _ _ = False"

fun tx_after :: "'m tx_call \<Rightarrow> 'm tx_ret \<Rightarrow> tx_handle" where
  "tx_after (CSend m) r = (case r of TxSent (Ok _) \<Rightarrow> TxGone | _ \<Rightarrow> TxSendError)"
| "tx_after CTxIsClosed r = TxSender"
| "tx_after CTxDrop r = TxGone"
| "tx_after CTxIntoRaw r = TxRaw"
| "tx_after CTxFromRaw r = TxSender"
| "tx_after CErrAsInner r = TxSendError"
| "tx_after CErrIntoInner r = TxGone"
| "tx_after CErrDrop r = TxGone"

fun rx_owns :: "rx_handle \<Rightarrow> rx_call \<Rightarrow> bool" where
  "rx_owns RxReceiver CTryRecv = True"
| "rx_owns RxReceiver (CRecv t) = True"
| "rx_owns RxReceiver (CRecvRef t) = True"
| "rx_owns RxReceiver (CRecvTimeout t d) = True"
| "rx_owns RxReceiver (CRecvDeadline t i) = True"
| "rx_owns RxReceiver CIsClosed = True"
| "rx_owns RxReceiver CHasMessage = True"
| "rx_owns RxReceiver CDrop = True"
| "rx_owns RxReceiver CIntoRaw = True"
| "rx_owns RxRaw CFromRaw = True"
| "rx_owns RxReceiver CIntoFuture = True"
| "rx_owns RxAsync (CPoll cx) = True"
| "rx_owns RxAsync CAsyncIsClosed = True"
| "rx_owns RxAsync CAsyncHasMessage = True"
| "rx_owns RxAsync CAsyncDrop = True"
| "rx_owns _ _ = False"

fun rx_after :: "rx_call \<Rightarrow> rx_handle" where
  "rx_after (CRecv t) = RxGone"
| "rx_after CDrop = RxGone"
| "rx_after CIntoRaw = RxRaw"
| "rx_after CIntoFuture = RxAsync"
| "rx_after (CPoll cx) = RxAsync"
| "rx_after CAsyncIsClosed = RxAsync"
| "rx_after CAsyncHasMessage = RxAsync"
| "rx_after CAsyncDrop = RxGone"
| "rx_after _ = RxReceiver"

section \<open>Steps\<close>

record 'm world =
  mem :: "'m mem"
  tx_handle :: tx_handle
  tx_run :: "('m tx_call \<times> ('m, 'm tx_ret) thread) option"
  tx_log :: "('m tx_call \<times> 'm tx_ret) list"
  rx_handle :: rx_handle
  rx_run :: "(rx_call \<times> ('m, 'm rx_ret) thread) option"
  rx_log :: "(rx_call \<times> 'm rx_ret) list"

text \<open>\<open>channel()\<close>: a fresh allocation with one endpoint on each side.\<close>

definition channel :: "(tid \<Rightarrow> bool) \<Rightarrow> 'm world" where
  "channel parked = \<lparr>mem = channel_new parked,
     tx_handle = TxSender, tx_run = None, tx_log = [],
     rx_handle = RxReceiver, rx_run = None, rx_log = []\<rparr>"

text \<open>\<open>async_channel()\<close>: the same, with the receiver already turned into a future.\<close>

definition async_channel :: "(tid \<Rightarrow> bool) \<Rightarrow> 'm world" where
  "async_channel parked = (channel parked)\<lparr>rx_handle := rx_after CIntoFuture\<rparr>"

datatype 'm label =
  TxCall "'m tx_call" | TxRun choice | TxReturn | RxCall rx_call | RxRun choice | RxReturn

fun tx_invoke :: "'m tx_call \<Rightarrow> 'm world \<Rightarrow> 'm world outcome" where
  "tx_invoke c w =
     (case tx_run w of
        Some _ \<Rightarrow> Disabled
      | None \<Rightarrow> if tx_owns (tx_handle w) c
          then Step (w\<lparr>tx_run := Some (c, start (tx_body c))\<rparr>) else Disabled)"

fun tx_step :: "choice \<Rightarrow> 'm world \<Rightarrow> 'm world outcome" where
  "tx_step ch w =
     (case tx_run w of
        None \<Rightarrow> Disabled
      | Some (c, th) \<Rightarrow>
          (case run_thread Tx ch th (mem w) of
             Disabled \<Rightarrow> Disabled
           | Fault f \<Rightarrow> Fault f
           | Step (th', \<mu>') \<Rightarrow> Step (w\<lparr>tx_run := Some (c, th'), mem := \<mu>'\<rparr>)))"

fun tx_return :: "'m world \<Rightarrow> 'm world outcome" where
  "tx_return w =
     (case tx_run w of
        Some (c, Return r, fr) \<Rightarrow>
          Step (w\<lparr>tx_run := None, tx_handle := tx_after c r, tx_log := tx_log w @ [(c, r)]\<rparr>)
      | _ \<Rightarrow> Disabled)"

fun rx_invoke :: "instant \<Rightarrow> rx_call \<Rightarrow> 'm world \<Rightarrow> 'm world outcome" where
  "rx_invoke li c w =
     (case rx_run w of
        Some _ \<Rightarrow> Disabled
      | None \<Rightarrow> if rx_owns (rx_handle w) c
          then Step (w\<lparr>rx_run := Some (c, start (rx_body li c))\<rparr>) else Disabled)"

fun rx_step :: "choice \<Rightarrow> 'm world \<Rightarrow> 'm world outcome" where
  "rx_step ch w =
     (case rx_run w of
        None \<Rightarrow> Disabled
      | Some (c, th) \<Rightarrow>
          (case run_thread Rx ch th (mem w) of
             Disabled \<Rightarrow> Disabled
           | Fault f \<Rightarrow> Fault f
           | Step (th', \<mu>') \<Rightarrow> Step (w\<lparr>rx_run := Some (c, th'), mem := \<mu>'\<rparr>)))"

fun rx_return :: "'m world \<Rightarrow> 'm world outcome" where
  "rx_return w =
     (case rx_run w of
        Some (c, Return r, fr) \<Rightarrow>
          Step (w\<lparr>rx_run := None, rx_handle := rx_after c, rx_log := rx_log w @ [(c, r)]\<rparr>)
      | _ \<Rightarrow> Disabled)"

fun step :: "instant \<Rightarrow> 'm label \<Rightarrow> 'm world \<Rightarrow> 'm world outcome" where
  "step li (TxCall c) w = tx_invoke c w"
| "step li (TxRun ch) w = tx_step ch w"
| "step li TxReturn w = tx_return w"
| "step li (RxCall c) w = rx_invoke li c w"
| "step li (RxRun ch) w = rx_step ch w"
| "step li RxReturn w = rx_return w"

text \<open>A schedule, run to its end or to the first label that is not a step.\<close>

fun run :: "instant \<Rightarrow> 'm label list \<Rightarrow> 'm world \<Rightarrow> 'm world outcome" where
  "run li [] w = Step w"
| "run li (l # ls) w =
     (case step li l w of Disabled \<Rightarrow> Disabled | Fault f \<Rightarrow> Fault f | Step w' \<Rightarrow> run li ls w')"

lemma run_append:
  "run li (ls @ ls') w = (case run li ls w of Step w' \<Rightarrow> run li ls' w' | x \<Rightarrow> x)"
  by (induction ls arbitrary: w) (auto split: outcome.splits)

section \<open>The two race windows\<close>

text \<open>
  Two actions of the receiver open a window in which the code is not safe (both are exhibited in
  the root theory). The first: \<open>Drop for AsyncReceiver\<close> swaps \<open>DISCONNECTED\<close> over the sender's
  \<open>UNPARKING\<close>. The second: after a timeout that replaced \<open>UNPARKING\<close> by \<open>EMPTY\<close>, the relaxed load
  of \<open>wait_for_unpark\<close> observes \<open>MESSAGE\<close> although \<open>park\<close> returned spuriously, that is, without
  the happens-before edge of the sender's \<open>unpark\<close>. No other method has such a window.
\<close>

definition drop_over_unparking :: "'m action \<Rightarrow> 'm mem \<Rightarrow> bool" where
  "drop_over_unparking \<alpha> \<mu> \<longleftrightarrow>
     (case \<alpha> of ASwap v _ \<Rightarrow> v = DISCONNECTED | _ \<Rightarrow> False) \<and> val (last (hist \<mu>)) = UNPARKING"

definition unsynchronised_wakeup :: "'m action \<Rightarrow> choice \<Rightarrow> 'm mem \<Rightarrow> bool" where
  "unsynchronised_wakeup \<alpha> ch \<mu> \<longleftrightarrow>
     (case \<alpha> of ALoad ord \<Rightarrow> ord = Relaxed | _ \<Rightarrow> False) \<and>
     (case ch of At i \<Rightarrow> val (hist \<mu> ! i) = MESSAGE | _ \<Rightarrow> False) \<and>
     (let j = vt (cur \<mu> Rx) in
        0 < j \<and> val (hist \<mu> ! (j - 1)) = UNPARKING \<and> val (hist \<mu> ! j) = EMPTY)"

fun timed :: "rx_call \<Rightarrow> bool" where
  "timed (CRecvTimeout t d) = True"
| "timed (CRecvDeadline t i) = True"
| "timed _ = False"

definition racy :: "rx_call \<Rightarrow> 'm action \<Rightarrow> choice \<Rightarrow> 'm mem \<Rightarrow> bool" where
  "racy c \<alpha> ch \<mu> \<longleftrightarrow>
     c = CAsyncDrop \<and> drop_over_unparking \<alpha> \<mu> \<or> timed c \<and> unsynchronised_wakeup \<alpha> ch \<mu>"

fun in_race_window :: "'m label \<Rightarrow> 'm world \<Rightarrow> bool" where
  "in_race_window (RxRun ch) w =
     (case rx_run w of Some (c, Do \<alpha> k, fr) \<Rightarrow> racy c \<alpha> ch (mem w) | _ \<Rightarrow> False)"
| "in_race_window _ w = False"

text \<open>The states reached by schedules that stay out of the two windows.\<close>

inductive reachable :: "instant \<Rightarrow> 'm world \<Rightarrow> bool" for li where
  init: "reachable li (channel parked)"
| init_async: "reachable li (async_channel parked)"
| step: "reachable li w \<Longrightarrow> \<not> in_race_window l w \<Longrightarrow> step li l w = Step w' \<Longrightarrow> reachable li w'"

text \<open>The same along a schedule, for evaluation.\<close>

fun clean_run :: "instant \<Rightarrow> 'm label list \<Rightarrow> 'm world \<Rightarrow> 'm world option" where
  "clean_run li [] w = Some w"
| "clean_run li (l # ls) w =
     (if in_race_window l w then None
      else case step li l w of Step w' \<Rightarrow> clean_run li ls w' | _ \<Rightarrow> None)"

lemma clean_run_reachable:
  "reachable li w \<Longrightarrow> clean_run li ls w = Some w' \<Longrightarrow> reachable li w'"
proof (induction ls arbitrary: w)
  case Nil
  then show ?case by simp
next
  case (Cons l ls)
  then obtain v where "\<not> in_race_window l w" "step li l w = Step v" "clean_run li ls v = Some w'"
    by (auto split: if_splits outcome.splits)
  with Cons show ?case
    by (blast intro: reachable.step)
qed

lemma clean_run_the:
  "reachable li w \<Longrightarrow> \<not> Option.is_none (clean_run li ls w) \<Longrightarrow> reachable li (the (clean_run li ls w))"
  using clean_run_reachable by (auto simp: Option.is_none_def)

text \<open>The definitions that execute a schedule whose parameters are not given.\<close>

lemmas exec_defs [mem_simps] =
  channel_def channel_new_def start_def access_def ticked_def msg_access_def wak_access_def
  put_message_def move_message_def borrow_message_def drop_message_in_place_def put_waker_def
  move_waker_def drop_waker_in_place_def free_channel_def rmw_def observe_def emit_def
  with_index_def load_at_def visible_def store_last_def compare_exchange_at_def fence_acquire_def
  park_def unpark_thread_def Let_def

end
