(* ===== verification/Judgement.thy ===== *)
theory Judgement
  imports System
begin

text \<open>
  A program logic for one endpoint. A protocol says, for each local knowledge (a ghost state) of an
  endpoint and each action, whether the action is allowed and which answers it can get, each with
  the knowledge it leads to. A program is \<open>safe\<close> from a ghost state when every action it performs
  is allowed, it never reaches \<open>Unreachable\<close>, and it returns only results that satisfy a
  postcondition. The locale states what makes a protocol sound for the memory model, and the
  lemmas proved in it carry safety from programs to running threads.
\<close>

type_synonym ('m, 'g) protocol = "'g \<Rightarrow> 'm action \<Rightarrow> ('m resp \<times> 'g) set option"

section \<open>Safe programs\<close>

text \<open>
  \<open>L\<close> is the invariant of the innermost loop: the ghost states in which it may go round. A loop goes
  round only while the protocol lets the endpoint wait, that is, spin.
\<close>

definition may_wait :: "('m, 'g) protocol \<Rightarrow> 'g \<Rightarrow> bool" where
  "may_wait T g \<longleftrightarrow> T g ASpinLoop \<noteq> None"

primrec safe ::
  "('m, 'r) prog \<Rightarrow> ('m, 'g) protocol \<Rightarrow> 'g set \<Rightarrow> ('g \<Rightarrow> 'r \<Rightarrow> bool) \<Rightarrow> 'g \<Rightarrow> bool" where
  "safe (Return r) T L Q g = Q g r"
| "safe Unreachable T L Q g = False"
| "safe Continue T L Q g = (g \<in> L)"
| "safe (Loop b) T L Q g = (\<exists>L'. g \<in> L' \<and> (\<forall>g'\<in>L'. may_wait T g' \<and> safe b T L' Q g'))"
| "safe (Do \<alpha> k) T L Q g =
     (case T g \<alpha> of None \<Rightarrow> False | Some S \<Rightarrow> \<forall>(r, g')\<in>S. safe (k r) T L Q g')"

lemma safe_LoopI:
  "g \<in> L' \<Longrightarrow> (\<And>g'. g' \<in> L' \<Longrightarrow> may_wait T g') \<Longrightarrow> (\<And>g'. g' \<in> L' \<Longrightarrow> safe b T L' Q g') \<Longrightarrow>
     safe (Loop b) T L Q g"
  by auto

lemma safe_DoE:
  assumes "safe (Do \<alpha> k) T L Q g"
  obtains S where "T g \<alpha> = Some S" "\<And>r g'. (r, g') \<in> S \<Longrightarrow> safe (k r) T L Q g'"
  using assms by (auto split: option.splits)

lemma safe_map_prog [simp]: "safe (map_prog f p) T L Q g = safe p T L (\<lambda>g r. Q g (f r)) g"
  by (induction p arbitrary: L g) (auto split: option.splits)

lemma safe_mono:
  "safe p T L Q g \<Longrightarrow> (\<And>g r. Q g r \<Longrightarrow> Q' g r) \<Longrightarrow> safe p T L Q' g"
proof (induction p arbitrary: L g)
  case (Loop b)
  then obtain L' where "g \<in> L'" "\<And>g'. g' \<in> L' \<Longrightarrow> may_wait T g' \<and> safe b T L' Q g'"
    by auto
  with Loop show ?case by (intro safe_LoopI [of g L']) auto
next
  case (Do \<alpha> k)
  then show ?case by (fastforce split: option.splits)
qed auto

text \<open>A thread is safe when its rest is, with a loop invariant that the loop it is in preserves.\<close>

definition safe_thread ::
  "('m, 'g) protocol \<Rightarrow> ('g \<Rightarrow> 'r \<Rightarrow> bool) \<Rightarrow> ('m, 'r) thread \<Rightarrow> 'g \<Rightarrow> bool" where
  "safe_thread T Q th g \<longleftrightarrow>
     (\<exists>L. safe (fst th) T L Q g \<and>
       (case snd th of None \<Rightarrow> L = {} | Some b \<Rightarrow> \<forall>g'\<in>L. may_wait T g' \<and> safe b T L Q g'))"

lemma safe_thread_start: "safe p T {} Q g \<Longrightarrow> safe_thread T Q (start p) g"
  by (auto simp: safe_thread_def start_def)

lemma safe_thread_loop:
  "g \<in> L \<Longrightarrow> \<forall>g'\<in>L. may_wait T g' \<and> safe b T L Q g' \<Longrightarrow> safe_thread T Q (b, Some b) g"
  by (auto simp: safe_thread_def)

lemma safe_thread_Return: "safe_thread T Q (Return r, fr) g \<Longrightarrow> Q g r"
  by (auto simp: safe_thread_def)

fun next_action :: "('m, 'r) thread \<Rightarrow> 'm action option" where
  "next_action (Do \<alpha> k, fr) = Some \<alpha>"
| "next_action _ = None"

lemma safe_thread_allowed:
  "safe_thread T Q th g \<Longrightarrow> next_action th = Some \<alpha> \<Longrightarrow> \<exists>S. T g \<alpha> = Some S"
  by (cases th rule: next_action.cases) (auto simp: safe_thread_def split: option.splits)

section \<open>Sound protocols\<close>

text \<open>The moves a protocol allows from one ghost state to another.\<close>

definition moves :: "('m, 'g) protocol \<Rightarrow> ('g \<times> 'g) set" where
  "moves T = {(g, g'). \<exists>\<alpha> S r. T g \<alpha> = Some S \<and> (r, g') \<in> S}"

lemma movesI: "T g \<alpha> = Some S \<Longrightarrow> (r, g') \<in> S \<Longrightarrow> (g, g') \<in> moves T"
  by (auto simp: moves_def)

lemma moves_keep:
  assumes "(g, g') \<in> (moves T)\<^sup>*" "P g" "\<And>g g'. (g, g') \<in> moves T \<Longrightarrow> P g \<Longrightarrow> P g'"
  shows "P g'"
  using assms by (induction rule: rtrancl_induct) auto

locale endpoint =
  fixes me :: agent
    and T :: "('m, 'g) protocol"
    and inv :: "'m mem \<Rightarrow> 'g \<Rightarrow> 'h \<Rightarrow> bool"
    and excluded :: "'m action \<Rightarrow> choice \<Rightarrow> 'm mem \<Rightarrow> bool"
  assumes no_fault:
      "inv \<mu> g h \<Longrightarrow> T g \<alpha> = Some S \<Longrightarrow> \<not> excluded \<alpha> ch \<mu> \<Longrightarrow> act me ch \<alpha> \<mu> \<noteq> Fault f"
    and preserves:
      "inv \<mu> g h \<Longrightarrow> T g \<alpha> = Some S \<Longrightarrow> \<not> excluded \<alpha> ch \<mu> \<Longrightarrow> act me ch \<alpha> \<mu> = Step (r, \<mu>') \<Longrightarrow>
       \<exists>g'. (r, g') \<in> S \<and> inv \<mu>' g' h"
begin

lemma thread_no_fault:
  assumes "inv \<mu> g h" "safe_thread T Q th g"
    and "\<And>\<alpha>. next_action th = Some \<alpha> \<Longrightarrow> \<not> excluded \<alpha> ch \<mu>"
  shows "run_thread me ch th \<mu> \<noteq> Fault f"
proof (cases "(me, ch, th, \<mu>)" rule: run_thread.cases)
  case (5 a c \<alpha> k fr \<mu>')
  with assms obtain S where "T g \<alpha> = Some S"
    using safe_thread_allowed by fastforce
  with assms 5 have "act me ch \<alpha> \<mu> \<noteq> Fault f'" for f'
    using no_fault by simp
  with 5 show ?thesis
    by (auto split: outcome.splits)
qed (use assms in \<open>auto simp: safe_thread_def split: option.splits\<close>)

lemma thread_preserves:
  assumes "inv \<mu> g h" "safe_thread T Q th g"
    and "\<And>\<alpha>. next_action th = Some \<alpha> \<Longrightarrow> \<not> excluded \<alpha> ch \<mu>"
    and "run_thread me ch th \<mu> = Step (th', \<mu>')"
  shows "\<exists>g'. inv \<mu>' g' h \<and> safe_thread T Q th' g' \<and> (g, g') \<in> (moves T)\<^sup>*"
proof (cases "(me, ch, th, \<mu>)" rule: run_thread.cases)
  case (3 a c fr \<mu>'')
  with assms obtain b L where "fr = Some b" "th' = (b, Some b)" "\<mu>' = \<mu>"
    and "g \<in> L" "\<forall>g'\<in>L. may_wait T g' \<and> safe b T L Q g'"
    by (auto simp: safe_thread_def split: option.splits)
  then have "safe_thread T Q th' g"
    by (simp add: safe_thread_loop)
  with assms(1) \<open>\<mu>' = \<mu>\<close> show ?thesis
    by blast
next
  case (4 a c b fr \<mu>'')
  with assms obtain L' where "g \<in> L'" "\<forall>g'\<in>L'. may_wait T g' \<and> safe b T L' Q g'"
    by (auto simp: safe_thread_def)
  then have "safe_thread T Q (b, Some b) g"
    by (rule safe_thread_loop)
  with 4 assms show ?thesis
    by auto
next
  case (5 a c \<alpha> k fr \<mu>'')
  with assms obtain S L where S: "T g \<alpha> = Some S" and L: "\<forall>(r, g')\<in>S. safe (k r) T L Q g'"
    and fr: "case fr of None \<Rightarrow> L = {} | Some b \<Rightarrow> \<forall>g'\<in>L. may_wait T g' \<and> safe b T L Q g'"
    by (auto simp: safe_thread_def split: option.splits)
  from 5 assms(4) obtain r where r: "act me ch \<alpha> \<mu> = Step (r, \<mu>')" and th': "th' = (k r, fr)"
    by (auto split: outcome.splits)
  have "\<not> excluded \<alpha> ch \<mu>"
    using 5 assms(3) by simp
  then obtain g' where "(r, g') \<in> S" "inv \<mu>' g' h"
    using preserves [OF assms(1) S _ r] by blast
  moreover from L \<open>(r, g') \<in> S\<close> have "safe (k r) T L Q g'"
    by auto
  then have "safe_thread T Q th' g'"
    using fr th' unfolding safe_thread_def by (intro exI [of _ L]) simp
  moreover have "(g, g') \<in> (moves T)\<^sup>*"
    using movesI [of T g \<alpha> S r g'] S \<open>(r, g') \<in> S\<close> by blast
  ultimately show ?thesis
    by blast
qed (use assms in auto)

end

text \<open>Progress: what may block an endpoint is \<open>park\<close> only.\<close>

fun blocking :: "'m action \<Rightarrow> bool" where
  "blocking (APark t) = True"
| "blocking _ = False"

locale live_endpoint = endpoint +
  assumes progress: "inv \<mu> g h \<Longrightarrow> T g \<alpha> = Some S \<Longrightarrow> \<not> blocking \<alpha> \<Longrightarrow> \<exists>ch. act me ch \<alpha> \<mu> \<noteq> Disabled"
begin

lemma thread_progress:
  assumes "inv \<mu> g h" "safe_thread T Q th g"
    and "\<And>\<alpha>. next_action th = Some \<alpha> \<Longrightarrow> \<not> blocking \<alpha>"
  shows "(\<exists>r fr. th = (Return r, fr)) \<or> (\<exists>ch. run_thread me ch th \<mu> \<noteq> Disabled)"
proof (cases "(me, Go, th, \<mu>)" rule: run_thread.cases)
  case (5 a c \<alpha> k fr \<mu>')
  with assms obtain S where "T g \<alpha> = Some S"
    using safe_thread_allowed by fastforce
  with assms 5 obtain ch where "act me ch \<alpha> \<mu> \<noteq> Disabled"
    using progress by fastforce
  with 5 show ?thesis
    by (auto intro!: exI [of _ ch] split: outcome.splits)
qed (use assms in \<open>auto split: option.splits\<close>)

end

end
