(* ===== verification/Protocol.thy ===== *)
theory Protocol
  imports Judgement
begin

text \<open>
  The protocol the two endpoints follow: what each of them knows at every moment (its ghost state),
  which actions that knowledge permits and what they can teach it. Neither ghost state is affected
  by what the other endpoint does.
\<close>

section \<open>The sender's side\<close>

text \<open>How the sending side ended: with a message or without one.\<close>

datatype 'm fin = Sent 'm | Dropped

fun fin_val :: "'m fin \<Rightarrow> u8" where
  "fin_val (Sent m) = MESSAGE"
| "fin_val Dropped = DISCONNECTED"

fun fin_msg :: "'m fin \<Rightarrow> 'm option" where
  "fin_msg (Sent m) = Some m"
| "fin_msg Dropped = None"

text \<open>Where the message of a side that has ended is: in the channel, nowhere, moved out or dropped.\<close>

datatype 'm msg_state = Present | NoMsg | Taken 'm | Discarded

text \<open>
  \<open>TIdle k\<close>: nothing done yet, and the receiver is known to be gone if \<open>k\<close>; \<open>TWrote\<close>: the message
  is written; \<open>TUnp\<close>: the state is \<open>UNPARKING\<close> and the waker is ours; \<open>TTook\<close>: the waker is taken;
  \<open>TPost\<close>: the final state is set and the waker still has to be woken; \<open>TDone\<close>: the channel is left
  to the receiver; \<open>TOwn\<close>: the receiver is gone and the channel is ours; \<open>TFreed\<close>: freed.
\<close>

datatype 'm tx_ghost =
    TIdle bool
  | TWrote 'm bool
  | TUnp "'m fin"
  | TTook "'m fin" waker
  | TPost "'m fin" waker
  | TDone "'m fin"
  | TOwn "'m fin" "'m msg_state"
  | TFreed "'m fin" "'m msg_state"

fun tx_load :: "'m tx_ghost \<Rightarrow> ('m resp \<times> 'm tx_ghost) set option" where
  "tx_load (TIdle k) = Some {(RU8 v, TIdle (v = DISCONNECTED)) |v. k \<longrightarrow> v = DISCONNECTED}"
| "tx_load _ = None"

definition tx_end :: "bool \<Rightarrow> 'm fin \<Rightarrow> 'm msg_state \<Rightarrow> ('m resp \<times> 'm tx_ghost) set" where
  "tx_end k f s =
     {(RU8 DISCONNECTED, TOwn f s)} \<union>
     (if k then {} else {(RU8 EMPTY, TDone f), (RU8 RECEIVING, TUnp f)})"

fun tx_fetch_add :: "u8 \<Rightarrow> ordering \<Rightarrow> 'm tx_ghost \<Rightarrow> ('m resp \<times> 'm tx_ghost) set option" where
  "tx_fetch_add v ord (TWrote m k) =
     (if v = 1 \<and> ord = AcqRel then Some (tx_end k (Sent m) Present) else None)"
| "tx_fetch_add v ord _ = None"

fun tx_fetch_xor :: "u8 \<Rightarrow> ordering \<Rightarrow> 'm tx_ghost \<Rightarrow> ('m resp \<times> 'm tx_ghost) set option" where
  "tx_fetch_xor v ord (TIdle k) =
     (if v = 1 \<and> ord = AcqRel then Some (tx_end k Dropped NoMsg) else None)"
| "tx_fetch_xor v ord _ = None"

fun tx_swap :: "u8 \<Rightarrow> ordering \<Rightarrow> 'm tx_ghost \<Rightarrow> ('m resp \<times> 'm tx_ghost) set option" where
  "tx_swap v ord (TTook f w) =
     (if v = fin_val f \<and> releasing ord then Some {(RU8 u, TPost f w) |u. True} else None)"
| "tx_swap v ord _ = None"

fun tx_write_message :: "'m \<Rightarrow> 'm tx_ghost \<Rightarrow> ('m resp \<times> 'm tx_ghost) set option" where
  "tx_write_message m (TIdle k) = Some {(RUnit, TWrote m k)}"
| "tx_write_message m _ = None"

fun tx_message :: "('m \<Rightarrow> 'm resp \<times> 'm msg_state) \<Rightarrow> 'm tx_ghost \<Rightarrow> ('m resp \<times> 'm tx_ghost) set option"
where
  "tx_message eff (TOwn (Sent m) Present) = Some {(fst (eff m), TOwn (Sent m) (snd (eff m)))}"
| "tx_message eff _ = None"

fun tx_read_waker :: "'m tx_ghost \<Rightarrow> ('m resp \<times> 'm tx_ghost) set option" where
  "tx_read_waker (TUnp f) = Some {(RWaker w, TTook f w) |w. True}"
| "tx_read_waker _ = None"

fun tx_wake :: "waker \<Rightarrow> 'm tx_ghost \<Rightarrow> ('m resp \<times> 'm tx_ghost) set option" where
  "tx_wake w (TPost f w') = (if w = w' then Some {(RUnit, TDone f)} else None)"
| "tx_wake w _ = None"

fun tx_dealloc :: "'m tx_ghost \<Rightarrow> ('m resp \<times> 'm tx_ghost) set option" where
  "tx_dealloc (TOwn f s) = (if s = Present then None else Some {(RUnit, TFreed f s)})"
| "tx_dealloc _ = None"

fun tx_proto :: "('m, 'm tx_ghost) protocol" where
  "tx_proto g (ALoad ord) = tx_load g"
| "tx_proto g (AFetchAdd v ord) = tx_fetch_add v ord g"
| "tx_proto g (AFetchXor v ord) = tx_fetch_xor v ord g"
| "tx_proto g (ASwap v ord) = tx_swap v ord g"
| "tx_proto g (AWriteMessage m) = tx_write_message m g"
| "tx_proto g AReadMessage = tx_message (\<lambda>m. (RMsg m, Taken m)) g"
| "tx_proto g ARefMessage = tx_message (\<lambda>m. (RMsg m, Present)) g"
| "tx_proto g ADropMessage = tx_message (\<lambda>m. (RUnit, Discarded)) g"
| "tx_proto g AReadWaker = tx_read_waker g"
| "tx_proto g (AUnpark t) = tx_wake (Thread t) g"
| "tx_proto g (AWake i) = tx_wake (Task i) g"
| "tx_proto g ADealloc = tx_dealloc g"
| "tx_proto g _ = None"

section \<open>The receiver's side\<close>

text \<open>
  What the receiver owns once it has observed the sender's final state: the value the state now
  has, the waker still in the slot, the message, and how far it is synchronised with the sender:
  \<open>cm\<close> with its accesses to the message, \<open>ca\<close> with all its accesses; \<open>pe\<close> tells that an acquire
  fence would synchronise it with all of them, and \<open>lc\<close> that acquiring the state would.
\<close>

record 'm owned =
  o_val :: u8
  o_wk :: "waker option"
  o_msg :: "'m msg_state"
  cm :: bool
  ca :: bool
  pe :: bool
  lc :: bool

text \<open>
  \<open>RQuiet wk\<close>: the last state seen is \<open>EMPTY\<close>, and \<open>wk\<close> is in the waker slot, not announced;
  \<open>RRecv w\<close>: \<open>w\<close> is announced by the state \<open>RECEIVING\<close>; \<open>RUnpk w\<close>: the sender has been seen
  \<open>UNPARKING\<close>; \<open>RWait w\<close>: \<open>UNPARKING\<close> was replaced by \<open>EMPTY\<close> after a timeout; \<open>ROwn\<close>: the sender
  is done and the channel is ours; \<open>RLeft\<close>: the channel is left to the sender; \<open>RFreed\<close>: freed.
\<close>

datatype 'm rx_ghost =
    RQuiet "waker option"
  | RRecv waker
  | RUnpk waker
  | RWait waker
  | ROwn "'m owned"
  | RLeft
  | RFreed "'m msg_state"

definition final_msg :: "u8 \<Rightarrow> 'm msg_state" where
  "final_msg v = (if v = MESSAGE then Present else NoMsg)"

text \<open>The knowledge gained by reading the final state \<open>v\<close> with the ordering \<open>ord\<close>.\<close>

definition seen :: "waker option \<Rightarrow> u8 \<Rightarrow> ordering \<Rightarrow> 'm owned" where
  "seen wk v ord = \<lparr>o_val = v, o_wk = wk, o_msg = final_msg v, cm = acquiring ord,
     ca = acquiring ord, pe = True, lc = True\<rparr>"

definition finals :: "(u8 \<Rightarrow> 'm owned) \<Rightarrow> ('m resp \<times> 'm rx_ghost) set" where
  "finals own = {(RU8 MESSAGE, ROwn (own MESSAGE)), (RU8 DISCONNECTED, ROwn (own DISCONNECTED))}"

text \<open>Reading the state again when the channel is ours.\<close>

definition reread :: "ordering \<Rightarrow> 'm owned \<Rightarrow> 'm owned" where
  "reread ord x = x\<lparr>cm := cm x \<or> acquiring ord \<and> lc x, ca := ca x \<or> acquiring ord \<and> lc x,
     pe := pe x \<or> lc x\<rparr>"

fun rx_load :: "ordering \<Rightarrow> 'm rx_ghost \<Rightarrow> ('m resp \<times> 'm rx_ghost) set option" where
  "rx_load ord (RQuiet wk) =
     Some (insert (RU8 EMPTY, RQuiet wk) (finals (\<lambda>v. seen wk v ord)))"
| "rx_load ord (RRecv w) =
     Some ({(RU8 RECEIVING, RRecv w), (RU8 UNPARKING, RUnpk w)} \<union> finals (\<lambda>v. seen None v ord))"
| "rx_load ord (RUnpk w) =
     Some (insert (RU8 UNPARKING, RUnpk w) (finals (\<lambda>v. seen None v ord)))"
| "rx_load ord (RWait w) =
     Some (if ord = Relaxed
       then {(RU8 EMPTY, RWait w), (RU8 DISCONNECTED, ROwn (seen None DISCONNECTED ord))}
       else insert (RU8 EMPTY, RWait w) (finals (\<lambda>v. seen None v ord)))"
| "rx_load ord (ROwn x) = Some {(RU8 (o_val x), ROwn (reread ord x))}"
| "rx_load ord _ = None"

fun rx_store :: "u8 \<Rightarrow> ordering \<Rightarrow> 'm rx_ghost \<Rightarrow> ('m resp \<times> 'm rx_ghost) set option" where
  "rx_store v ord (ROwn x) =
     (if v = DISCONNECTED then Some {(RUnit, ROwn (x\<lparr>o_val := v, lc := False\<rparr>))} else None)"
| "rx_store v ord _ = None"

fun rx_swap :: "u8 \<Rightarrow> ordering \<Rightarrow> 'm rx_ghost \<Rightarrow> ('m resp \<times> 'm rx_ghost) set option" where
  "rx_swap v ord (RQuiet wk) =
     (case wk of
        Some w \<Rightarrow> if v = RECEIVING \<and> releasing ord
          then Some (insert (RU8 EMPTY, RRecv w) (finals (\<lambda>u. (seen wk u ord)\<lparr>o_val := v\<rparr>)))
          else None
      | None \<Rightarrow> if v = DISCONNECTED \<and> releasing ord
          then Some (insert (RU8 EMPTY, RLeft) (finals (\<lambda>u. (seen wk u ord)\<lparr>o_val := v\<rparr>)))
          else None)"
| "rx_swap v ord (RRecv w) =
     (if v = EMPTY \<and> acquiring ord
      then Some ({(RU8 RECEIVING, RQuiet (Some w)), (RU8 UNPARKING, RWait w)} \<union>
             finals (\<lambda>u. (seen None u ord)\<lparr>o_val := v\<rparr>))
      else None)"
| "rx_swap v ord (RUnpk w) =
     (if v = EMPTY \<and> acquiring ord
      then Some (insert (RU8 UNPARKING, RWait w) (finals (\<lambda>u. (seen None u ord)\<lparr>o_val := v\<rparr>)))
      else if v = DISCONNECTED
      then Some (finals (\<lambda>u. (seen None u ord)\<lparr>o_val := v\<rparr>))
      else None)"
| "rx_swap v ord (ROwn x) =
     (if v \<in> {EMPTY, RECEIVING, DISCONNECTED}
      then Some {(RU8 (o_val x), ROwn ((reread ord x)\<lparr>o_val := v\<rparr>))} else None)"
| "rx_swap v ord _ = None"

definition cas_finals :: "(u8 \<Rightarrow> 'm owned) \<Rightarrow> ('m resp \<times> 'm rx_ghost) set" where
  "cas_finals own =
     {(RCas (Err MESSAGE), ROwn (own MESSAGE)), (RCas (Err DISCONNECTED), ROwn (own DISCONNECTED))}"

fun rx_cas ::
  "u8 \<Rightarrow> u8 \<Rightarrow> ordering \<Rightarrow> ordering \<Rightarrow> 'm rx_ghost \<Rightarrow> ('m resp \<times> 'm rx_ghost) set option" where
  "rx_cas x n ok_ord err_ord (RQuiet wk) =
     (case wk of
        Some w \<Rightarrow> if x = EMPTY \<and> n = RECEIVING \<and> releasing ok_ord
          then Some (insert (RCas (Ok EMPTY), RRecv w) (cas_finals (\<lambda>v. seen wk v err_ord)))
          else None
      | None \<Rightarrow> None)"
| "rx_cas x n ok_ord err_ord (RRecv w) =
     (if x = RECEIVING \<and> n = EMPTY
      then Some ({(RCas (Ok RECEIVING), RQuiet (Some w)), (RCas (Err UNPARKING), RUnpk w)} \<union>
             cas_finals (\<lambda>v. seen None v err_ord))
      else None)"
| "rx_cas x n ok_ord err_ord _ = None"

fun rx_fence :: "'m rx_ghost \<Rightarrow> ('m resp \<times> 'm rx_ghost) set option" where
  "rx_fence (ROwn x) = Some {(RUnit, ROwn (x\<lparr>cm := cm x \<or> pe x, ca := ca x \<or> pe x\<rparr>))}"
| "rx_fence _ = None"

fun rx_write_waker :: "waker \<Rightarrow> 'm rx_ghost \<Rightarrow> ('m resp \<times> 'm rx_ghost) set option" where
  "rx_write_waker w (RQuiet wk) = (if wk = None then Some {(RUnit, RQuiet (Some w))} else None)"
| "rx_write_waker w _ = None"

fun rx_drop_waker :: "'m rx_ghost \<Rightarrow> ('m resp \<times> 'm rx_ghost) set option" where
  "rx_drop_waker (RQuiet wk) = (if wk = None then None else Some {(RUnit, RQuiet None)})"
| "rx_drop_waker (ROwn x) =
     (if o_wk x = None then None else Some {(RUnit, ROwn (x\<lparr>o_wk := None\<rparr>))})"
| "rx_drop_waker _ = None"

fun rx_read_message :: "'m rx_ghost \<Rightarrow> ('m resp \<times> 'm rx_ghost) set option" where
  "rx_read_message (ROwn x) =
     (if o_msg x = Present \<and> cm x then Some {(RMsg m, ROwn (x\<lparr>o_msg := Taken m\<rparr>)) |m. True}
      else None)"
| "rx_read_message _ = None"

fun rx_drop_message :: "'m rx_ghost \<Rightarrow> ('m resp \<times> 'm rx_ghost) set option" where
  "rx_drop_message (ROwn x) =
     (if o_msg x = Present \<and> cm x then Some {(RUnit, ROwn (x\<lparr>o_msg := Discarded\<rparr>))} else None)"
| "rx_drop_message _ = None"

fun rx_dealloc :: "'m rx_ghost \<Rightarrow> ('m resp \<times> 'm rx_ghost) set option" where
  "rx_dealloc (ROwn x) =
     (if ca x \<and> o_msg x \<noteq> Present \<and> o_wk x = None then Some {(RUnit, RFreed (o_msg x))} else None)"
| "rx_dealloc _ = None"

text \<open>
  Parking while the thread's own waker is announced. When the sender's token ends it, the receiver
  is synchronised with everything the sender did, and can only observe its final state.
\<close>

definition unparked :: "u8 \<Rightarrow> 'm owned" where
  "unparked v = (seen None v Acquire)\<lparr>pe := False\<rparr>"

definition rx_woken :: "'m rx_ghost \<Rightarrow> ('m resp \<times> 'm rx_ghost) set" where
  "rx_woken g = {(RUnit, g), (RUnit, ROwn (unparked MESSAGE)), (RUnit, ROwn (unparked DISCONNECTED))}"

fun rx_park :: "tid \<Rightarrow> 'm rx_ghost \<Rightarrow> ('m resp \<times> 'm rx_ghost) set option" where
  "rx_park t (RRecv w) = (if w = Thread t then Some (rx_woken (RRecv w)) else None)"
| "rx_park t (RUnpk w) = (if w = Thread t then Some (rx_woken (RUnpk w)) else None)"
| "rx_park t (RWait w) = (if w = Thread t then Some (rx_woken (RWait w)) else None)"
| "rx_park t _ = None"

text \<open>The receiver has something to wait for until it knows how the sender ended, or has left.\<close>

fun aware :: "'m rx_ghost \<Rightarrow> bool" where
  "aware (ROwn x) = True"
| "aware RLeft = True"
| "aware (RFreed s) = True"
| "aware _ = False"

fun rx_proto :: "('m, 'm rx_ghost) protocol" where
  "rx_proto g (ALoad ord) = rx_load ord g"
| "rx_proto g (AStore v ord) = rx_store v ord g"
| "rx_proto g (ASwap v ord) = rx_swap v ord g"
| "rx_proto g (ACompareExchange x n ok_ord err_ord) = rx_cas x n ok_ord err_ord g"
| "rx_proto g AFenceAcquire = rx_fence g"
| "rx_proto g (AWriteWaker w) = rx_write_waker w g"
| "rx_proto g ADropWaker = rx_drop_waker g"
| "rx_proto g AReadMessage = rx_read_message g"
| "rx_proto g ADropMessage = rx_drop_message g"
| "rx_proto g ADealloc = rx_dealloc g"
| "rx_proto g (APark t) = rx_park t g"
| "rx_proto g (AParkTimeout t d) = rx_park t g"
| "rx_proto g (AWakeByRef i) = Some {(RUnit, g)}"
| "rx_proto g AInstantNow = Some {(RInstant i, g) |i. True}"
| "rx_proto g ASpinLoop = (if aware g then None else Some {(RUnit, g)})"
| "rx_proto g _ = None"

text \<open>
  Transitions that belong to some of the calls only. Two lead to the race windows: swapping
  \<open>DISCONNECTED\<close> over \<open>UNPARKING\<close>, which only the drop of an asynchronous receiver may do, and the
  loads in \<open>RWait\<close>, which only the receive operations with a timeout perform. The third leaves the
  channel to the sender, which only the two drops do.
\<close>

fun leaving :: "rx_call \<Rightarrow> bool" where
  "leaving CDrop = True"
| "leaving CAsyncDrop = True"
| "leaving _ = False"

fun hazard :: "rx_call \<Rightarrow> 'm rx_ghost \<Rightarrow> 'm action \<Rightarrow> bool" where
  "hazard c (RQuiet wk) (ASwap v ord) = (v = DISCONNECTED \<and> \<not> leaving c)"
| "hazard c (RUnpk w) (ASwap v ord) = (v = DISCONNECTED \<and> c \<noteq> CAsyncDrop)"
| "hazard c (RWait w) (ALoad ord) = (\<not> timed c)"
| "hazard c h \<alpha> = False"

definition rx_proto_for :: "rx_call \<Rightarrow> ('m, 'm rx_ghost) protocol" where
  "rx_proto_for c h \<alpha> = (if hazard c h \<alpha> then None else rx_proto h \<alpha>)"

text \<open>
  The sender's protocol under the calls \<open>C\<close> its client has made: a message is written on behalf of
  a call of \<open>send\<close> with that message, and the side is closed on behalf of a drop.
\<close>

fun by_call :: "'m fin \<Rightarrow> 'm tx_call" where
  "by_call (Sent m) = CSend m"
| "by_call Dropped = CTxDrop"

fun tx_fin :: "'m tx_ghost \<Rightarrow> 'm fin option" where
  "tx_fin (TIdle k) = None"
| "tx_fin (TWrote m k) = Some (Sent m)"
| "tx_fin (TUnp f) = Some f"
| "tx_fin (TTook f w) = Some f"
| "tx_fin (TPost f w) = Some f"
| "tx_fin (TDone f) = Some f"
| "tx_fin (TOwn f s) = Some f"
| "tx_fin (TFreed f s) = Some f"

definition vouched :: "'m tx_call set \<Rightarrow> 'm tx_ghost \<Rightarrow> bool" where
  "vouched C g \<longleftrightarrow> (\<forall>f. tx_fin g = Some f \<longrightarrow> by_call f \<in> C)"

fun uncalled :: "'m tx_call set \<Rightarrow> 'm action \<Rightarrow> bool" where
  "uncalled C (AWriteMessage m) = (CSend m \<notin> C)"
| "uncalled C (AFetchXor v ord) = (CTxDrop \<notin> C)"
| "uncalled C \<alpha> = False"

definition tx_proto_for :: "'m tx_call set \<Rightarrow> ('m, 'm tx_ghost) protocol" where
  "tx_proto_for C g \<alpha> = (if uncalled C \<alpha> then None else tx_proto g \<alpha>)"

end
