(* ===== verification/Contracts.thy ===== *)
theory Contracts
  imports Protocol
begin

text \<open>
  The contracts of the public methods: from what an endpoint knows when a method is called to what
  it knows when the method returns, for every result. Each body is verified against the protocol
  with an invariant for each of its loops.
\<close>

section \<open>What is known between two calls\<close>

fun tx_idle :: "tx_handle \<Rightarrow> 'm tx_ghost \<Rightarrow> bool" where
  "tx_idle TxSender g = (\<exists>k. g = TIdle k)"
| "tx_idle TxRaw g = (\<exists>k. g = TIdle k)"
| "tx_idle TxSendError g = (\<exists>m. g = TOwn (Sent m) Present)"
| "tx_idle TxGone g = ((\<exists>f. g = TDone f) \<or> (\<exists>f s. g = TFreed f s \<and> s \<noteq> Present))"

definition settled :: "'m owned \<Rightarrow> bool" where
  "settled x \<longleftrightarrow> o_wk x = None \<and>
     (o_msg x = Present \<and> o_val x = MESSAGE \<and> lc x \<or>
      o_msg x \<noteq> Present \<and> o_val x = DISCONNECTED \<and> (ca x \<or> lc x))"

fun rx_idle :: "rx_handle \<Rightarrow> 'm rx_ghost \<Rightarrow> bool" where
  "rx_idle RxReceiver g = (g = RQuiet None \<or> (\<exists>x. g = ROwn x \<and> settled x))"
| "rx_idle RxRaw g = (g = RQuiet None \<or> (\<exists>x. g = ROwn x \<and> settled x))"
| "rx_idle RxAsync g =
     (g = RQuiet None \<or> (\<exists>x. g = ROwn x \<and> settled x) \<or> (\<exists>i. g = RRecv (Task i) \<or> g = RUnpk (Task i)))"
| "rx_idle RxGone g = (g = RLeft \<or> (\<exists>s. g = RFreed s \<and> s \<noteq> Present))"

text \<open>What a receiver knows of the message; nothing while the sender has not been seen to end.\<close>

fun rx_msg :: "'m rx_ghost \<Rightarrow> 'm msg_state option" where
  "rx_msg (ROwn x) = Some (o_msg x)"
| "rx_msg (RFreed s) = Some s"
| "rx_msg _ = None"

section \<open>Contracts of the sender\<close>

fun tx_contract :: "'m tx_call \<Rightarrow> 'm tx_ghost \<Rightarrow> 'm tx_ghost \<Rightarrow> 'm tx_ret \<Rightarrow> bool" where
  "tx_contract (CSend m) g g' r =
     (r = TxSent (Ok ()) \<and> g' = TDone (Sent m) \<and> g \<noteq> TIdle True \<or>
      r = TxSent (Err SendError) \<and> g' = TOwn (Sent m) Present)"
| "tx_contract CTxIsClosed g g' r =
     (\<exists>b. r = TxBool b \<and> g' = TIdle b \<and> (g = TIdle True \<longrightarrow> b))"
| "tx_contract CTxDrop g g' r =
     (r = TxUnit \<and> (g' = TDone Dropped \<and> g \<noteq> TIdle True \<or> g' = TFreed Dropped NoMsg))"
| "tx_contract CTxIntoRaw g g' r = (r = TxUnit \<and> g' = g)"
| "tx_contract CTxFromRaw g g' r = (r = TxUnit \<and> g' = g)"
| "tx_contract CErrAsInner g g' r = (g' = g \<and> (\<forall>m s. g = TOwn (Sent m) s \<longrightarrow> r = TxInner m))"
| "tx_contract CErrIntoInner g g' r =
     (\<forall>m s. g = TOwn (Sent m) s \<longrightarrow> r = TxInner m \<and> g' = TFreed (Sent m) (Taken m))"
| "tx_contract CErrDrop g g' r =
     (r = TxUnit \<and> (\<forall>m s. g = TOwn (Sent m) s \<longrightarrow> g' = TFreed (Sent m) Discarded))"

lemma safe_unpark:
  "safe (unpark w k) (tx_proto_for C) L Q g \<longleftrightarrow>
     (case tx_wake w g of None \<Rightarrow> False | Some S \<Rightarrow> \<forall>(r, g')\<in>S. safe k (tx_proto_for C) L Q g')"
  by (cases w) (simp_all add: code_unfold tx_proto_for_def)

lemma tx_contract_holds:
  assumes "tx_idle h g" "tx_owns h c" "c \<in> C"
  shows "safe (tx_body c) (tx_proto_for C) {} (tx_contract c g) g"
  using assms
  by (cases c; cases h) (auto simp: code_unfold safe_unpark tx_end_def tx_proto_for_def)

lemma tx_contract_idle:
  assumes "tx_idle h g" "tx_owns h c" "tx_contract c g g' r"
  shows "tx_idle (tx_after c r) g'"
  using assms by (cases c; cases h) auto

section \<open>Contracts of the receiver\<close>

text \<open>The three kinds of results of a receive operation.\<close>

datatype 'm receipt = Got 'm | Closed | Not_Yet | Info

fun receipt_of :: "'m rx_ret \<Rightarrow> 'm receipt" where
  "receipt_of (RxTry (Ok m)) = Got m"
| "receipt_of (RxTry (Err TryRecvError_Empty)) = Not_Yet"
| "receipt_of (RxTry (Err TryRecvError_Disconnected)) = Closed"
| "receipt_of (RxRecv (Ok m)) = Got m"
| "receipt_of (RxRecv (Err e)) = Closed"
| "receipt_of (RxTimeout (Ok m)) = Got m"
| "receipt_of (RxTimeout (Err RecvTimeoutError_Timeout)) = Not_Yet"
| "receipt_of (RxTimeout (Err RecvTimeoutError_Disconnected)) = Closed"
| "receipt_of (RxPoll (Ready (Ok m))) = Got m"
| "receipt_of (RxPoll (Ready (Err e))) = Closed"
| "receipt_of (RxPoll Pending) = Not_Yet"
| "receipt_of (RxBool b) = Info"
| "receipt_of RxUnit = Info"

text \<open>
  A message is returned only if none was returned before, and always if one is known to be there;
  an error means that the sender ended without a message or the message was received before; and
  \<open>Empty\<close>, \<open>Timeout\<close> and \<open>Pending\<close> teach nothing.
\<close>

fun received_as :: "'m receipt \<Rightarrow> 'm msg_state option \<Rightarrow> 'm msg_state option \<Rightarrow> bool" where
  "received_as (Got m) s s' = (s \<in> {None, Some Present} \<and> s' = Some (Taken m))"
| "received_as Closed s s' =
     (if s = None then s' = Some NoMsg else s \<noteq> Some Present \<and> s' = s)"
| "received_as Not_Yet s s' = (s = None \<and> s' = None)"
| "received_as Info s s' = False"

definition receives :: "'m rx_ghost \<Rightarrow> 'm rx_ghost \<Rightarrow> 'm rx_ret \<Rightarrow> bool" where
  "receives g g' r \<longleftrightarrow> received_as (receipt_of r) (rx_msg g) (rx_msg g')"

text \<open>A query may discover that the sender has ended, and reports what it discovered.\<close>

definition reports ::
  "('m msg_state option \<Rightarrow> bool) \<Rightarrow> 'm rx_ghost \<Rightarrow> 'm rx_ghost \<Rightarrow> 'm rx_ret \<Rightarrow> bool" where
  "reports P g g' r \<longleftrightarrow> r = RxBool (P (rx_msg g')) \<and>
     (rx_msg g = None \<longrightarrow> rx_msg g' \<in> {None, Some NoMsg, Some Present}) \<and>
     (rx_msg g \<noteq> None \<longrightarrow> rx_msg g' = rx_msg g)"

definition closed_now :: "'m msg_state option \<Rightarrow> bool" where
  "closed_now s \<longleftrightarrow> s \<noteq> None \<and> s \<noteq> Some Present"

definition message_now :: "'m msg_state option \<Rightarrow> bool" where
  "message_now s \<longleftrightarrow> s = Some Present"

text \<open>Dropping the receiver drops a message that was sent and not received.\<close>

definition disposes :: "'m rx_ghost \<Rightarrow> 'm rx_ghost \<Rightarrow> 'm rx_ret \<Rightarrow> bool" where
  "disposes g g' r \<longleftrightarrow> r = RxUnit \<and>
     (case rx_msg g of
        None \<Rightarrow> rx_msg g' \<in> {None, Some NoMsg, Some Discarded}
      | Some s \<Rightarrow> rx_msg g' = Some (if s = Present then Discarded else s))"

datatype rx_kind = Receiving | Asking_Closed | Asking_Message | Disposing | Converting

fun kind_of :: "rx_call \<Rightarrow> rx_kind" where
  "kind_of CIsClosed = Asking_Closed"
| "kind_of CAsyncIsClosed = Asking_Closed"
| "kind_of CHasMessage = Asking_Message"
| "kind_of CAsyncHasMessage = Asking_Message"
| "kind_of CDrop = Disposing"
| "kind_of CAsyncDrop = Disposing"
| "kind_of CIntoRaw = Converting"
| "kind_of CFromRaw = Converting"
| "kind_of CIntoFuture = Converting"
| "kind_of c = Receiving"

definition rx_contract :: "rx_call \<Rightarrow> 'm rx_ghost \<Rightarrow> 'm rx_ghost \<Rightarrow> 'm rx_ret \<Rightarrow> bool" where
  "rx_contract c g g' r =
     (case kind_of c of
        Receiving \<Rightarrow> receives g g' r
      | Asking_Closed \<Rightarrow> reports closed_now g g' r
      | Asking_Message \<Rightarrow> reports message_now g g' r
      | Disposing \<Rightarrow> disposes g g' r
      | Converting \<Rightarrow> r = RxUnit \<and> g' = g)"

text \<open>The type of a method's result.\<close>

fun typed :: "rx_call \<Rightarrow> 'm rx_ret \<Rightarrow> bool" where
  "typed CTryRecv r = (\<exists>x. r = RxTry x)"
| "typed (CRecv t) r = (\<exists>x. r = RxRecv x)"
| "typed (CRecvRef t) r = (\<exists>x. r = RxRecv x)"
| "typed (CRecvTimeout t d) r = (\<exists>x. r = RxTimeout x)"
| "typed (CRecvDeadline t i) r = (\<exists>x. r = RxTimeout x)"
| "typed (CPoll cx) r = (\<exists>x. r = RxPoll x)"
| "typed c r = True"

text \<open>A future that is left pending has announced its waker, or has seen the sender unparking.\<close>

fun registered :: "rx_call \<Rightarrow> 'm rx_ret \<Rightarrow> 'm rx_ghost \<Rightarrow> bool" where
  "registered (CPoll cx) (RxPoll Pending) g = (g = RRecv (Task cx) \<or> (\<exists>w. g = RUnpk w))"
| "registered c r g = True"

definition rx_meets :: "rx_call \<Rightarrow> 'm rx_ghost \<Rightarrow> 'm rx_ghost \<Rightarrow> 'm rx_ret \<Rightarrow> bool" where
  "rx_meets c g g' r \<longleftrightarrow> rx_idle (rx_after c) g' \<and> rx_contract c g g' r \<and> typed c r \<and> registered c r g'"

lemmas ghost_defs [proto_simps] =
  finals_def cas_finals_def seen_def reread_def final_msg_def rx_woken_def unparked_def
  settled_def rx_meets_def rx_contract_def receives_def rx_proto_for_def may_wait_def reports_def closed_now_def message_now_def disposes_def

subsection \<open>Methods without loops\<close>

lemma safe_try_recv:
  assumes "rx_idle RxReceiver g"
  shows "safe (rx_body li CTryRecv) (rx_proto_for CTryRecv) {} (rx_meets CTryRecv g) g"
  using assms by (auto simp: code_unfold proto_simps)

lemma safe_queries:
  assumes "rx_idle h g" "rx_owns h c" "c \<in> {CIsClosed, CHasMessage, CAsyncIsClosed, CAsyncHasMessage}"
  shows "safe (rx_body li c) (rx_proto_for c) {} (rx_meets c g) g"
  using assms by (cases h) (auto simp: code_unfold proto_simps)

lemma safe_receiver_drop:
  assumes "rx_idle RxReceiver g"
  shows "safe (rx_body li CDrop) (rx_proto_for CDrop) {} (rx_meets CDrop g) g"
  using assms by (auto simp: code_unfold proto_simps)

lemma safe_conversions:
  assumes "rx_idle h g" "rx_owns h c" "c \<in> {CIntoRaw, CFromRaw, CIntoFuture}"
  shows "safe (rx_body li c) (rx_proto_for c) {} (rx_meets c g) g"
  using assms by (cases h) (auto simp: code_unfold rx_meets_def rx_contract_def)

subsection \<open>Methods that wait\<close>

lemma rx_proto_for_clock [simp]: "rx_proto_for c g AInstantNow = Some {(RInstant i, g) |i. True}"
  by (cases g) (simp_all add: rx_proto_for_def)

lemma safe_recv:
  assumes "rx_idle RxReceiver g"
  shows "safe (rx_body li (CRecv t)) (rx_proto_for (CRecv t)) {} (rx_meets (CRecv t) g) g"
  using assms
  by (auto simp: code_unfold proto_simps simp del: safe.simps(4)
      intro!: safe_LoopI [where L' = "{RRecv (Thread t), RUnpk (Thread t)}"])

lemma safe_recv_ref:
  assumes "rx_idle RxReceiver g"
  shows "safe (rx_body li (CRecvRef t)) (rx_proto_for (CRecvRef t)) {} (rx_meets (CRecvRef t) g) g"
  using assms
  by (auto simp: code_unfold proto_simps simp del: safe.simps(4)
      intro!: safe_LoopI [where L' = "{RRecv (Thread t), RUnpk (Thread t)}"])

lemma safe_poll:
  assumes "rx_idle RxAsync g"
  shows "safe (rx_body li (CPoll cx)) (rx_proto_for (CPoll cx)) {} (rx_meets (CPoll cx) g) g"
  using assms
  by (auto simp: code_unfold proto_simps simp del: safe.simps(4)
      intro!: safe_LoopI [where L' = "{RUnpk (Task i) |i. True}"])

lemma safe_async_drop:
  assumes "rx_idle RxAsync g"
  shows "safe (rx_body li CAsyncDrop) (rx_proto_for CAsyncDrop) {} (rx_meets CAsyncDrop g) g"
  using assms
  by (auto simp: code_unfold proto_simps Let_def)

lemma safe_wait_for_unpark:
  assumes c: "timed c" and "\<And>g' r. rx_idle RxReceiver g' \<Longrightarrow> receives (RWait (Thread t)) g' (RxTimeout r) \<Longrightarrow> Q g' r"
  shows "safe (wait_for_unpark t) (rx_proto_for c) L Q (RWait (Thread t))"
proof -
  have "safe (wait_for_unpark t) (rx_proto_for c) L
    (\<lambda>g' r. rx_idle RxReceiver g' \<and> receives (RWait (Thread t)) g' (RxTimeout r)) (RWait (Thread t))"
    using c by (auto simp: code_unfold proto_simps simp del: safe.simps(4)
        intro!: safe_LoopI [where L' = "{RWait (Thread t)}"])
  then show ?thesis
    by (rule safe_mono) (use assms in blast)
qed

lemma safe_recv_deadline:
  assumes c: "timed c" and "rx_idle RxReceiver g"
  shows "safe (receiver_recv_deadline t i) (rx_proto_for c) {}
    (\<lambda>g' r. rx_idle RxReceiver g' \<and> receives g g' (RxTimeout r)) g"
  using assms
  by (auto simp: code_unfold proto_simps simp del: safe.simps(4) wait_for_unpark_def
      split: option.splits intro!: safe_LoopI [where L' = "{RRecv (Thread t), RUnpk (Thread t)}"]
      safe_wait_for_unpark)

lemma safe_recv_ref_timeout:
  assumes c: "timed c" and "rx_idle RxReceiver g"
  shows "safe (receiver_recv_ref t) (rx_proto_for c) {}
    (\<lambda>g' r. rx_idle RxReceiver g' \<and>
      receives g g' (RxTimeout (map_err (\<lambda>_. RecvTimeoutError_Disconnected) r))) g"
  using assms
  by (auto simp: code_unfold proto_simps simp del: safe.simps(4)
      intro!: safe_LoopI [where L' = "{RRecv (Thread t), RUnpk (Thread t)}"])

lemma safe_recv_timeout:
  assumes c: "timed c" and "rx_idle RxReceiver g"
  shows "safe (receiver_recv_timeout li t d) (rx_proto_for c) {}
    (\<lambda>g' r. rx_idle RxReceiver g' \<and> receives g g' (RxTimeout r)) g"
  using safe_recv_deadline [OF c assms(2)] safe_recv_ref_timeout [OF c assms(2)]
  by (auto simp: receiver_recv_timeout_def instant_now_def split: option.splits)

lemma rx_contract_holds:
  assumes "rx_idle h g" "rx_owns h c"
  shows "safe (rx_body li c) (rx_proto_for c) {} (rx_meets c g) g"
proof (cases c)
  case (CRecvTimeout t d)
  then show ?thesis
    using assms safe_recv_timeout [of c g li t d] by (cases h) (auto simp: rx_meets_def rx_contract_def)
next
  case (CRecvDeadline t i)
  then show ?thesis
    using assms safe_recv_deadline [of c g t i] by (cases h) (auto simp: rx_meets_def rx_contract_def)
qed (use assms in \<open>cases h; simp del: rx_idle.simps rx_body.simps
  add: safe_try_recv safe_queries safe_conversions safe_receiver_drop safe_recv safe_recv_ref safe_poll safe_async_drop\<close>)+

end
