(* ===== verification/Effects.thy ===== *)
theory Effects
  imports Protocol
begin

text \<open>
  How the elementary effects of the memory model act on the fields of a channel, on the views and
  on the values the receiver may still read.
\<close>

section \<open>Fields\<close>

lemma ticked_fields [simp]:
  "hist (ticked a \<mu>) = hist \<mu>" "message (ticked a \<mu>) = message \<mu>"
  "waker_slot (ticked a \<mu>) = waker_slot \<mu>" "freed (ticked a \<mu>) = freed \<mu>"
  "acq (ticked a \<mu>) = acq \<mu>" "msg_at (ticked a \<mu>) = msg_at \<mu>" "wak_at (ticked a \<mu>) = wak_at \<mu>"
  "token (ticked a \<mu>) = token \<mu>" "woken (ticked a \<mu>) = woken \<mu>" "dropped (ticked a \<mu>) = dropped \<mu>"
  "leaked (ticked a \<mu>) = leaked \<mu>"
  "cur (ticked a \<mu>) = (cur \<mu>)(a := tick a (cur \<mu> a))"
  by (simp_all add: ticked_def)

lemma observe_fields [simp]:
  "hist (observe a ord i \<mu>) = hist \<mu>" "message (observe a ord i \<mu>) = message \<mu>"
  "waker_slot (observe a ord i \<mu>) = waker_slot \<mu>" "freed (observe a ord i \<mu>) = freed \<mu>"
  "msg_at (observe a ord i \<mu>) = msg_at \<mu>" "wak_at (observe a ord i \<mu>) = wak_at \<mu>"
  "token (observe a ord i \<mu>) = token \<mu>" "woken (observe a ord i \<mu>) = woken \<mu>"
  "dropped (observe a ord i \<mu>) = dropped \<mu>" "leaked (observe a ord i \<mu>) = leaked \<mu>"
  "cur (observe a ord i \<mu>) = (cur \<mu>)(a := sup (sup (cur \<mu> a) (View i 0 0))
     (if acquiring ord then rel (hist \<mu> ! i) else bot))"
  "acq (observe a ord i \<mu>) = (acq \<mu>)(a := sup (acq \<mu> a) (rel (hist \<mu> ! i)))"
  by (simp_all add: observe_def Let_def)

lemma emit_fields [simp]:
  "message (emit a ord v base \<mu>) = message \<mu>" "waker_slot (emit a ord v base \<mu>) = waker_slot \<mu>"
  "freed (emit a ord v base \<mu>) = freed \<mu>" "acq (emit a ord v base \<mu>) = acq \<mu>"
  "msg_at (emit a ord v base \<mu>) = msg_at \<mu>" "wak_at (emit a ord v base \<mu>) = wak_at \<mu>"
  "token (emit a ord v base \<mu>) = token \<mu>" "woken (emit a ord v base \<mu>) = woken \<mu>"
  "dropped (emit a ord v base \<mu>) = dropped \<mu>" "leaked (emit a ord v base \<mu>) = leaked \<mu>"
  "cur (emit a ord v base \<mu>) = (cur \<mu>)(a := sup (cur \<mu> a) (View (length (hist \<mu>)) 0 0))"
  "hist (emit a ord v base \<mu>) = hist \<mu> @ [Write v (sup (View (length (hist \<mu>)) 0 0)
     (sup base (if releasing ord then sup (cur \<mu> a) (View (length (hist \<mu>)) 0 0) else bot)))]"
  by (simp_all add: emit_def Let_def)

lemma tick_simps [simp]:
  "vt (tick a v) = vt v"
  "own_clock a (tick a v) = Suc (own_clock a v)"
  "vtx (tick Rx v) = vtx v" "vrx (tick Tx v) = vrx v"
  "vtx (tick Tx v) = Suc (vtx v)" "vrx (tick Rx v) = Suc (vrx v)"
  by (cases a; simp)+

lemma fence_fields [simp]:
  "hist (fence_acquire a \<mu>) = hist \<mu>" "message (fence_acquire a \<mu>) = message \<mu>"
  "waker_slot (fence_acquire a \<mu>) = waker_slot \<mu>" "freed (fence_acquire a \<mu>) = freed \<mu>"
  "acq (fence_acquire a \<mu>) = acq \<mu>" "msg_at (fence_acquire a \<mu>) = msg_at \<mu>"
  "wak_at (fence_acquire a \<mu>) = wak_at \<mu>" "dropped (fence_acquire a \<mu>) = dropped \<mu>"
  "leaked (fence_acquire a \<mu>) = leaked \<mu>"
  "cur (fence_acquire a \<mu>) = (cur \<mu>)(a := sup (cur \<mu> a) (acq \<mu> a))"
  by (simp_all add: fence_acquire_def)

lemma access_live: "\<not> freed \<mu> \<Longrightarrow> access a \<mu> k = k (ticked a \<mu>)"
  by (simp add: access_def)

lemma all_agents: "(\<forall>a. P a) \<longleftrightarrow> P Tx \<and> P Rx"
  by (metis agent.exhaust)

lemma set_leaked [simp]: "\<not> leaked \<mu> \<Longrightarrow> \<mu>\<lparr>leaked := False\<rparr> = \<mu>"
  by simp

lemma set_dropped [simp]: "dropped \<mu> = [] \<Longrightarrow> \<mu>\<lparr>dropped := []\<rparr> = \<mu>"
  by simp

lemma set_message [simp]: "message \<mu> = Some m \<Longrightarrow> \<mu>\<lparr>message := Some m\<rparr> = \<mu>"
  by simp

section \<open>Views\<close>

definition views_ok :: "'m mem \<Rightarrow> bool" where
  "views_ok \<mu> \<longleftrightarrow> hist \<mu> \<noteq> [] \<and>
     (\<forall>i < length (hist \<mu>). vt (rel (hist \<mu> ! i)) \<le> i) \<and>
     (\<forall>a. vt (cur \<mu> a) < length (hist \<mu>) \<and> vt (acq \<mu> a) \<le> vt (cur \<mu> a) \<and>
       msg_at \<mu> a \<le> own_clock a (cur \<mu> a) \<and> wak_at \<mu> a \<le> own_clock a (cur \<mu> a))"

lemma views_okD:
  assumes "views_ok \<mu>"
  shows "hist \<mu> \<noteq> []" "i < length (hist \<mu>) \<Longrightarrow> vt (rel (hist \<mu> ! i)) \<le> i"
    "vt (cur \<mu> a) < length (hist \<mu>)" "vt (acq \<mu> a) \<le> vt (cur \<mu> a)"
    "msg_at \<mu> a \<le> own_clock a (cur \<mu> a)" "wak_at \<mu> a \<le> own_clock a (cur \<mu> a)"
    "msg_at \<mu> Tx \<le> vtx (cur \<mu> Tx)" "wak_at \<mu> Rx \<le> vrx (cur \<mu> Rx)" "msg_at \<mu> Rx \<le> vrx (cur \<mu> Rx)"
  using assms unfolding views_ok_def by (auto, metis own_clock.simps(1), (metis own_clock.simps(2))+)

lemma own_clock_sup [simp]: "own_clock a (sup u v) = max (own_clock a u) (own_clock a v)"
  by (cases a) simp_all

lemma own_clock_view [simp]: "own_clock a (View n 0 0) = 0" "own_clock a bot = 0"
  by (cases a; simp)+

lemma views_ok_ticked [simp]: "views_ok \<mu> \<Longrightarrow> views_ok (ticked a \<mu>)"
  by (auto simp: views_ok_def le_SucI)

lemma views_ok_observe [simp]:
  "views_ok \<mu> \<Longrightarrow> visible a i \<mu> \<Longrightarrow> views_ok (observe a ord i \<mu>)"
  unfolding views_ok_def by (auto simp: visible_def le_max_iff_disj le_less_trans)
    (meson le_trans)

lemma views_ok_emit [simp]:
  "views_ok \<mu> \<Longrightarrow> vt base \<le> length (hist \<mu>) \<Longrightarrow> views_ok (emit a ord v base \<mu>)"
  by (auto simp: views_ok_def nth_append less_Suc_eq le_max_iff_disj) (metis less_or_eq_imp_le le_less_trans)+

lemma views_ok_fence [simp]: "views_ok \<mu> \<Longrightarrow> views_ok (fence_acquire a \<mu>)"
  unfolding views_ok_def by (simp add: le_max_iff_disj)

lemma views_ok_more [simp]:
  "views_ok (\<mu>\<lparr>clock := c\<rparr>) = views_ok \<mu>" "views_ok (\<mu>\<lparr>woken := ws\<rparr>) = views_ok \<mu>"
  "views_ok (\<mu>\<lparr>token := tk\<rparr>) = views_ok \<mu>"
  by (simp_all add: views_ok_def)

section \<open>The values in reach of the receiver\<close>

text \<open>The values of the state the receiver may still read, oldest first.\<close>

definition rx_vals :: "'m mem \<Rightarrow> u8 list" where
  "rx_vals \<mu> = map val (List.drop (vt (cur \<mu> Rx)) (hist \<mu>))"

lemma rx_vals_ticked [simp]: "rx_vals (ticked a \<mu>) = rx_vals \<mu>"
  by (cases a) (simp_all add: rx_vals_def)

lemma rx_vals_emit_Rx: "views_ok \<mu> \<Longrightarrow> rx_vals (emit Rx ord v base \<mu>) = [v]"
  by (auto simp: rx_vals_def max_def dest: views_okD(3) [of _ Rx])

lemma rx_vals_emit_Tx: "views_ok \<mu> \<Longrightarrow> rx_vals (emit Tx ord v base \<mu>) = rx_vals \<mu> @ [v]"
  by (auto simp: rx_vals_def dest: views_okD(3) [of _ Rx])

lemma rx_vals_observe_Tx [simp]: "rx_vals (observe Tx ord i \<mu>) = rx_vals \<mu>"
  by (simp add: rx_vals_def)

lemma rx_vals_last:
  assumes "views_ok \<mu>"
  shows "val (last (hist \<mu>)) = last (rx_vals \<mu>)" "rx_vals \<mu> \<noteq> []"
  using views_okD(3) [OF assms, of Rx] by (auto simp: rx_vals_def last_map)

lemma rx_vals_length: "views_ok \<mu> \<Longrightarrow> length (rx_vals \<mu>) = length (hist \<mu>) - vt (cur \<mu> Rx)"
  by (simp add: rx_vals_def)

lemma rx_vals_nth: "i < length (rx_vals \<mu>) \<Longrightarrow> rx_vals \<mu> ! i = val (hist \<mu> ! (vt (cur \<mu> Rx) + i))"
  by (simp add: rx_vals_def)

lemma vt_observe:
  assumes "views_ok \<mu>" "visible a i \<mu>"
  shows "vt (cur (observe a ord i \<mu>) a) = i"
  using views_okD(2) [OF assms(1), of i] assms(2) by (auto simp: visible_def)

lemma rx_vals_observe_Rx:
  assumes "views_ok \<mu>" "visible Rx i \<mu>"
  shows "rx_vals (observe Rx ord i \<mu>) = List.drop (i - vt (cur \<mu> Rx)) (rx_vals \<mu>)"
  using assms(2) unfolding rx_vals_def vt_observe [OF assms]
  by (simp add: visible_def drop_map)

text \<open>What reading one of these values amounts to.\<close>

lemma rx_read:
  assumes "views_ok \<mu>" "visible Rx i (ticked Rx \<mu>)"
  obtains j where "j < length (rx_vals \<mu>)" "val (hist \<mu> ! i) = rx_vals \<mu> ! j"
    "rx_vals (observe Rx ord i (ticked Rx \<mu>)) = List.drop j (rx_vals \<mu>)"
    "Suc j = length (rx_vals \<mu>) \<Longrightarrow> hist \<mu> ! i = last (hist \<mu>)"
    "Suc j = length (rx_vals \<mu>) \<longleftrightarrow> Suc i = length (hist \<mu>)"
    "vt (cur (observe Rx ord i (ticked Rx \<mu>)) Rx) = vt (cur \<mu> Rx) + j"
proof
  let ?j = "i - vt (cur \<mu> Rx)"
  have vis: "vt (cur \<mu> Rx) \<le> i" "i < length (hist \<mu>)"
    using assms(2) by (simp_all add: visible_def)
  show 1: "?j < length (rx_vals \<mu>)"
    using vis by (simp add: rx_vals_def)
  show "val (hist \<mu> ! i) = rx_vals \<mu> ! ?j"
    using vis rx_vals_nth [OF 1] by simp
  show "rx_vals (observe Rx ord i (ticked Rx \<mu>)) = List.drop ?j (rx_vals \<mu>)"
    using rx_vals_observe_Rx [of "ticked Rx \<mu>" i ord] assms by simp
  show eq: "Suc ?j = length (rx_vals \<mu>) \<longleftrightarrow> Suc i = length (hist \<mu>)"
    using vis by (auto simp: rx_vals_def)
  show "hist \<mu> ! i = last (hist \<mu>)" if "Suc ?j = length (rx_vals \<mu>)"
    using that eq views_okD(1) [OF assms(1)] by (metis diff_Suc_1 last_conv_nth)
  show "vt (cur (observe Rx ord i (ticked Rx \<mu>)) Rx) = vt (cur \<mu> Rx) + ?j"
    using vt_observe [of "ticked Rx \<mu>" Rx i ord] assms vis by simp
qed

lemma visible_last: "views_ok \<mu> \<Longrightarrow> visible a (length (hist \<mu>) - 1) \<mu>"
  using views_okD(1) [of \<mu>] views_okD(3) [of \<mu> a] by (fastforce simp: visible_def)

lemma drop_last: "Suc j = length xs \<Longrightarrow> List.drop j xs = [last xs]"
  by (metis Cons_nth_drop_Suc diff_Suc_1 drop_all last_conv_nth lessI list.size(3) nat.distinct(1) order_refl)

section \<open>Enabled actions\<close>

text \<open>
  Every action but \<open>park\<close> can be performed at any time, and without a spurious wakeup unless it is
  \<open>park_timeout\<close>.
\<close>

lemma act_enabled:
  assumes ok: "views_ok \<mu>" and "\<not> blocking \<alpha>"
  shows "\<exists>ch. act a ch \<alpha> \<mu> \<noteq> Disabled \<and> (ch = Spurious \<longrightarrow> (\<exists>t d. \<alpha> = AParkTimeout t d))"
proof -
  let ?i = "length (hist \<mu>) - 1"
  have vis: "visible a ?i (ticked a \<mu>)"
    using visible_last [of "ticked a \<mu>" a] ok by simp
  consider ord where "\<alpha> = ALoad ord" | x n o1 o2 where "\<alpha> = ACompareExchange x n o1 o2"
    | t d where "\<alpha> = AParkTimeout t d" | "\<alpha> = AInstantNow" | "act a Go \<alpha> \<mu> \<noteq> Disabled"
    using assms(2)
    by (cases \<alpha>) (auto simp: access_def msg_access_def wak_access_def store_last_def rmw_def Let_def
        put_message_def move_message_def borrow_message_def drop_message_in_place_def put_waker_def
        move_waker_def drop_waker_in_place_def free_channel_def split: option.splits)
  then show ?thesis
  proof cases
    case 1
    then show ?thesis
      using vis by (intro exI [of _ "At ?i"]) (simp add: access_def with_index_def load_at_def)
  next
    case 2
    then show ?thesis
      using vis views_okD(1) [OF ok]
      by (intro exI [of _ "At ?i"])
        (simp add: access_def with_index_def compare_exchange_at_def Let_def)
  next
    case 3
    then show ?thesis
      by (intro exI [of _ Spurious]) (simp add: park_def)
  next
    case 4
    then show ?thesis
      by (intro exI [of _ "Elapse 0"]) simp
  qed blast
qed

end
