(* ===== verification/Invariant.thy ===== *)
theory Invariant
  imports Effects
begin

text \<open>
  The invariant that ties the memory of a channel to the ghost states of its two endpoints.
\<close>

section \<open>Memory\<close>

abbreviation last_rel :: "'m mem \<Rightarrow> view" where
  "last_rel \<mu> \<equiv> rel (last (hist \<mu>))"

lemma fin_val_simps [simp]: "fin_val f \<noteq> UNPARKING" "UNPARKING \<noteq> fin_val f"
  "fin_val f \<noteq> EMPTY" "EMPTY \<noteq> fin_val f" "fin_val f \<noteq> RECEIVING" "RECEIVING \<noteq> fin_val f"
  by (cases f; simp)+

text \<open>No park token carries anything of this channel.\<close>

definition no_wakeup :: "'m mem \<Rightarrow> bool" where
  "no_wakeup \<mu> \<longleftrightarrow> (\<forall>t v. token \<mu> t = Some v \<longrightarrow> v = bot)"

definition full_view :: "'m mem \<Rightarrow> view \<Rightarrow> bool" where
  "full_view \<mu> v \<longleftrightarrow> Suc (vt v) = length (hist \<mu>) \<and> vtx (cur \<mu> Tx) \<le> vtx v"

text \<open>The waker \<open>w\<close> has been woken, and the tokens around are stale or the sender's.\<close>

fun was_woken :: "waker \<Rightarrow> 'm mem \<Rightarrow> bool" where
  "was_woken (Thread t) \<mu> \<longleftrightarrow> (\<exists>v. token \<mu> t = Some v \<and> full_view \<mu> v)"
| "was_woken (Task i) \<mu> \<longleftrightarrow> i \<in> set (woken \<mu>)"

definition woken_up :: "waker \<Rightarrow> 'm mem \<Rightarrow> bool" where
  "woken_up w \<mu> \<longleftrightarrow> (\<forall>t v. token \<mu> t = Some v \<longrightarrow> v = bot \<or> full_view \<mu> v) \<and> was_woken w \<mu>"

definition overwrote_unparking :: "'m mem \<Rightarrow> bool" where
  "overwrote_unparking \<mu> \<longleftrightarrow>
     0 < vt (cur \<mu> Rx) \<and> val (hist \<mu> ! (vt (cur \<mu> Rx) - 1)) = UNPARKING"

fun message_ok :: "'m fin \<Rightarrow> 'm msg_state \<Rightarrow> 'm mem \<Rightarrow> bool" where
  "message_ok f Present \<mu> \<longleftrightarrow> message \<mu> = fin_msg f \<and> f \<noteq> Dropped \<and> dropped \<mu> = []"
| "message_ok f NoMsg \<mu> \<longleftrightarrow> message \<mu> = None \<and> f = Dropped \<and> dropped \<mu> = []"
| "message_ok f (Taken m) \<mu> \<longleftrightarrow> message \<mu> = None \<and> f = Sent m \<and> dropped \<mu> = []"
| "message_ok f Discarded \<mu> \<longleftrightarrow> message \<mu> = None \<and> (\<exists>m. f = Sent m \<and> dropped \<mu> = [m])"

lemma message_ok_cong:
  "message \<mu>' = message \<mu> \<Longrightarrow> dropped \<mu>' = dropped \<mu> \<Longrightarrow> message_ok f s \<mu>' = message_ok f s \<mu>"
  by (cases s) simp_all

lemma message_ok_effects [simp]:
  "message_ok f s (ticked a \<mu>) = message_ok f s \<mu>"
  "message_ok f s (observe a ord i \<mu>) = message_ok f s \<mu>"
  "message_ok f s (emit a ord v base \<mu>) = message_ok f s \<mu>"
  by (rule message_ok_cong; simp)+

section \<open>The joint states\<close>

text \<open>Before the sender's read-modify-write.\<close>

fun pre_state :: "'m rx_ghost \<Rightarrow> 'm mem \<Rightarrow> bool" where
  "pre_state (RQuiet wk) \<mu> \<longleftrightarrow> rx_vals \<mu> = [EMPTY] \<and> waker_slot \<mu> = wk"
| "pre_state (RRecv w) \<mu> \<longleftrightarrow> rx_vals \<mu> = [RECEIVING] \<and> waker_slot \<mu> = Some w \<and>
     wak_at \<mu> Rx \<le> vrx (last_rel \<mu>)"
| "pre_state RLeft \<mu> \<longleftrightarrow> rx_vals \<mu> = [DISCONNECTED] \<and> waker_slot \<mu> = None \<and>
     vrx (cur \<mu> Rx) \<le> vrx (last_rel \<mu>)"
| "pre_state _ \<mu> \<longleftrightarrow> False"

definition pre :: "bool \<Rightarrow> 'm rx_ghost \<Rightarrow> 'm mem \<Rightarrow> bool" where
  "pre k h \<mu> \<longleftrightarrow> \<not> freed \<mu> \<and> dropped \<mu> = [] \<and> msg_at \<mu> Rx = 0 \<and> wak_at \<mu> Tx = 0 \<and> no_wakeup \<mu> \<and>
     DISCONNECTED \<notin> val ` set (butlast (hist \<mu>)) \<and> UNPARKING \<notin> val ` set (hist \<mu>) \<and>
     (k \<longrightarrow> h = RLeft \<and> Suc (vt (cur \<mu> Tx)) = length (hist \<mu>)) \<and> pre_state h \<mu>"

text \<open>While the sender is between \<open>UNPARKING\<close> and its final state; \<open>w\<close> is the announced waker.\<close>

fun mid_state :: "'m rx_ghost \<Rightarrow> waker \<Rightarrow> 'm mem \<Rightarrow> bool" where
  "mid_state (RRecv w') w \<mu> \<longleftrightarrow> w = w' \<and> rx_vals \<mu> = [RECEIVING, UNPARKING] \<and>
     msg_at \<mu> Tx \<le> vtx (last_rel \<mu>)"
| "mid_state (RUnpk w') w \<mu> \<longleftrightarrow> w = w' \<and> rx_vals \<mu> = [UNPARKING] \<and>
     msg_at \<mu> Tx \<le> vtx (last_rel \<mu>)"
| "mid_state (RWait w') w \<mu> \<longleftrightarrow> w = w' \<and> rx_vals \<mu> = [EMPTY] \<and>
     msg_at \<mu> Tx \<le> vtx (cur \<mu> Rx) \<and> overwrote_unparking \<mu>"
| "mid_state _ w \<mu> \<longleftrightarrow> False"

definition mid :: "'m fin \<Rightarrow> 'm rx_ghost \<Rightarrow> waker \<Rightarrow> 'm mem \<Rightarrow> bool" where
  "mid f h w \<mu> \<longleftrightarrow> \<not> freed \<mu> \<and> dropped \<mu> = [] \<and> message \<mu> = fin_msg f \<and> msg_at \<mu> Rx = 0 \<and>
     no_wakeup \<mu> \<and> mid_state h w \<mu>"

text \<open>The receiver has announced \<open>w\<close> and not yet observed the sender's final state.\<close>

fun waiting_state :: "'m fin \<Rightarrow> 'm rx_ghost \<Rightarrow> waker \<Rightarrow> 'm mem \<Rightarrow> bool" where
  "waiting_state f (RRecv w') w \<mu> \<longleftrightarrow> w = w' \<and> rx_vals \<mu> = [RECEIVING, UNPARKING, fin_val f]"
| "waiting_state f (RUnpk w') w \<mu> \<longleftrightarrow> w = w' \<and> rx_vals \<mu> = [UNPARKING, fin_val f]"
| "waiting_state f (RWait w') w \<mu> \<longleftrightarrow> w = w' \<and> rx_vals \<mu> = [EMPTY, fin_val f] \<and>
     overwrote_unparking \<mu>"
| "waiting_state f _ w \<mu> \<longleftrightarrow> False"

definition waiting :: "'m fin \<Rightarrow> 'm rx_ghost \<Rightarrow> waker \<Rightarrow> 'm mem \<Rightarrow> bool" where
  "waiting f h w \<mu> \<longleftrightarrow> \<not> freed \<mu> \<and> dropped \<mu> = [] \<and> message \<mu> = fin_msg f \<and> waker_slot \<mu> = None \<and>
     vtx (cur \<mu> Tx) \<le> vtx (last_rel \<mu>) \<and> waiting_state f h w \<mu>"

text \<open>The sender ended while the receiver was not receiving, and the receiver has not seen it.\<close>

fun unseen :: "'m fin \<Rightarrow> 'm rx_ghost \<Rightarrow> 'm mem \<Rightarrow> bool" where
  "unseen f (RQuiet wk) \<mu> \<longleftrightarrow> \<not> freed \<mu> \<and> dropped \<mu> = [] \<and> message \<mu> = fin_msg f \<and>
     waker_slot \<mu> = wk \<and> wak_at \<mu> Tx = 0 \<and> vtx (cur \<mu> Tx) \<le> vtx (last_rel \<mu>) \<and>
     rx_vals \<mu> = [EMPTY, fin_val f] \<and> UNPARKING \<notin> val ` set (hist \<mu>)"
| "unseen f _ \<mu> \<longleftrightarrow> False"

text \<open>The message has been received.\<close>

fun took :: "'m msg_state \<Rightarrow> bool" where
  "took (Taken m) = True"
| "took _ = False"

definition owned_ok :: "'m fin \<Rightarrow> 'm owned \<Rightarrow> 'm mem \<Rightarrow> bool" where
  "owned_ok f x \<mu> \<longleftrightarrow> \<not> freed \<mu> \<and> rx_vals \<mu> = [o_val x] \<and> o_val x \<noteq> UNPARKING \<and> waker_slot \<mu> = o_wk x \<and>
     message_ok f (o_msg x) \<mu> \<and> (o_wk x \<noteq> None \<longrightarrow> wak_at \<mu> Tx = 0) \<and>
     (cm x \<longrightarrow> msg_at \<mu> Tx \<le> vtx (cur \<mu> Rx)) \<and> (took (o_msg x) \<longrightarrow> cm x) \<and>
     (ca x \<longrightarrow> vtx (cur \<mu> Tx) \<le> vtx (cur \<mu> Rx)) \<and>
     (pe x \<longrightarrow> vtx (cur \<mu> Tx) \<le> vtx (acq \<mu> Rx)) \<and>
     (lc x \<longrightarrow> vtx (cur \<mu> Tx) \<le> vtx (last_rel \<mu>))"

text \<open>The receiver has observed the sender's final state.\<close>

fun rx_owner :: "'m fin \<Rightarrow> 'm rx_ghost \<Rightarrow> 'm mem \<Rightarrow> bool" where
  "rx_owner f (ROwn x) \<mu> \<longleftrightarrow> owned_ok f x \<mu>"
| "rx_owner f (RFreed s) \<mu> \<longleftrightarrow> freed \<mu> \<and> message_ok f s \<mu> \<and>
     (took s \<longrightarrow> msg_at \<mu> Tx \<le> vtx (cur \<mu> Rx))"
| "rx_owner f _ \<mu> \<longleftrightarrow> False"

fun joint :: "'m tx_ghost \<Rightarrow> 'm rx_ghost \<Rightarrow> 'm mem \<Rightarrow> bool" where
  "joint (TIdle k) h \<mu> \<longleftrightarrow> message \<mu> = None \<and> pre k h \<mu>"
| "joint (TWrote m k) h \<mu> \<longleftrightarrow> message \<mu> = Some m \<and> pre k h \<mu>"
| "joint (TUnp f) h \<mu> \<longleftrightarrow> (\<exists>w. mid f h w \<mu> \<and> waker_slot \<mu> = Some w \<and> wak_at \<mu> Rx \<le> vrx (cur \<mu> Tx))"
| "joint (TTook f w) h \<mu> \<longleftrightarrow> mid f h w \<mu> \<and> waker_slot \<mu> = None"
| "joint (TPost f w) h \<mu> \<longleftrightarrow> rx_owner f h \<mu> \<or>
     waiting f h w \<mu> \<and> no_wakeup \<mu> \<and> Suc (vt (cur \<mu> Tx)) = length (hist \<mu>)"
| "joint (TDone f) h \<mu> \<longleftrightarrow> rx_owner f h \<mu> \<or> unseen f h \<mu> \<or> (\<exists>w. waiting f h w \<mu> \<and> woken_up w \<mu>)"
| "joint (TOwn f s) h \<mu> \<longleftrightarrow> \<not> freed \<mu> \<and> h = RLeft \<and> message_ok f s \<mu> \<and> waker_slot \<mu> = None \<and>
     vrx (cur \<mu> Rx) \<le> vrx (cur \<mu> Tx)"
| "joint (TFreed f s) h \<mu> \<longleftrightarrow> freed \<mu> \<and> h = RLeft \<and> message_ok f s \<mu>"

definition channel_inv :: "'m mem \<Rightarrow> 'm tx_ghost \<Rightarrow> 'm rx_ghost \<Rightarrow> bool" where
  "channel_inv \<mu> g h \<longleftrightarrow> views_ok \<mu> \<and> \<not> leaked \<mu> \<and> joint g h \<mu>"

lemma channel_inv_enabled: "channel_inv \<mu> g h \<Longrightarrow> \<not> blocking \<alpha> \<Longrightarrow> \<exists>ch. act a ch \<alpha> \<mu> \<noteq> Disabled"
  using act_enabled [of \<mu> \<alpha> a] by (auto simp: channel_inv_def)

lemma channel_inv_init: "channel_inv (channel_new parked) (TIdle False) (RQuiet None)"
  by (auto simp: channel_inv_def views_ok_def channel_new_def pre_def no_wakeup_def rx_vals_def)

section \<open>Explained outcomes\<close>

text \<open>An outcome that one of the answers of the protocol explains.\<close>

fun explained ::
  "('m resp \<times> 'g) set \<Rightarrow> ('m mem \<Rightarrow> 'g \<Rightarrow> bool) \<Rightarrow> ('m resp \<times> 'm mem) outcome \<Rightarrow> bool" where
  "explained S P Disabled = True"
| "explained S P (Fault f) = False"
| "explained S P (Step x) = (\<exists>g'. (fst x, g') \<in> S \<and> P (snd x) g')"

lemma explained_no_fault: "explained S P out \<Longrightarrow> out \<noteq> Fault f"
  by auto

lemma explained_step: "explained S P out \<Longrightarrow> out = Step (r, \<mu>') \<Longrightarrow> \<exists>g'. (r, g') \<in> S \<and> P \<mu>' g'"
  by auto

end
