(* ===== verification/Rx_State.thy ===== *)
theory Rx_State
  imports Invariant
begin

text \<open>
  The receiver's operations on the atomic state keep the invariant.
\<close>

lemmas inv_unfold = pre_def mid_def waiting_def owned_ok_def

definition ended :: "'m fin \<Rightarrow> 'm tx_ghost \<Rightarrow> bool" where
  "ended f g \<longleftrightarrow> g = TDone f \<or> (\<exists>w. g = TPost f w)"

lemma ended_owner: "ended f g \<Longrightarrow> rx_owner f h \<mu> \<Longrightarrow> joint g h \<mu>"
  by (auto simp: ended_def)

lemma joint_ROwn: "joint g (ROwn x) \<mu> \<longleftrightarrow> (\<exists>f. ended f g \<and> owned_ok f x \<mu>)"
  by (cases g) (auto simp: ended_def inv_unfold)

text \<open>The sender has ended, and the receiver does not know it yet.\<close>

fun slot_of :: "'m rx_ghost \<Rightarrow> waker option" where
  "slot_of (RQuiet wk) = wk"
| "slot_of _ = None"

definition unread :: "'m fin \<Rightarrow> 'm rx_ghost \<Rightarrow> 'm mem \<Rightarrow> bool" where
  "unread f h \<mu> \<longleftrightarrow> \<not> freed \<mu> \<and> dropped \<mu> = [] \<and> message \<mu> = fin_msg f \<and>
     waker_slot \<mu> = slot_of h \<and> (slot_of h \<noteq> None \<longrightarrow> wak_at \<mu> Tx = 0) \<and>
     vtx (cur \<mu> Tx) \<le> vtx (last_rel \<mu>) \<and> last (rx_vals \<mu>) = fin_val f"

lemma joint_RQuiet:
  "joint g (RQuiet wk) \<mu> \<Longrightarrow>
     rx_vals \<mu> = [EMPTY] \<and> (\<exists>k. g = TIdle k \<or> (\<exists>m. g = TWrote m k)) \<or>
     (\<exists>f. ended f g \<and> rx_vals \<mu> = [EMPTY, fin_val f] \<and> unread f (RQuiet wk) \<mu>)"
  by (cases g) (auto simp: inv_unfold ended_def unread_def)

lemma joint_RRecv:
  "joint g (RRecv w) \<mu> \<Longrightarrow>
     rx_vals \<mu> = [RECEIVING] \<and> (\<exists>k. g = TIdle k \<or> (\<exists>m. g = TWrote m k)) \<or>
     rx_vals \<mu> = [RECEIVING, UNPARKING] \<or>
     (\<exists>f. ended f g \<and> rx_vals \<mu> = [RECEIVING, UNPARKING, fin_val f] \<and> unread f (RRecv w) \<mu>)"
  by (cases g) (auto simp: inv_unfold ended_def unread_def)

lemma joint_RUnpk:
  "joint g (RUnpk w) \<mu> \<Longrightarrow>
     rx_vals \<mu> = [UNPARKING] \<or>
     (\<exists>f. ended f g \<and> rx_vals \<mu> = [UNPARKING, fin_val f] \<and> unread f (RUnpk w) \<mu>)"
  by (cases g) (auto simp: inv_unfold ended_def unread_def)

lemma joint_RWait:
  "joint g (RWait w) \<mu> \<Longrightarrow>
     (rx_vals \<mu> = [EMPTY] \<or>
     (\<exists>f. ended f g \<and> rx_vals \<mu> = [EMPTY, fin_val f] \<and> unread f (RWait w) \<mu>)) \<and> overwrote_unparking \<mu>"
  by (cases g) (auto simp: inv_unfold ended_def unread_def)

text \<open>An action of the receiver that only reads the state.\<close>

definition rx_only :: "'m mem \<Rightarrow> 'm mem \<Rightarrow> bool" where
  "rx_only \<mu> \<mu>' \<longleftrightarrow> hist \<mu>' = hist \<mu> \<and> message \<mu>' = message \<mu> \<and> waker_slot \<mu>' = waker_slot \<mu> \<and>
     freed \<mu>' = freed \<mu> \<and> msg_at \<mu>' = msg_at \<mu> \<and> wak_at \<mu>' = wak_at \<mu> \<and> token \<mu>' = token \<mu> \<and>
     woken \<mu>' = woken \<mu> \<and> dropped \<mu>' = dropped \<mu> \<and> leaked \<mu>' = leaked \<mu> \<and> cur \<mu>' Tx = cur \<mu> Tx \<and>
     vtx (cur \<mu> Rx) \<le> vtx (cur \<mu>' Rx) \<and> vtx (acq \<mu> Rx) \<le> vtx (acq \<mu>' Rx)"

lemma rx_only_observe: "rx_only \<mu> (observe Rx ord i (ticked Rx \<mu>))"
  by (simp add: rx_only_def)

lemma rx_only_stable:
  assumes "rx_only \<mu> \<mu>'"
  shows "no_wakeup \<mu>' = no_wakeup \<mu>" "woken_up w \<mu>' = woken_up w \<mu>"
    "message_ok f s \<mu>' = message_ok f s \<mu>"
proof -
  show "no_wakeup \<mu>' = no_wakeup \<mu>"
    using assms by (simp add: rx_only_def no_wakeup_def)
  show "woken_up w \<mu>' = woken_up w \<mu>"
    using assms by (cases w) (simp_all add: rx_only_def woken_up_def full_view_def)
  show "message_ok f s \<mu>' = message_ok f s \<mu>"
    using assms by (cases s) (simp_all add: rx_only_def)
qed

lemma rx_onlyD:
  assumes "rx_only \<mu> \<mu>'"
  shows "hist \<mu>' = hist \<mu>" "message \<mu>' = message \<mu>" "waker_slot \<mu>' = waker_slot \<mu>"
    "freed \<mu>' = freed \<mu>" "msg_at \<mu>' = msg_at \<mu>" "wak_at \<mu>' = wak_at \<mu>"
    "dropped \<mu>' = dropped \<mu>" "leaked \<mu>' = leaked \<mu>" "cur \<mu>' Tx = cur \<mu> Tx"
    "n \<le> vtx (cur \<mu> Rx) \<Longrightarrow> n \<le> vtx (cur \<mu>' Rx)" "n \<le> vtx (acq \<mu> Rx) \<Longrightarrow> n \<le> vtx (acq \<mu>' Rx)"
  using assms by (auto simp: rx_only_def)

lemma rx_stay_parts:
  assumes "rx_only \<mu> \<mu>'" "vt (cur \<mu>' Rx) = vt (cur \<mu> Rx)" "h \<noteq> RLeft"
  shows "pre k h \<mu> \<Longrightarrow> pre k h \<mu>'" "mid f h w \<mu> \<Longrightarrow> mid f h w \<mu>'" "waiting f h w \<mu> \<Longrightarrow> waiting f h w \<mu>'"
    "unseen f h \<mu> \<Longrightarrow> unseen f h \<mu>'" "rx_owner f h \<mu> \<Longrightarrow> rx_owner f h \<mu>'"
proof -
  have eqs: "rx_vals \<mu>' = rx_vals \<mu>" "overwrote_unparking \<mu>' = overwrote_unparking \<mu>"
    using assms by (simp_all add: rx_only_def rx_vals_def overwrote_unparking_def)
  note facts = eqs rx_only_stable [OF assms(1)] rx_onlyD [OF assms(1)]
  show "pre k h \<mu> \<Longrightarrow> pre k h \<mu>'"
    using assms(3) by (cases h) (simp_all add: pre_def facts)
  show "mid f h w \<mu> \<Longrightarrow> mid f h w \<mu>'"
    by (cases h) (simp_all add: mid_def facts)
  show "waiting f h w \<mu> \<Longrightarrow> waiting f h w \<mu>'"
    by (cases h) (simp_all add: waiting_def facts)
  show "unseen f h \<mu> \<Longrightarrow> unseen f h \<mu>'"
    by (cases h) (simp_all add: facts)
  show "rx_owner f h \<mu> \<Longrightarrow> rx_owner f h \<mu>'"
    by (cases h) (simp_all add: owned_ok_def facts)
qed

lemma rx_stay:
  assumes "rx_only \<mu> \<mu>'" "vt (cur \<mu>' Rx) = vt (cur \<mu> Rx)" "h \<noteq> RLeft" "joint g h \<mu>"
  shows "joint g h \<mu>'"
proof -
  note parts = rx_stay_parts [OF assms(1-3)] rx_only_stable [OF assms(1)] rx_onlyD [OF assms(1)]
  show ?thesis
    using assms(3,4) by (cases g) (auto simp: parts)
qed

section \<open>Loads\<close>

lemma rx_sees_final:
  assumes "unread f h \<mu>" "hist \<mu> ! i = last (hist \<mu>)" "views_ok \<mu>"
    and "rx_vals (observe Rx ord i (ticked Rx \<mu>)) = [fin_val f]"
  shows "owned_ok f (seen (slot_of h) (fin_val f) ord) (observe Rx ord i (ticked Rx \<mu>))"
  using assms views_okD(7) [OF assms(3)]
  by (cases f) (auto simp: owned_ok_def seen_def unread_def final_msg_def le_max_iff_disj)

lemma rx_sees_unparking:
  assumes "joint g (RRecv w) \<mu>" "rx_only \<mu> \<mu>'"
    and "rx_vals \<mu>' = tl (rx_vals \<mu>)" "rx_vals \<mu> \<noteq> [RECEIVING]"
  shows "joint g (RUnpk w) \<mu>'"
  using assms(1,3,4)
  by (cases g)
    (auto simp: pre_def mid_def waiting_def rx_only_stable [OF assms(2)] rx_onlyD [OF assms(2)])

lemma rx_rereads:
  assumes "owned_ok f x \<mu>" "hist \<mu> ! i = last (hist \<mu>)" "views_ok \<mu>"
    and "rx_vals (observe Rx ord i (ticked Rx \<mu>)) = [o_val x]"
  shows "owned_ok f (reread ord x) (observe Rx ord i (ticked Rx \<mu>))"
  using assms views_okD(7) [OF assms(3)]
  by (simp add: owned_ok_def reread_def le_max_iff_disj) auto

text \<open>
  The three ways a read can go while the sender has not been seen to end: the value already known,
  the sender's \<open>UNPARKING\<close>, or its final state.
\<close>

fun known_val :: "'m rx_ghost \<Rightarrow> u8" where
  "known_val (RRecv w) = RECEIVING"
| "known_val (RUnpk w) = UNPARKING"
| "known_val _ = EMPTY"

abbreviation unaware :: "'m rx_ghost \<Rightarrow> bool" where
  "unaware h \<equiv> \<not> aware h"

lemma joint_unaware:
  assumes "joint g h \<mu>" "unaware h"
  shows "rx_vals \<mu> = [known_val h] \<or>
    (\<exists>w. h = RRecv w \<and> rx_vals \<mu> = [RECEIVING, UNPARKING]) \<or>
    (\<exists>w f. h = RRecv w \<and> ended f g \<and> rx_vals \<mu> = [RECEIVING, UNPARKING, fin_val f] \<and> unread f h \<mu>) \<or>
    (\<exists>f. ended f g \<and> rx_vals \<mu> = [known_val h, fin_val f] \<and> unread f h \<mu>)"
  using assms joint_RQuiet [of g _ \<mu>] joint_RRecv [of g _ \<mu>] joint_RUnpk [of g _ \<mu>] joint_RWait [of g _ \<mu>]
  by (cases h) fastforce+

lemma rx_vals_head: "joint g h \<mu> \<Longrightarrow> unaware h \<Longrightarrow> rx_vals \<mu> ! 0 = known_val h"
  using joint_unaware [of g h \<mu>] by auto

lemma rx_reading:
  fixes ord :: ordering and \<mu> :: "'m mem"
  assumes I: "channel_inv \<mu> g h" and vis: "visible Rx i (ticked Rx \<mu>)" and un: "unaware h"
  defines "\<mu>' \<equiv> observe Rx ord i (ticked Rx \<mu>)"
  obtains (known) "val (hist \<mu> ! i) = known_val h" "channel_inv \<mu>' g h"
    | (unparking) w where "h = RRecv w" "val (hist \<mu> ! i) = UNPARKING" "channel_inv \<mu>' g (RUnpk w)"
    | (final) f :: "'m fin" where "val (hist \<mu> ! i) = fin_val f"
        "channel_inv \<mu>' g (ROwn (seen (slot_of h) (fin_val f) ord))"
proof -
  have ok: "views_ok \<mu>" and jt: "joint g h \<mu>"
    using I by (simp_all add: channel_inv_def)
  have inv': "channel_inv \<mu>' g h'" if "joint g h' \<mu>'" for h'
    using that I ok vis by (simp add: channel_inv_def \<mu>'_def)
  obtain j where j: "j < length (rx_vals \<mu>)" "val (hist \<mu> ! i) = rx_vals \<mu> ! j"
    and vals: "rx_vals \<mu>' = List.drop j (rx_vals \<mu>)"
    and last: "Suc j = length (rx_vals \<mu>) \<Longrightarrow> hist \<mu> ! i = last (hist \<mu>)"
    and vt: "vt (cur \<mu>' Rx) = vt (cur \<mu> Rx) + j"
    using rx_read [OF ok vis, of ord] unfolding \<mu>'_def by metis
  have only: "rx_only \<mu> \<mu>'"
    unfolding \<mu>'_def by (rule rx_only_observe)
  have stay: thesis if "j = 0" "rx_vals \<mu> ! 0 = known_val h"
  proof -
    have "h \<noteq> RLeft"
      using un by auto
    then show thesis
      using that rx_stay [OF only _ _ jt] vt inv' j(2) by (intro known) auto
  qed
  have unp: thesis if "h = RRecv w" "j = 1" "rx_vals \<mu> ! 1 = UNPARKING" "rx_vals \<mu> \<noteq> [RECEIVING]" for w
  proof (rule unparking [OF that(1)])
    show "val (hist \<mu> ! i) = UNPARKING"
      using that j(2) by simp
    have "rx_vals \<mu>' = tl (rx_vals \<mu>)"
      using that(2) vals by (simp add: drop_Suc)
    then show "channel_inv \<mu>' g (RUnpk w)"
      using inv' jt that(1,4) rx_sees_unparking [OF _ only] by blast
  qed
  have fin: thesis if "ended f g" "unread f h \<mu>" "Suc j = length (rx_vals \<mu>)" for f
  proof (rule final)
    have "rx_vals \<mu>' = [fin_val f]"
      using that vals by (simp add: unread_def drop_last)
    then show "channel_inv \<mu>' g (ROwn (seen (slot_of h) (fin_val f) ord))"
      using rx_sees_final [OF that(2) last [OF that(3)] ok] ended_owner [OF that(1)] inv'
      by (simp add: \<mu>'_def)
    show "val (hist \<mu> ! i) = fin_val f"
      using that j(2) by (metis diff_Suc_1 last_conv_nth length_0_conv nat.distinct(1) unread_def)
  qed
  show thesis
    using joint_unaware [OF jt un] j(1) stay unp fin by (auto simp: less_Suc_eq)
qed

lemma finals_in: "(RU8 (fin_val f), ROwn (own (fin_val f))) \<in> finals own"
  by (cases f) (auto simp: finals_def)

lemma cas_finals_in: "(RCas (Err (fin_val f)), ROwn (own (fin_val f))) \<in> cas_finals own"
  by (cases f) (auto simp: cas_finals_def)

lemma rx_load_inv:
  assumes I: "channel_inv \<mu> g h" and S: "rx_load ord h = Some S"
    and ne: "\<not> unsynchronised_wakeup (ALoad ord) (At i) \<mu>"
    and vis: "visible Rx i (ticked Rx \<mu>)"
  shows "\<exists>h'. (RU8 (val (hist \<mu> ! i)), h') \<in> S \<and> channel_inv (observe Rx ord i (ticked Rx \<mu>)) g h'"
proof (cases "unaware h")
  case True
  show ?thesis
  proof (cases rule: rx_reading [OF I vis True, where ord = ord, case_names known unparking final])
    case known
    then show ?thesis
      using S True by (cases h) (auto intro: exI [of _ h])
  next
    case (unparking w)
    then show ?thesis
      using S by auto
  next
    case (final f)
    have "val (hist \<mu> ! i) \<noteq> MESSAGE" if "h = RWait w" "ord = Relaxed" for w
    proof -
      have "val (hist \<mu> ! vt (cur \<mu> Rx)) = EMPTY" "overwrote_unparking \<mu>"
        using joint_RWait [of g w \<mu>] I that rx_vals_nth [of 0 \<mu>] by (auto simp: channel_inv_def)
      then show ?thesis
        using ne that by (simp add: unsynchronised_wakeup_def overwrote_unparking_def)
    qed
    then have "(RU8 (fin_val f), ROwn (seen (slot_of h) (fin_val f) ord)) \<in> S"
      using S True final(1) finals_in [of f "\<lambda>v. seen (slot_of h) v ord"]
      by (cases h; cases f) (auto split: if_splits)
    with final show ?thesis
      by auto
  qed
next
  case False
  with S obtain x where x: "h = ROwn x"
    by (cases h) auto
  have ok: "views_ok \<mu>"
    using I by (simp add: channel_inv_def)
  obtain f where f: "ended f g" "owned_ok f x \<mu>"
    using I x by (auto simp: channel_inv_def joint_ROwn)
  then have vals: "rx_vals \<mu> = [o_val x]"
    by (simp add: owned_ok_def)
  obtain j where j: "j = 0" "val (hist \<mu> ! i) = o_val x"
    "rx_vals (observe Rx ord i (ticked Rx \<mu>)) = [o_val x]" "hist \<mu> ! i = last (hist \<mu>)"
    using rx_read [OF ok vis, of ord] vals by fastforce
  then have "owned_ok f (reread ord x) (observe Rx ord i (ticked Rx \<mu>))"
    using rx_rereads [OF f(2) _ ok] by blast
  then have "channel_inv (observe Rx ord i (ticked Rx \<mu>)) g (ROwn (reread ord x))"
    using f(1) I ok vis by (auto simp: channel_inv_def joint_ROwn)
  with S x j show ?thesis
    by auto
qed

section \<open>Read-modify-writes\<close>

definition rx_rmw :: "ordering \<Rightarrow> u8 \<Rightarrow> 'm mem \<Rightarrow> 'm mem" where
  "rx_rmw ord v \<mu> = emit Rx ord v (last_rel \<mu>) (observe Rx ord (length (hist \<mu>) - 1) (ticked Rx \<mu>))"

lemma rx_rmw_fields [simp]:
  "message (rx_rmw ord v \<mu>) = message \<mu>" "waker_slot (rx_rmw ord v \<mu>) = waker_slot \<mu>"
  "freed (rx_rmw ord v \<mu>) = freed \<mu>" "msg_at (rx_rmw ord v \<mu>) = msg_at \<mu>"
  "wak_at (rx_rmw ord v \<mu>) = wak_at \<mu>" "token (rx_rmw ord v \<mu>) = token \<mu>"
  "woken (rx_rmw ord v \<mu>) = woken \<mu>" "dropped (rx_rmw ord v \<mu>) = dropped \<mu>"
  "leaked (rx_rmw ord v \<mu>) = leaked \<mu>" "cur (rx_rmw ord v \<mu>) Tx = cur \<mu> Tx"
  "message_ok f s (rx_rmw ord v \<mu>) = message_ok f s \<mu>"
  "no_wakeup (rx_rmw ord v \<mu>) = no_wakeup \<mu>"
  "length (hist (rx_rmw ord v \<mu>)) = Suc (length (hist \<mu>))"
  "butlast (hist (rx_rmw ord v \<mu>)) = hist \<mu>"
  "val ` set (hist (rx_rmw ord v \<mu>)) = insert v (val ` set (hist \<mu>))"
  by (simp_all add: rx_rmw_def no_wakeup_def)

lemma rx_rmw_views:
  assumes "views_ok \<mu>"
  shows "views_ok (rx_rmw ord v \<mu>)" "rx_vals (rx_rmw ord v \<mu>) = [v]"
    "overwrote_unparking (rx_rmw ord v \<mu>) \<longleftrightarrow> val (last (hist \<mu>)) = UNPARKING"
    "n \<le> vtx (cur \<mu> Rx) \<Longrightarrow> n \<le> vtx (cur (rx_rmw ord v \<mu>) Rx)"
    "acquiring ord \<Longrightarrow> n \<le> vtx (last_rel \<mu>) \<Longrightarrow> n \<le> vtx (cur (rx_rmw ord v \<mu>) Rx)"
    "n \<le> vtx (acq \<mu> Rx) \<Longrightarrow> n \<le> vtx (acq (rx_rmw ord v \<mu>) Rx)"
    "n \<le> vtx (last_rel \<mu>) \<Longrightarrow> n \<le> vtx (acq (rx_rmw ord v \<mu>) Rx)"
    "n \<le> vtx (last_rel \<mu>) \<Longrightarrow> n \<le> vtx (last_rel (rx_rmw ord v \<mu>))"
    "releasing ord \<Longrightarrow> n \<le> vrx (cur (rx_rmw ord v \<mu>) Rx) \<Longrightarrow> n \<le> vrx (last_rel (rx_rmw ord v \<mu>))"
    "releasing ord \<Longrightarrow> n \<le> vrx (cur \<mu> Rx) \<Longrightarrow> n \<le> vrx (last_rel (rx_rmw ord v \<mu>))"
proof -
  let ?i = "length (hist \<mu>) - 1"
  have ne: "hist \<mu> \<noteq> []" and last: "hist \<mu> ! ?i = last (hist \<mu>)"
    using views_okD(1) [OF assms] by (simp_all add: last_conv_nth)
  have vis: "visible Rx ?i (ticked Rx \<mu>)"
    using visible_last [of "ticked Rx \<mu>" Rx] assms by simp
  then have ok: "views_ok (observe Rx ord ?i (ticked Rx \<mu>))"
    using assms by simp
  have "vt (last_rel \<mu>) \<le> length (hist \<mu>)"
    using views_okD(2) [OF assms, of ?i] ne last by simp
  then show "views_ok (rx_rmw ord v \<mu>)"
    using views_ok_emit [OF ok] by (simp add: rx_rmw_def)
  show "rx_vals (rx_rmw ord v \<mu>) = [v]"
    unfolding rx_rmw_def by (rule rx_vals_emit_Rx [OF ok])
  have vt: "vt (cur (rx_rmw ord v \<mu>) Rx) = length (hist \<mu>)"
    using vt_observe [OF _ vis, of ord] assms by (simp add: rx_rmw_def)
  then show "overwrote_unparking (rx_rmw ord v \<mu>) \<longleftrightarrow> val (last (hist \<mu>)) = UNPARKING"
    using ne last unfolding overwrote_unparking_def vt by (simp add: rx_rmw_def nth_append)
qed (auto simp: rx_rmw_def le_max_iff_disj last_conv_nth views_okD(1) [OF assms])

lemma vals_butlast:
  "views_ok \<mu> \<Longrightarrow> val ` set (hist \<mu>) = insert (last (rx_vals \<mu>)) (val ` set (butlast (hist \<mu>)))"
  by (metis append_butlast_last_id image_insert insert_is_Un list.simps(15) list.set(1) rx_vals_last(1)
      set_append sup_commute views_okD(1))

lemma rx_announces:
  assumes "views_ok \<mu>" "joint g (RQuiet (Some w)) \<mu>" "rx_vals \<mu> = [EMPTY]" "releasing ord"
  shows "joint g (RRecv w) (rx_rmw ord RECEIVING \<mu>)"
  using assms(2-) views_okD(8) [OF assms(1)]
  by (cases g) (auto simp: pre_def mid_def waiting_def rx_rmw_views [OF assms(1)] vals_butlast [OF assms(1)])

lemma rx_leaves:
  assumes "views_ok \<mu>" "joint g (RQuiet None) \<mu>" "rx_vals \<mu> = [EMPTY]" "releasing ord"
  shows "joint g RLeft (rx_rmw ord DISCONNECTED \<mu>)"
  using assms(2-)
  by (cases g) (auto simp: pre_def mid_def waiting_def rx_rmw_views [OF assms(1)] vals_butlast [OF assms(1)])

lemma rx_retracts:
  assumes "views_ok \<mu>" "joint g (RRecv w) \<mu>" "rx_vals \<mu> = [RECEIVING]"
  shows "joint g (RQuiet (Some w)) (rx_rmw ord EMPTY \<mu>)"
  using assms(2-)
  by (cases g) (auto simp: pre_def mid_def waiting_def rx_rmw_views [OF assms(1)] vals_butlast [OF assms(1)])

lemma rx_overwrites_unparking:
  assumes "views_ok \<mu>" "joint g h \<mu>" "h = RRecv w \<or> h = RUnpk w" "last (rx_vals \<mu>) = UNPARKING" "acquiring ord"
  shows "joint g (RWait w) (rx_rmw ord EMPTY \<mu>)"
proof -
  have "val (last (hist \<mu>)) = UNPARKING"
    using rx_vals_last(1) [OF assms(1)] assms(4) by simp
  moreover have "fin_val f \<noteq> UNPARKING" for f :: "'a fin"
    by (cases f) simp_all
  ultimately show ?thesis
    using assms(2-)
    by (cases g) (auto simp: pre_def mid_def waiting_def owned_ok_def rx_rmw_views [OF assms(1)])
qed

lemma rx_takes_over:
  assumes "views_ok \<mu>" "unread f h \<mu>" "v \<noteq> UNPARKING"
  shows "owned_ok f ((seen (slot_of h) (fin_val f) ord)\<lparr>o_val := v\<rparr>) (rx_rmw ord v \<mu>)"
  using assms(2,3) views_okD(7) [OF assms(1)]
  by (cases f) (auto simp: owned_ok_def seen_def unread_def final_msg_def rx_rmw_views [OF assms(1)])

lemma rx_swaps_owned:
  assumes "views_ok \<mu>" "owned_ok f x \<mu>" "v \<noteq> UNPARKING"
  shows "owned_ok f ((reread ord x)\<lparr>o_val := v\<rparr>) (rx_rmw ord v \<mu>)"
  using assms(2,3) views_okD(7) [OF assms(1)]
  by (simp add: owned_ok_def reread_def rx_rmw_views [OF assms(1)]) (auto simp: rx_rmw_views [OF assms(1)])

text \<open>A successful read-modify-write, by the value it replaces.\<close>

lemma rx_swap_inv:
  assumes I: "channel_inv \<mu> g h" and S: "rx_swap v ord h = Some S"
    and ne: "\<not> drop_over_unparking (ASwap v ord) \<mu>"
  shows "\<exists>h'. (RU8 (val (last (hist \<mu>))), h') \<in> S \<and> channel_inv (rx_rmw ord v \<mu>) g h'"
proof -
  have ok: "views_ok \<mu>" and jt: "joint g h \<mu>"
    using I by (simp_all add: channel_inv_def)
  have inv': "channel_inv (rx_rmw ord v \<mu>) g h'" if "joint g h' (rx_rmw ord v \<mu>)" for h'
    using that I rx_rmw_views(1) [OF ok] by (simp add: channel_inv_def)
  have last: "val (last (hist \<mu>)) = last (rx_vals \<mu>)"
    by (rule rx_vals_last [OF ok])
  have v: "v \<noteq> UNPARKING"
    using S by (cases h) (auto split: option.splits if_splits)
  have fin: "channel_inv (rx_rmw ord v \<mu>) g (ROwn ((seen (slot_of h) (fin_val f) ord)\<lparr>o_val := v\<rparr>))"
    if "ended f g" "unread f h \<mu>" for f
    using rx_takes_over [OF ok that(2) v] ended_owner [OF that(1)] inv' by simp
  show ?thesis
  proof (cases h)
    case (RQuiet wk)
    then consider "rx_vals \<mu> = [EMPTY]" | f where "ended f g" "last (rx_vals \<mu>) = fin_val f" "unread f h \<mu>"
      using joint_RQuiet [of g wk \<mu>] jt by auto
    then show ?thesis
    proof cases
      case 1
      then show ?thesis
        using S RQuiet last inv' rx_announces [OF ok, of g _ ord] rx_leaves [OF ok, of g ord] jt
        by (auto split: option.splits if_splits)
    next
      case 2
      then show ?thesis
        using S RQuiet last fin [OF 2(1,3)] finals_in [of f "\<lambda>u. (seen wk u ord)\<lparr>o_val := v\<rparr>"]
        by (auto split: option.splits if_splits)
    qed
  next
    case (RRecv w)
    then consider "rx_vals \<mu> = [RECEIVING]" | "last (rx_vals \<mu>) = UNPARKING"
      | f where "ended f g" "last (rx_vals \<mu>) = fin_val f" "unread f h \<mu>"
      using joint_RRecv [of g w \<mu>] jt by auto
    then show ?thesis
    proof cases
      case 1
      then show ?thesis
        using S RRecv last inv' rx_retracts [OF ok, of g w ord] jt by (auto split: if_splits)
    next
      case 2
      then show ?thesis
        using S RRecv last inv' rx_overwrites_unparking [OF ok jt, of w ord] by (auto split: if_splits)
    next
      case 3
      then show ?thesis
        using S RRecv last fin [OF 3(1,3)] finals_in [of f "\<lambda>u. (seen None u ord)\<lparr>o_val := v\<rparr>"]
        by (auto split: if_splits)
    qed
  next
    case (RUnpk w)
    then consider "last (rx_vals \<mu>) = UNPARKING"
      | f where "ended f g" "last (rx_vals \<mu>) = fin_val f" "unread f h \<mu>"
      using joint_RUnpk [of g w \<mu>] jt by auto
    then show ?thesis
    proof cases
      case 1
      then show ?thesis
        using S RUnpk last inv' rx_overwrites_unparking [OF ok jt, of w ord] ne
        by (auto simp: drop_over_unparking_def split: if_splits)
    next
      case 2
      then show ?thesis
        using S RUnpk last fin [OF 2(1,3)] finals_in [of f "\<lambda>u. (seen None u ord)\<lparr>o_val := v\<rparr>"]
        by (auto split: if_splits)
    qed
  next
    case (ROwn x)
    then obtain f where f: "ended f g" "owned_ok f x \<mu>"
      using jt joint_ROwn by blast
    then have "joint g (ROwn ((reread ord x)\<lparr>o_val := v\<rparr>)) (rx_rmw ord v \<mu>)"
      using rx_swaps_owned [OF ok f(2) v] joint_ROwn by blast
    moreover have "rx_vals \<mu> = [o_val x]"
      using f(2) by (simp add: owned_ok_def)
    ultimately show ?thesis
      using ROwn S last inv' by (auto split: if_splits)
  qed (use S in auto)
qed

lemma rx_cas_inv:
  assumes I: "channel_inv \<mu> g h" and S: "rx_cas x n ok_ord err_ord h = Some S"
    and st: "compare_exchange_at Rx x n ok_ord err_ord i (ticked Rx \<mu>) = Step (r, \<mu>')"
  shows "\<exists>h'. (r, h') \<in> S \<and> channel_inv \<mu>' g h'"
proof -
  have ok: "views_ok \<mu>" and jt: "joint g h \<mu>"
    using I by (simp_all add: channel_inv_def)
  have un: "unaware h"
    using S by (cases h) auto
  have vis: "visible Rx i (ticked Rx \<mu>)"
    using st by (auto simp: compare_exchange_at_def split: if_splits)
  show ?thesis
  proof (cases "val (hist \<mu> ! i) = x")
    case False
    then have eqs: "r = RCas (Err (val (hist \<mu> ! i)))" "\<mu>' = observe Rx err_ord i (ticked Rx \<mu>)"
      using st vis by (auto simp: compare_exchange_at_def Let_def split: if_splits)
    show ?thesis
    proof (cases rule: rx_reading [OF I vis un, where ord = err_ord, case_names known unparking final])
      case known
      then show ?thesis
        using S False by (cases h) (auto split: option.splits if_splits)
    next
      case (unparking w)
      then show ?thesis
        using S eqs by (auto split: if_splits)
    next
      case (final f)
      have "(r, ROwn (seen (slot_of h) (fin_val f) err_ord)) \<in> S"
        using S final(1) eqs(1) cas_finals_in [of f "\<lambda>v. seen (slot_of h) v err_ord"]
        by (cases h) (auto split: option.splits if_splits)
      with final eqs show ?thesis
        by auto
    qed
  next
    case True
    with st vis have last: "Suc i = length (hist \<mu>)"
      by (auto simp: compare_exchange_at_def Let_def split: if_splits)
    then have i: "i = length (hist \<mu>) - 1"
      by simp
    then have nth: "hist \<mu> ! i = last (hist \<mu>)"
      using views_okD(1) [OF ok] by (simp add: last_conv_nth)
    have eqs: "r = RCas (Ok x)" "\<mu>' = rx_rmw ok_ord n \<mu>"
      using st vis True last nth by (simp_all add: compare_exchange_at_def rx_rmw_def i)
    have "last (rx_vals \<mu>) = x"
      using rx_vals_last(1) [OF ok] True nth by simp
    then have lst: "last (rx_vals \<mu>) \<noteq> UNPARKING" "last (rx_vals \<mu>) \<noteq> fin_val f" for f :: "'a fin"
      using S by (cases h; cases f; simp split: option.splits if_splits)+
    then have vals: "rx_vals \<mu> = [known_val h]"
      using joint_unaware [OF jt un] by (metis last.simps list.distinct(1))
    have inv': "channel_inv \<mu>' g h'" if "joint g h' \<mu>'" for h'
      using that I rx_rmw_views(1) [OF ok] by (simp add: channel_inv_def eqs)
    show ?thesis
    proof (cases h)
      case (RQuiet wk)
      then obtain w where "wk = Some w" "x = EMPTY" "n = RECEIVING" "releasing ok_ord"
        and "(RCas (Ok EMPTY), RRecv w) \<in> S"
        using S by (auto split: option.splits if_splits)
      then show ?thesis
        using rx_announces [OF ok, of g w ok_ord] jt vals eqs inv' RQuiet by auto
    next
      case (RRecv w)
      then have "x = RECEIVING" "n = EMPTY" "(RCas (Ok RECEIVING), RQuiet (Some w)) \<in> S"
        using S by (auto split: if_splits)
      then show ?thesis
        using rx_retracts [OF ok, of g w ok_ord] jt vals eqs inv' RRecv by auto
    qed (use S in auto)
  qed
qed

end
