(* ===== verification/Rx_Sound.thy ===== *)
theory Rx_Sound
  imports Rx_State
begin

text \<open>
  The receiver's actions keep the invariant: its protocol is sound for the memory model.
\<close>

section \<open>The channel in the receiver's hands\<close>

text \<open>
  Once the sender has ended, the receiver's other actions change its own share of the channel; the
  lemma reduces each to what it does to that share.
\<close>

lemma rx_owned_inv:
  assumes "channel_inv \<mu> g (ROwn x)" "views_ok \<mu>'" "\<not> leaked \<mu>'"
    and "\<And>f. owned_ok f x \<mu> \<Longrightarrow> rx_owner f h' \<mu>'"
  shows "channel_inv \<mu>' g h'"
proof -
  obtain f where "ended f g" "owned_ok f x \<mu>"
    using assms(1) by (auto simp: channel_inv_def joint_ROwn)
  then have "joint g h' \<mu>'"
    using assms(4) ended_owner by blast
  with assms(2,3) show ?thesis
    by (simp add: channel_inv_def)
qed

lemma rx_store_inv:
  assumes I: "channel_inv \<mu> g (ROwn x)" and v: "v \<noteq> UNPARKING"
  shows "Suc (vt (cur \<mu> Rx)) = length (hist \<mu>)"
    and "channel_inv (emit Rx ord v bot (ticked Rx \<mu>)) g (ROwn (x\<lparr>o_val := v, lc := False\<rparr>))"
proof -
  have ok: "views_ok \<mu>" and vals: "rx_vals \<mu> = [o_val x]"
    using I by (auto simp: channel_inv_def joint_ROwn owned_ok_def)
  show "Suc (vt (cur \<mu> Rx)) = length (hist \<mu>)"
    using rx_vals_length [OF ok] vals views_okD(3) [OF ok, of Rx] by simp
  have vals': "rx_vals (emit Rx ord v bot (ticked Rx \<mu>)) = [v]"
    using rx_vals_emit_Rx [of "ticked Rx \<mu>"] ok by simp
  show "channel_inv (emit Rx ord v bot (ticked Rx \<mu>)) g (ROwn (x\<lparr>o_val := v, lc := False\<rparr>))"
    using ok I v by (intro rx_owned_inv [OF I]) (auto simp: owned_ok_def vals' channel_inv_def)
qed

lemma rx_fence_inv:
  assumes I: "channel_inv \<mu> g (ROwn x)"
  shows "channel_inv (fence_acquire Rx \<mu>) g (ROwn (x\<lparr>cm := cm x \<or> pe x, ca := ca x \<or> pe x\<rparr>))"
proof (rule rx_owned_inv [OF I])
  have ok: "views_ok \<mu>" and lk: "\<not> leaked \<mu>"
    using I by (simp_all add: channel_inv_def)
  then show "views_ok (fence_acquire Rx \<mu>)" "\<not> leaked (fence_acquire Rx \<mu>)"
    by simp_all
  have vals: "rx_vals (fence_acquire Rx \<mu>) = rx_vals \<mu>"
    using views_okD(4) [OF ok, of Rx] by (simp add: rx_vals_def max_def)
  have msg: "message_ok f s (fence_acquire Rx \<mu>) = message_ok f s \<mu>" for f s
    by (rule message_ok_cong) simp_all
  have "msg_at \<mu> Tx \<le> vtx (acq \<mu> Rx)" if "vtx (cur \<mu> Tx) \<le> vtx (acq \<mu> Rx)"
    using views_okD(7) [OF ok] that by (rule le_trans)
  then show "rx_owner f (ROwn (x\<lparr>cm := cm x \<or> pe x, ca := ca x \<or> pe x\<rparr>)) (fence_acquire Rx \<mu>)"
    if "owned_ok f x \<mu>" for f
    using that by (auto simp: owned_ok_def vals msg le_max_iff_disj)
qed

section \<open>The fields of the channel\<close>

lemma joint_not_freed: "joint g h \<mu> \<Longrightarrow> (unaware h \<or> (\<exists>x. h = ROwn x)) \<Longrightarrow> \<not> freed \<mu>"
  by (cases g; cases h) (auto simp: inv_unfold)

lemma joint_quiet_waker: "joint g (RQuiet wk) \<mu> \<Longrightarrow> wak_at \<mu> Tx = 0 \<and> waker_slot \<mu> = wk"
  by (cases g) (auto simp: inv_unfold)

lemma rx_quiet_waker:
  assumes "channel_inv \<mu> g (RQuiet wk)"
  shows "channel_inv ((ticked Rx \<mu>)\<lparr>wak_at := (wak_at \<mu>)(Rx := Suc (vrx (cur \<mu> Rx))), waker_slot := wk'\<rparr>)
    g (RQuiet wk')" (is "channel_inv ?\<mu> _ _")
proof -
  have ok: "views_ok \<mu>" and jt: "joint g (RQuiet wk) \<mu>"
    using assms by (simp_all add: channel_inv_def)
  have "views_ok ?\<mu>"
    using views_ok_ticked [OF ok, of Rx] by (simp add: views_ok_def all_agents)
  moreover have "rx_vals ?\<mu> = rx_vals \<mu>" "no_wakeup ?\<mu> = no_wakeup \<mu>"
    by (simp_all add: rx_vals_def no_wakeup_def)
  then have "joint g (RQuiet wk') ?\<mu>"
    using jt by (cases g) (simp_all add: inv_unfold)
  ultimately show ?thesis
    using assms by (simp add: channel_inv_def)
qed

lemma rx_write_waker_inv:
  assumes I: "channel_inv \<mu> g h" and S: "rx_write_waker w h = Some S"
  shows "explained S (\<lambda>\<mu>' h'. channel_inv \<mu>' g h') (act Rx ch (AWriteWaker w) \<mu>)"
proof -
  obtain h: "h = RQuiet None" and S': "S = {(RUnit, RQuiet (Some w))}"
    using S by (cases h) (auto split: if_splits)
  have "\<not> freed \<mu>" "wak_at \<mu> Tx = 0" "waker_slot \<mu> = None" "\<not> leaked \<mu>"
    using I joint_not_freed [of g h \<mu>] joint_quiet_waker [of g None \<mu>] by (auto simp: channel_inv_def h)
  then show ?thesis
    using rx_quiet_waker [of \<mu> g None "Some w"] I
    by (simp add: h S' access_def wak_access_def put_waker_def)
qed

lemma rx_owned_waker:
  assumes I: "channel_inv \<mu> g (ROwn x)"
  shows "channel_inv ((ticked Rx \<mu>)\<lparr>wak_at := (wak_at \<mu>)(Rx := Suc (vrx (cur \<mu> Rx))), waker_slot := None\<rparr>)
    g (ROwn (x\<lparr>o_wk := None\<rparr>))" (is "channel_inv ?\<mu> _ _")
proof (rule rx_owned_inv [OF I])
  have ok: "views_ok \<mu>"
    using I by (simp add: channel_inv_def)
  show "views_ok ?\<mu>" "\<not> leaked ?\<mu>"
    using views_ok_ticked [OF ok, of Rx] I by (simp_all add: views_ok_def all_agents channel_inv_def)
  have "rx_vals ?\<mu> = rx_vals \<mu>" "message_ok f s ?\<mu> = message_ok f s \<mu>" for f s
    by (simp_all add: rx_vals_def cong: message_ok_cong)
  then show "rx_owner f (ROwn (x\<lparr>o_wk := None\<rparr>)) ?\<mu>" if "owned_ok f x \<mu>" for f
    using that by (simp add: owned_ok_def)
qed

lemma rx_drop_waker_inv:
  assumes I: "channel_inv \<mu> g h" and S: "rx_drop_waker h = Some S"
  shows "explained S (\<lambda>\<mu>' h'. channel_inv \<mu>' g h') (act Rx ch ADropWaker \<mu>)"
proof -
  have nf: "\<not> freed \<mu>" "\<not> leaked \<mu>"
    using I S joint_not_freed [of g h \<mu>] by (cases h; auto simp: channel_inv_def)+
  consider w where "h = RQuiet (Some w)" "S = {(RUnit, RQuiet None)}"
    | x w where "h = ROwn x" "o_wk x = Some w" "S = {(RUnit, ROwn (x\<lparr>o_wk := None\<rparr>))}"
    using S by (cases h) (auto split: if_splits)
  then show ?thesis
  proof cases
    case 1
    then have "wak_at \<mu> Tx = 0" "waker_slot \<mu> = Some w"
      using I joint_quiet_waker [of g _ \<mu>] by (auto simp: channel_inv_def)
    then show ?thesis
      using rx_quiet_waker [of \<mu> g "Some w" None] I 1 nf
      by (simp add: access_def wak_access_def drop_waker_in_place_def)
  next
    case 2
    then have "wak_at \<mu> Tx = 0" "waker_slot \<mu> = Some w"
      using I by (auto simp: channel_inv_def joint_ROwn owned_ok_def)
    then show ?thesis
      using rx_owned_waker [of \<mu> g x] I 2 nf
      by (simp add: access_def wak_access_def drop_waker_in_place_def)
  qed
qed

lemma rx_owned_message:
  assumes I: "channel_inv \<mu> g (ROwn x)" and x: "o_msg x = Present" "cm x" and m: "message \<mu> = Some m"
    and s: "s = Taken m \<and> d = [] \<or> s = Discarded \<and> d = [m]"
  shows "channel_inv ((ticked Rx \<mu>)\<lparr>msg_at := (msg_at \<mu>)(Rx := Suc (vrx (cur \<mu> Rx))), message := None,
    dropped := d\<rparr>) g (ROwn (x\<lparr>o_msg := s\<rparr>))" (is "channel_inv ?\<mu> _ _")
proof (rule rx_owned_inv [OF I])
  show "views_ok ?\<mu>" "\<not> leaked ?\<mu>"
    using I views_ok_ticked [of \<mu> Rx] by (simp_all add: views_ok_def all_agents channel_inv_def)
  have vals: "rx_vals ?\<mu> = rx_vals \<mu>"
    by (simp add: rx_vals_def)
  show "rx_owner f (ROwn (x\<lparr>o_msg := s\<rparr>)) ?\<mu>" if "owned_ok f x \<mu>" for f
    using that x m s by (cases f) (auto simp: owned_ok_def vals)
qed

lemma rx_message_present:
  assumes "channel_inv \<mu> g (ROwn x)" "o_msg x = Present" "cm x"
  obtains m where "message \<mu> = Some m" "dropped \<mu> = []" "\<not> freed \<mu>" "msg_at \<mu> Tx \<le> vtx (cur \<mu> Rx)"
proof -
  obtain f where "owned_ok f x \<mu>"
    using assms(1) by (auto simp: channel_inv_def joint_ROwn)
  then show thesis
    using assms(2,3) that by (cases f) (auto simp: owned_ok_def)
qed

lemma rx_read_message_inv:
  assumes I: "channel_inv \<mu> g h" and S: "rx_read_message h = Some S"
  shows "explained S (\<lambda>\<mu>' h'. channel_inv \<mu>' g h') (act Rx ch AReadMessage \<mu>)"
proof -
  obtain x where x: "h = ROwn x" "o_msg x = Present" "cm x"
    and S': "S = {(RMsg m, ROwn (x\<lparr>o_msg := Taken m\<rparr>)) |m. True}"
    using S by (cases h) (auto split: if_splits)
  then obtain m where m: "message \<mu> = Some m" "dropped \<mu> = []" "\<not> freed \<mu>" "msg_at \<mu> Tx \<le> vtx (cur \<mu> Rx)"
    using I rx_message_present by blast
  then show ?thesis
    using rx_owned_message [of \<mu> g x m "Taken m" "[]"] I x
    by (auto simp: S' access_def msg_access_def move_message_def)
qed

lemma rx_drop_message_inv:
  assumes I: "channel_inv \<mu> g h" and S: "rx_drop_message h = Some S"
  shows "explained S (\<lambda>\<mu>' h'. channel_inv \<mu>' g h') (act Rx ch ADropMessage \<mu>)"
proof -
  obtain x where x: "h = ROwn x" "o_msg x = Present" "cm x"
    and S': "S = {(RUnit, ROwn (x\<lparr>o_msg := Discarded\<rparr>))}"
    using S by (cases h) (auto split: if_splits)
  then obtain m where m: "message \<mu> = Some m" "dropped \<mu> = []" "\<not> freed \<mu>" "msg_at \<mu> Tx \<le> vtx (cur \<mu> Rx)"
    using I rx_message_present by blast
  then show ?thesis
    using rx_owned_message [of \<mu> g x m Discarded "[m]"] I x
    by (auto simp: S' access_def msg_access_def drop_message_in_place_def)
qed

lemma message_ok_None: "message_ok f s \<mu> \<Longrightarrow> s \<noteq> Present \<Longrightarrow> message \<mu> = None"
  by (cases s) auto

lemma rx_dealloc_inv:
  assumes I: "channel_inv \<mu> g h" and S: "rx_dealloc h = Some S"
  shows "explained S (\<lambda>\<mu>' h'. channel_inv \<mu>' g h') (act Rx ch ADealloc \<mu>)"
proof -
  obtain x where x: "h = ROwn x" "ca x" "o_msg x \<noteq> Present" "o_wk x = None"
    and S': "S = {(RUnit, RFreed (o_msg x))}"
    using S by (cases h) (auto split: if_splits)
  obtain f where f: "ended f g" "owned_ok f x \<mu>"
    using I x(1) by (auto simp: channel_inv_def joint_ROwn)
  then have mem: "\<not> freed \<mu>" "message \<mu> = None" "waker_slot \<mu> = None" "vtx (cur \<mu> Tx) \<le> vtx (cur \<mu> Rx)"
    using x message_ok_None by (auto simp: owned_ok_def)
  let ?\<mu> = "(ticked Rx \<mu>)\<lparr>freed := True\<rparr>"
  have "message_ok f (o_msg x) ?\<mu>"
    using f(2) by (simp add: owned_ok_def cong: message_ok_cong)
  moreover have "took (o_msg x) \<longrightarrow> msg_at \<mu> Tx \<le> vtx (cur \<mu> Rx)"
    using f(2) by (simp add: owned_ok_def)
  ultimately have "joint g (RFreed (o_msg x)) ?\<mu>"
    by (intro ended_owner [OF f(1)]) simp
  then have "channel_inv ?\<mu> g (RFreed (o_msg x))"
    using I views_ok_ticked [of \<mu> Rx] by (simp add: channel_inv_def views_ok_def)
  moreover have "act Rx ch ADealloc \<mu> = Step (RUnit, ?\<mu>)"
    using mem I by (simp add: access_def free_channel_def channel_inv_def)
  ultimately show ?thesis
    by (simp add: S')
qed

section \<open>Parking and the environment\<close>

lemma joint_clock: "joint g h (\<mu>\<lparr>clock := c\<rparr>) = joint g h \<mu>"
proof -
  have "was_woken w (\<mu>\<lparr>clock := c\<rparr>) = was_woken w \<mu>" for w
    by (cases w) (simp_all add: full_view_def)
  then have eqs: "rx_vals (\<mu>\<lparr>clock := c\<rparr>) = rx_vals \<mu>" "no_wakeup (\<mu>\<lparr>clock := c\<rparr>) = no_wakeup \<mu>"
    "overwrote_unparking (\<mu>\<lparr>clock := c\<rparr>) = overwrote_unparking \<mu>"
    "woken_up w (\<mu>\<lparr>clock := c\<rparr>) = woken_up w \<mu>"
    "message_ok f s (\<mu>\<lparr>clock := c\<rparr>) = message_ok f s \<mu>" for w f s
    by (simp_all add: rx_vals_def no_wakeup_def overwrote_unparking_def woken_up_def full_view_def
        cong: message_ok_cong)
  show ?thesis
    by (cases g; cases h) (simp_all add: inv_unfold eqs)
qed

lemma joint_woken: "joint g h \<mu> \<Longrightarrow> joint g h (\<mu>\<lparr>woken := woken \<mu> @ [i]\<rparr>)"
proof -
  let ?\<mu> = "\<mu>\<lparr>woken := woken \<mu> @ [i]\<rparr>"
  have "was_woken w \<mu> \<Longrightarrow> was_woken w ?\<mu>" for w
    by (cases w) (simp_all add: full_view_def)
  then have wk: "woken_up w \<mu> \<Longrightarrow> woken_up w ?\<mu>" for w
    by (simp add: woken_up_def full_view_def)
  have eqs: "rx_vals ?\<mu> = rx_vals \<mu>" "no_wakeup ?\<mu> = no_wakeup \<mu>"
    "overwrote_unparking ?\<mu> = overwrote_unparking \<mu>" "message_ok f s ?\<mu> = message_ok f s \<mu>" for f s
    by (simp_all add: rx_vals_def no_wakeup_def overwrote_unparking_def cong: message_ok_cong)
  assume "joint g h \<mu>"
  then show ?thesis
    by (cases g; cases h) (auto simp: inv_unfold eqs wk)
qed

lemma channel_inv_environment:
  assumes "channel_inv \<mu> g h"
  shows "channel_inv (\<mu>\<lparr>clock := c\<rparr>) g h" "channel_inv (\<mu>\<lparr>woken := woken \<mu> @ [i]\<rparr>) g h"
  using assms joint_woken by (auto simp: channel_inv_def joint_clock)

text \<open>
  While its waker is announced the receiver's thread finds either a stale token, consumed without
  effect, or the one of the sender that has ended.
\<close>

fun announced :: "'m rx_ghost \<Rightarrow> waker option" where
  "announced (RRecv w) = Some w"
| "announced (RUnpk w) = Some w"
| "announced (RWait w) = Some w"
| "announced _ = None"

lemma joint_announced:
  assumes "joint g h \<mu>" "announced h = Some w"
  shows "no_wakeup \<mu> \<and> (\<forall>f. g \<noteq> TDone f) \<or> (\<exists>f. g = TDone f \<and> waiting f h w \<mu> \<and> woken_up w \<mu>)"
  using assms by (cases g; cases h) (auto simp: inv_unfold)

lemma rx_stale_token:
  assumes I: "channel_inv \<mu> g h" and a: "announced h = Some w" and n: "no_wakeup \<mu>" "\<And>f. g \<noteq> TDone f"
  shows "channel_inv (\<mu>\<lparr>token := (token \<mu>)(t := None)\<rparr>) g h" (is "channel_inv ?\<mu> _ _")
proof -
  have eqs: "rx_vals ?\<mu> = rx_vals \<mu>" "no_wakeup ?\<mu>" "overwrote_unparking ?\<mu> = overwrote_unparking \<mu>"
    "message_ok f s ?\<mu> = message_ok f s \<mu>" for f s
    using n by (simp_all add: rx_vals_def no_wakeup_def overwrote_unparking_def cong: message_ok_cong)
  show ?thesis
    using I a n(2) by (cases g; cases h) (auto simp: channel_inv_def inv_unfold eqs)
qed

lemma rx_awakes:
  fixes tk :: "tid \<Rightarrow> view option"
  assumes ok: "views_ok \<mu>" and wt: "waiting f h w \<mu>" and v: "full_view \<mu> v"
  defines "\<mu>' \<equiv> \<mu>\<lparr>token := tk, cur := (cur \<mu>)(Rx := sup (cur \<mu> Rx) v)\<rparr>"
  shows "views_ok \<mu>'" "owned_ok f (unparked (fin_val f)) \<mu>'"
proof -
  have vt: "vt (cur \<mu>' Rx) = length (hist \<mu>) - 1"
    using views_okD(3) [OF ok, of Rx] v by (auto simp: \<mu>'_def full_view_def)
  have "vt (acq \<mu> Rx) \<le> vt (cur \<mu> Rx)" "msg_at \<mu> Rx \<le> vrx (cur \<mu> Rx)" "wak_at \<mu> Rx \<le> vrx (cur \<mu> Rx)"
    using views_okD [OF ok] by simp_all
  then show ok': "views_ok \<mu>'"
    using ok v by (auto simp: views_ok_def all_agents \<mu>'_def full_view_def le_max_iff_disj)
  have "rx_vals \<mu>' = [val (last (hist \<mu>))]"
    using views_okD(1) [OF ok] unfolding rx_vals_def vt
    by (simp add: \<mu>'_def drop_last)
  moreover have "last (rx_vals \<mu>) = fin_val f"
    using wt by (cases h) (auto simp: waiting_def)
  ultimately have vals: "rx_vals \<mu>' = [fin_val f]"
    using rx_vals_last(1) [OF ok] by simp
  have "vtx (cur \<mu> Tx) \<le> vtx v"
    using v by (simp add: full_view_def)
  then show "owned_ok f (unparked (fin_val f)) \<mu>'"
    using wt vals views_okD(7) [OF ok]
    by (cases f) (auto simp: owned_ok_def unparked_def seen_def waiting_def final_msg_def le_max_iff_disj \<mu>'_def)
qed

lemma rx_park_inv:
  assumes I: "channel_inv \<mu> g h" and S: "rx_park t h = Some S"
  shows "explained S (\<lambda>\<mu>' h'. channel_inv \<mu>' g h') (park Rx ch t \<mu>)"
proof -
  have a: "announced h = Some (Thread t)" and S': "S = rx_woken h"
    using S by (cases h; simp split: if_splits)+
  have jt: "joint g h \<mu>" and ok: "views_ok \<mu>"
    using I by (simp_all add: channel_inv_def)
  show ?thesis
  proof (cases "ch = Go \<and> token \<mu> t \<noteq> None")
    case True
    then obtain v where v: "token \<mu> t = Some v" and ch: "ch = Go"
      by auto
    let ?\<mu> = "\<mu>\<lparr>token := (token \<mu>)(t := None), cur := (cur \<mu>)(Rx := sup (cur \<mu> Rx) v)\<rparr>"
    from joint_announced [OF jt a] have "\<exists>h'. (RUnit, h') \<in> S \<and> channel_inv ?\<mu> g h'"
    proof (elim disjE conjE exE)
      assume n: "no_wakeup \<mu>" "\<forall>f. g \<noteq> TDone f"
      then have "v = bot"
        using v by (auto simp: no_wakeup_def)
      then show ?thesis
        using rx_stale_token [OF I a, of t] n by (intro exI [of _ h]) (simp add: S' rx_woken_def)
    next
      fix f
      assume f: "g = TDone f" "waiting f h (Thread t) \<mu>" "woken_up (Thread t) \<mu>"
      then have "full_view \<mu> v"
        using v by (simp add: woken_up_def)
      then have "channel_inv ?\<mu> g (ROwn (unparked (fin_val f)))"
        using rx_awakes [OF ok f(2)] I by (simp add: f(1) channel_inv_def)
      moreover have "(RUnit, ROwn (unparked (fin_val f))) \<in> S"
        by (cases f) (simp_all add: S' rx_woken_def)
      ultimately show ?thesis
        by blast
    qed
    then show ?thesis
      using v ch by (simp add: park_def)
  next
    case False
    then show ?thesis
      using I by (auto simp: park_def S' rx_woken_def split: choice.splits)
  qed
qed

section \<open>Soundness of the receiver's protocol\<close>

lemma rx_live:
  assumes "channel_inv \<mu> g h"
  shows "rx_load ord h = Some S \<Longrightarrow> \<not> freed \<mu>" "rx_store v ord h = Some S \<Longrightarrow> \<not> freed \<mu>"
    "rx_swap v ord h = Some S \<Longrightarrow> \<not> freed \<mu>" "rx_cas v n ord ord' h = Some S \<Longrightarrow> \<not> freed \<mu>"
  using assms joint_not_freed [of g h \<mu>] by (cases h; auto simp: channel_inv_def)+

lemma rx_proto_sound:
  assumes I: "channel_inv \<mu> g h" and S: "rx_proto h \<alpha> = Some S" 
    and ne: "\<not> drop_over_unparking \<alpha> \<mu>" "\<not> unsynchronised_wakeup \<alpha> ch \<mu>"
  shows "explained S (\<lambda>\<mu>' h'. channel_inv \<mu>' g h') (act Rx ch \<alpha> \<mu>)"
proof (cases "(h, \<alpha>)" rule: rx_proto.cases)
  case (1 h' ord)
  then have acc: "\<not> freed \<mu>"
    using S rx_live [OF I] by auto
  show ?thesis
    using 1 S ne rx_load_inv [OF I, of ord S]
    by (auto simp: acc access_live with_index_def load_at_def split: choice.splits)
next
  case (2 h' v ord)
  then obtain x where x: "h = ROwn x" "v \<noteq> UNPARKING" and "S = {(RUnit, ROwn (x\<lparr>o_val := v, lc := False\<rparr>))}"
    using S by (cases h) (auto split: if_splits)
  then show ?thesis
    using 2 S rx_live(2) [OF I, of v ord S] rx_store_inv [of \<mu> g x v] I
    by (simp add: access_live store_last_def)
next
  case (3 h' v ord)
  then have acc: "\<not> freed \<mu>"
    using S rx_live [OF I] by auto
  have "hist \<mu> \<noteq> []"
    using I views_okD(1) by (auto simp: channel_inv_def)
  then show ?thesis
    using 3 S ne rx_swap_inv [OF I, of v ord S]
    by (auto simp: acc access_live rmw_def rx_rmw_def last_conv_nth Let_def)
next
  case (4 h' x n ok_ord err_ord)
  then have acc: "\<not> freed \<mu>"
    using S rx_live [OF I] by auto
  have cas: "explained S (\<lambda>\<mu>' h'. channel_inv \<mu>' g h') (compare_exchange_at Rx x n ok_ord err_ord i (ticked Rx \<mu>))" for i
    using 4 S rx_cas_inv [OF I, of x n ok_ord err_ord S i]
    by (cases "compare_exchange_at Rx x n ok_ord err_ord i (ticked Rx \<mu>)")
      (auto simp: compare_exchange_at_def Let_def split: if_splits)
  show ?thesis
    using 4 by (auto simp: acc access_live with_index_def cas split: choice.splits)
next
  case (5 h')
  then obtain x where x: "h = ROwn x" and "S = {(RUnit, ROwn (x\<lparr>cm := cm x \<or> pe x, ca := ca x \<or> pe x\<rparr>))}"
    using S by (cases h) auto
  then show ?thesis
    using 5 rx_fence_inv [of \<mu> g x] I by simp
qed (use S I in \<open>auto simp: rx_write_waker_inv rx_drop_waker_inv rx_read_message_inv rx_drop_message_inv
      rx_dealloc_inv rx_park_inv channel_inv_environment 
      simp del: act.simps(8-15) split: choice.splits if_splits\<close>)

text \<open>Outside the two hazards, neither race window can be entered.\<close>

lemma quiet_not_overwritten:
  assumes "channel_inv \<mu> g (RQuiet wk)" "0 < vt (cur \<mu> Rx)"
  shows "val (hist \<mu> ! (vt (cur \<mu> Rx) - 1)) \<noteq> UNPARKING"
proof -
  have "UNPARKING \<notin> val ` set (hist \<mu>)" "vt (cur \<mu> Rx) < length (hist \<mu>)"
    using assms(1) views_okD(3) [of \<mu> Rx] by (cases g; auto simp: channel_inv_def inv_unfold)+
  then show ?thesis
    by (metis image_eqI less_imp_diff_less nth_mem)
qed

lemma no_unsynchronised_wakeup:
  assumes I: "channel_inv \<mu> g h" and S: "rx_proto h \<alpha> = Some S" and h: "\<forall>w. h \<noteq> RWait w"
    and vis: "\<forall>i. ch = At i \<longrightarrow> visible Rx i (ticked Rx \<mu>)"
  shows "\<not> unsynchronised_wakeup \<alpha> ch \<mu>"
proof
  assume u: "unsynchronised_wakeup \<alpha> ch \<mu>"
  then obtain i where i: "ch = At i" "val (hist \<mu> ! i) = MESSAGE" "\<alpha> = ALoad Relaxed"
    and j: "0 < vt (cur \<mu> Rx)" "val (hist \<mu> ! (vt (cur \<mu> Rx) - 1)) = UNPARKING"
      "val (hist \<mu> ! vt (cur \<mu> Rx)) = EMPTY"
    by (auto simp: unsynchronised_wakeup_def Let_def split: action.splits choice.splits)
  have jt: "joint g h \<mu>" and ok: "views_ok \<mu>"
    using I by (simp_all add: channel_inv_def)
  have hd: "rx_vals \<mu> ! 0 = EMPTY"
    using j(3) rx_vals_nth [of 0 \<mu>] rx_vals_last(2) [OF ok] by simp
  show False
  proof (cases h)
    case (RQuiet wk)
    then show False
      using quiet_not_overwritten I j by blast
  next
    case (ROwn x)
    then have "rx_vals \<mu> = [o_val x]"
      using jt by (auto simp: joint_ROwn owned_ok_def)
    moreover have "visible Rx i (ticked Rx \<mu>)"
      using vis i(1) by simp
    ultimately show False
      using rx_read [OF ok, of i Relaxed] hd i(2) by fastforce
  qed (use h S i hd rx_vals_head [OF jt] in auto)
qed

lemma no_drop_over_unparking:
  assumes I: "channel_inv \<mu> g h" and S: "rx_proto h \<alpha> = Some S" and h: "\<forall>w. h \<noteq> RUnpk w"
  shows "\<not> drop_over_unparking \<alpha> \<mu>"
proof
  assume "drop_over_unparking \<alpha> \<mu>"
  then obtain ord where \<alpha>: "\<alpha> = ASwap DISCONNECTED ord" and v: "val (last (hist \<mu>)) = UNPARKING"
    by (auto simp: drop_over_unparking_def split: action.splits)
  have "last (rx_vals \<mu>) = UNPARKING" and jt: "joint g h \<mu>"
    using v rx_vals_last(1) [of \<mu>] I by (simp_all add: channel_inv_def)
  then have "h \<noteq> RQuiet wk" for wk
    using joint_RQuiet [of g wk \<mu>] by auto
  then show False
    using S h jt \<open>last (rx_vals \<mu>) = UNPARKING\<close> by (cases h) (auto simp: \<alpha> joint_ROwn owned_ok_def)
qed

lemma rx_sound:
  assumes I: "channel_inv \<mu> g h" and S: "rx_proto_for c h \<alpha> = Some S" and ne: "\<not> racy c \<alpha> ch \<mu>"
  shows "explained S (\<lambda>\<mu>' h'. channel_inv \<mu>' g h') (act Rx ch \<alpha> \<mu>)"
proof -
  have S': "rx_proto h \<alpha> = Some S" and hz: "\<not> hazard c h \<alpha>"
    using S by (simp_all add: rx_proto_for_def split: if_splits)
  have "\<not> drop_over_unparking \<alpha> \<mu>"
  proof (cases "\<exists>w. h = RUnpk w")
    case True
    then show ?thesis
      using hz ne by (auto simp: racy_def drop_over_unparking_def split: action.splits)
  qed (use no_drop_over_unparking [OF I S'] in blast)
  moreover have "\<not> unsynchronised_wakeup \<alpha> ch \<mu>" if vis: "\<forall>i. ch = At i \<longrightarrow> visible Rx i (ticked Rx \<mu>)"
  proof (cases "\<exists>w. h = RWait w")
    case True
    then show ?thesis
      using hz ne by (auto simp: racy_def unsynchronised_wakeup_def split: action.splits)
  qed (use no_unsynchronised_wakeup [OF I S' _ vis] in blast)
  moreover have "act Rx ch \<alpha> \<mu> = Disabled" 
    if un: "ch = At i" "\<not> visible Rx i (ticked Rx \<mu>)" "unsynchronised_wakeup \<alpha> ch \<mu>" for i
  proof -
    obtain ord where \<alpha>: "\<alpha> = ALoad ord"
      using un(3) by (auto simp: unsynchronised_wakeup_def split: action.splits)
    then have "\<not> freed \<mu>"
      using rx_live(1) [OF I] S' by simp
    then show ?thesis
      using un \<alpha> by (simp add: access_live with_index_def load_at_def)
  qed
  ultimately show ?thesis
    using rx_proto_sound [OF I S', of ch] by (metis explained.simps(1))
qed

interpretation rx: live_endpoint Rx "rx_proto_for c" "\<lambda>\<mu> h g. channel_inv \<mu> g h" "racy c" for c
  by unfold_locales
    (blast dest: rx_sound explained_no_fault explained_step channel_inv_enabled)+

end
