(* ===== verification/Tx_Sound.thy ===== *)
theory Tx_Sound
  imports Rx_Sound
begin

text \<open>
  The sender's actions keep the invariant: its protocol is sound for the memory model.
\<close>

section \<open>Loads\<close>

lemma observe_Tx_stable:
  "no_wakeup (observe Tx ord i (ticked Tx \<mu>)) = no_wakeup \<mu>"
  "pre_state h (observe Tx ord i (ticked Tx \<mu>)) = pre_state h \<mu>"
proof -
  show "no_wakeup (observe Tx ord i (ticked Tx \<mu>)) = no_wakeup \<mu>"
    by (simp add: no_wakeup_def)
  show "pre_state h (observe Tx ord i (ticked Tx \<mu>)) = pre_state h \<mu>"
    by (cases h) simp_all
qed

lemma disconnected_last:
  assumes "views_ok \<mu>" "pre k h \<mu>" "i < length (hist \<mu>)" "val (hist \<mu> ! i) = DISCONNECTED"
  shows "h = RLeft" "Suc i = length (hist \<mu>)"
proof -
  show last: "Suc i = length (hist \<mu>)"
  proof (rule ccontr)
    assume "Suc i \<noteq> length (hist \<mu>)"
    with assms(3) have "i < length (butlast (hist \<mu>))"
      by simp
    then have "hist \<mu> ! i \<in> set (butlast (hist \<mu>))"
      by (metis nth_butlast nth_mem)
    with assms(2,4) show False
      by (metis image_eqI pre_def)
  qed
  then have "i = length (hist \<mu>) - 1"
    by simp
  then have "last (rx_vals \<mu>) = DISCONNECTED"
    using assms(4) rx_vals_last(1) [OF assms(1)] views_okD(1) [OF assms(1)] by (simp add: last_conv_nth)
  then show "h = RLeft"
    using assms(2) by (cases h) (auto simp: pre_def)
qed

lemma tx_load_inv:
  assumes I: "channel_inv \<mu> (TIdle k) h" and vis: "visible Tx i (ticked Tx \<mu>)"
  shows "k \<longrightarrow> val (hist \<mu> ! i) = DISCONNECTED"
    and "channel_inv (observe Tx ord i (ticked Tx \<mu>)) (TIdle (val (hist \<mu> ! i) = DISCONNECTED)) h"
proof -
  have ok: "views_ok \<mu>" and p: "pre k h \<mu>" "message \<mu> = None" "\<not> leaked \<mu>"
    using I by (simp_all add: channel_inv_def)
  have i: "vt (cur \<mu> Tx) \<le> i" "i < length (hist \<mu>)"
    using vis by (simp_all add: visible_def)
  show "k \<longrightarrow> val (hist \<mu> ! i) = DISCONNECTED"
  proof
    assume k
    with p i have "i = length (hist \<mu>) - 1" "rx_vals \<mu> = [DISCONNECTED]"
      by (auto simp: pre_def)
    then show "val (hist \<mu> ! i) = DISCONNECTED"
      using rx_vals_last(1) [OF ok] views_okD(1) [OF ok] by (simp add: last_conv_nth)
  qed
  have ok': "views_ok (observe Tx ord i (ticked Tx \<mu>))"
    using vis ok by simp
  have vt: "vt (cur (observe Tx ord i (ticked Tx \<mu>)) Tx) = i"
    using vt_observe [OF _ vis, of ord] ok by simp
  then have "pre (val (hist \<mu> ! i) = DISCONNECTED) h (observe Tx ord i (ticked Tx \<mu>))"
    using p(1) disconnected_last [OF ok p(1) i(2)] unfolding pre_def vt
    by (simp add: observe_Tx_stable)
  then show "channel_inv (observe Tx ord i (ticked Tx \<mu>)) (TIdle (val (hist \<mu> ! i) = DISCONNECTED)) h"
    using ok' p by (simp add: channel_inv_def)
qed

section \<open>Read-modify-writes\<close>

definition tx_rmw :: "ordering \<Rightarrow> u8 \<Rightarrow> 'm mem \<Rightarrow> 'm mem" where
  "tx_rmw ord v \<mu> = emit Tx ord v (last_rel \<mu>) (observe Tx ord (length (hist \<mu>) - 1) (ticked Tx \<mu>))"

lemma tx_rmw_fields [simp]:
  "message (tx_rmw ord v \<mu>) = message \<mu>" "waker_slot (tx_rmw ord v \<mu>) = waker_slot \<mu>"
  "freed (tx_rmw ord v \<mu>) = freed \<mu>" "msg_at (tx_rmw ord v \<mu>) = msg_at \<mu>"
  "wak_at (tx_rmw ord v \<mu>) = wak_at \<mu>" "token (tx_rmw ord v \<mu>) = token \<mu>"
  "woken (tx_rmw ord v \<mu>) = woken \<mu>" "dropped (tx_rmw ord v \<mu>) = dropped \<mu>"
  "leaked (tx_rmw ord v \<mu>) = leaked \<mu>" "cur (tx_rmw ord v \<mu>) Rx = cur \<mu> Rx"
  "message_ok f s (tx_rmw ord v \<mu>) = message_ok f s \<mu>"
  "no_wakeup (tx_rmw ord v \<mu>) = no_wakeup \<mu>"
  "length (hist (tx_rmw ord v \<mu>)) = Suc (length (hist \<mu>))"
  "val ` set (hist (tx_rmw ord v \<mu>)) = insert v (val ` set (hist \<mu>))"
  by (simp_all add: tx_rmw_def no_wakeup_def)

lemma tx_rmw_views:
  assumes "views_ok \<mu>"
  shows "views_ok (tx_rmw ord v \<mu>)" "rx_vals (tx_rmw ord v \<mu>) = rx_vals \<mu> @ [v]"
    "overwrote_unparking (tx_rmw ord v \<mu>) = overwrote_unparking \<mu>"
    "vt (cur (tx_rmw ord v \<mu>) Tx) = length (hist \<mu>)"
    "acquiring ord \<Longrightarrow> n \<le> vrx (last_rel \<mu>) \<Longrightarrow> n \<le> vrx (cur (tx_rmw ord v \<mu>) Tx)"
    "releasing ord \<Longrightarrow> vtx (cur (tx_rmw ord v \<mu>) Tx) \<le> vtx (last_rel (tx_rmw ord v \<mu>))"
    "releasing ord \<Longrightarrow> n \<le> vtx (cur \<mu> Tx) \<Longrightarrow> n \<le> vtx (last_rel (tx_rmw ord v \<mu>))"
proof -
  let ?i = "length (hist \<mu>) - 1"
  have ne: "hist \<mu> \<noteq> []" and last: "hist \<mu> ! ?i = last (hist \<mu>)"
    using views_okD(1) [OF assms] by (simp_all add: last_conv_nth)
  have vis: "visible Tx ?i (ticked Tx \<mu>)"
    using visible_last [of "ticked Tx \<mu>" Tx] assms by simp
  then have ok: "views_ok (observe Tx ord ?i (ticked Tx \<mu>))"
    using assms by simp
  have "vt (last_rel \<mu>) \<le> length (hist \<mu>)"
    using views_okD(2) [OF assms, of ?i] ne last by simp
  then show "views_ok (tx_rmw ord v \<mu>)"
    using views_ok_emit [OF ok] by (simp add: tx_rmw_def)
  show "rx_vals (tx_rmw ord v \<mu>) = rx_vals \<mu> @ [v]"
    unfolding tx_rmw_def rx_vals_emit_Tx [OF ok] by simp
  show "vt (cur (tx_rmw ord v \<mu>) Tx) = length (hist \<mu>)"
    using vt_observe [OF _ vis, of ord] assms by (simp add: tx_rmw_def)
  show "overwrote_unparking (tx_rmw ord v \<mu>) = overwrote_unparking \<mu>"
    using views_okD(3) [OF assms, of Rx] unfolding overwrote_unparking_def
    by (simp add: tx_rmw_def nth_append less_imp_diff_less)
qed (auto simp: tx_rmw_def le_max_iff_disj last_conv_nth views_okD(1) [OF assms])

text \<open>The operation that ends the sender's side, by the value it replaces.\<close>

lemma tx_ends:
  assumes ok: "views_ok \<mu>" and p: "pre k h \<mu>" and ord: "acquiring ord" "releasing ord"
    and msg: "message_ok f s \<mu>" "s = Present \<or> s = NoMsg"
    and v: "v = (case h of RQuiet _ \<Rightarrow> fin_val f | RRecv _ \<Rightarrow> UNPARKING | _ \<Rightarrow> x)"
  shows "\<exists>g'. (RU8 (val (last (hist \<mu>))), g') \<in> tx_end k f s \<and> joint g' h (tx_rmw ord v \<mu>)"
proof -
  have m: "message \<mu> = fin_msg f" "dropped \<mu> = []"
    using msg by (cases f; auto)+
  note [simp] = rx_vals_last(1) [OF ok] tx_rmw_views [OF ok] ord
  show ?thesis
  proof (cases h)
    case (RQuiet wk)
    then have "joint (TDone f) h (tx_rmw ord v \<mu>)"
      using p m v by (simp add: pre_def)
    moreover have "(RU8 (val (last (hist \<mu>))), TDone f) \<in> tx_end k f s"
      using p RQuiet by (auto simp: pre_def tx_end_def)
    ultimately show ?thesis
      by blast
  next
    case (RRecv w)
    then have "joint (TUnp f) h (tx_rmw ord v \<mu>)"
      using p m v views_okD(7) [OF ok] by (simp add: pre_def mid_def)
    moreover have "(RU8 (val (last (hist \<mu>))), TUnp f) \<in> tx_end k f s"
      using p RRecv by (auto simp: pre_def tx_end_def)
    ultimately show ?thesis
      by blast
  next
    case RLeft
    then have "joint (TOwn f s) h (tx_rmw ord v \<mu>)"
      using p msg by (simp add: pre_def)
    moreover have "(RU8 (val (last (hist \<mu>))), TOwn f s) \<in> tx_end k f s"
      using p RLeft by (simp add: pre_def tx_end_def)
    ultimately show ?thesis
      by blast
  qed (use p in \<open>auto simp: pre_def\<close>)
qed

lemma tx_publishes:
  assumes ok: "views_ok \<mu>" and j: "joint (TTook f w) h \<mu>" and ord: "releasing ord"
  shows "joint (TPost f w) h (tx_rmw ord (fin_val f) \<mu>)"
proof -
  note [simp] = tx_rmw_views [OF ok] ord
  show ?thesis
    using j by (cases h) (simp_all add: mid_def waiting_def)
qed

section \<open>The fields of the channel\<close>

lemma tx_write_message_inv:
  assumes I: "channel_inv \<mu> g h" and S: "tx_write_message m g = Some S"
  shows "explained S (\<lambda>\<mu>' g'. channel_inv \<mu>' g' h) (act Tx ch (AWriteMessage m) \<mu>)"
proof -
  obtain k where g: "g = TIdle k" and S': "S = {(RUnit, TWrote m k)}"
    using S by (cases g) auto
  let ?\<mu> = "(ticked Tx \<mu>)\<lparr>msg_at := (msg_at \<mu>)(Tx := Suc (vtx (cur \<mu> Tx))), message := Some m\<rparr>"
  have "rx_vals ?\<mu> = rx_vals \<mu>" "no_wakeup ?\<mu> = no_wakeup \<mu>"
    by (simp_all add: rx_vals_def no_wakeup_def)
  moreover from this(1) have "pre_state h ?\<mu> = pre_state h \<mu>"
    by (cases h) simp_all
  ultimately have "pre k h ?\<mu>" "\<not> freed \<mu>" "message \<mu> = None" "msg_at \<mu> Rx = 0" "\<not> leaked \<mu>"
    using I by (simp_all add: g channel_inv_def pre_def)
  moreover have "views_ok ?\<mu>"
    using I views_ok_ticked [of \<mu> Tx] by (simp add: channel_inv_def views_ok_def all_agents)
  ultimately show ?thesis
    by (simp add: S' access_def msg_access_def put_message_def channel_inv_def)
qed

lemma tx_read_waker_inv:
  assumes I: "channel_inv \<mu> g h" and S: "tx_read_waker g = Some S"
  shows "explained S (\<lambda>\<mu>' g'. channel_inv \<mu>' g' h) (act Tx ch AReadWaker \<mu>)"
proof -
  obtain f where g: "g = TUnp f" and S': "S = {(RWaker w, TTook f w) |w. True}"
    using S by (cases g) auto
  then obtain w where w: "mid f h w \<mu>" "waker_slot \<mu> = Some w" "wak_at \<mu> Rx \<le> vrx (cur \<mu> Tx)"
    using I by (auto simp: channel_inv_def)
  let ?\<mu> = "(ticked Tx \<mu>)\<lparr>wak_at := (wak_at \<mu>)(Tx := Suc (vtx (cur \<mu> Tx))), waker_slot := None\<rparr>"
  have "rx_vals ?\<mu> = rx_vals \<mu>" "no_wakeup ?\<mu> = no_wakeup \<mu>" "overwrote_unparking ?\<mu> = overwrote_unparking \<mu>"
    by (simp_all add: rx_vals_def no_wakeup_def overwrote_unparking_def)
  then have "mid f h w ?\<mu>"
    using w(1) by (cases h) (simp_all add: mid_def)
  moreover have "views_ok ?\<mu>"
    using I views_ok_ticked [of \<mu> Tx] by (simp add: channel_inv_def views_ok_def all_agents)
  moreover have "\<not> freed \<mu>" "\<not> leaked \<mu>"
    using w(1) I by (simp_all add: mid_def channel_inv_def)
  ultimately show ?thesis
    using w by (auto simp: S' access_def wak_access_def move_waker_def channel_inv_def)
qed

lemma tx_owned:
  assumes "channel_inv \<mu> (TOwn f s) h"
  shows "\<not> freed \<mu>" "\<not> leaked \<mu>" "msg_at \<mu> Rx \<le> vrx (cur \<mu> Tx)" "vrx (cur \<mu> Rx) \<le> vrx (cur \<mu> Tx)"
    "waker_slot \<mu> = None" "message_ok f s \<mu>" "h = RLeft" "views_ok \<mu>"
  using assms views_okD(9) [of \<mu>] by (auto simp: channel_inv_def)

lemma tx_owned_inv:
  assumes I: "channel_inv \<mu> (TOwn f s) h" and ok: "message_ok f s' (\<mu>\<lparr>message := m, dropped := d\<rparr>)"
  shows "channel_inv ((ticked Tx \<mu>)\<lparr>msg_at := (msg_at \<mu>)(Tx := Suc (vtx (cur \<mu> Tx))), message := m, dropped := d\<rparr>)
    (TOwn f s') h" (is "channel_inv ?\<mu> _ _")
proof -
  have "message_ok f s' ?\<mu>"
    using ok by (cases s') simp_all
  moreover have "views_ok ?\<mu>"
    using tx_owned(8) [OF I] views_ok_ticked [of \<mu> Tx] by (simp add: views_ok_def all_agents)
  ultimately show ?thesis
    using tx_owned [OF I] by (simp add: channel_inv_def)
qed

lemma tx_message_inv:
  assumes I: "channel_inv \<mu> g h"
  shows "tx_message (\<lambda>m. (RMsg m, Taken m)) g = Some S \<Longrightarrow>
      explained S (\<lambda>\<mu>' g'. channel_inv \<mu>' g' h) (act Tx ch AReadMessage \<mu>)"
    and "tx_message (\<lambda>m. (RMsg m, Present)) g = Some S \<Longrightarrow>
      explained S (\<lambda>\<mu>' g'. channel_inv \<mu>' g' h) (act Tx ch ARefMessage \<mu>)"
    and "tx_message (\<lambda>m. (RUnit, Discarded)) g = Some S \<Longrightarrow>
      explained S (\<lambda>\<mu>' g'. channel_inv \<mu>' g' h) (act Tx ch ADropMessage \<mu>)"
proof -
  have g: "\<exists>m. g = TOwn (Sent m) Present \<and> S = {(fst (eff m), TOwn (Sent m) (snd (eff m)))}"
    if "tx_message eff g = Some S" for eff
    using that by (cases "(eff, g)" rule: tx_message.cases) auto
  have own: "\<not> freed \<mu>" "\<not> leaked \<mu>" "msg_at \<mu> Rx \<le> vrx (cur \<mu> Tx)" "message \<mu> = Some m" "dropped \<mu> = []"
    if "g = TOwn (Sent m) Present" for m
    using tx_owned [of \<mu> "Sent m" Present h] I that by simp_all
  show "explained S (\<lambda>\<mu>' g'. channel_inv \<mu>' g' h) (act Tx ch AReadMessage \<mu>)"
    if msg: "tx_message (\<lambda>m. (RMsg m, Taken m)) g = Some S"
  proof -
    obtain m where m: "g = TOwn (Sent m) Present" "S = {(RMsg m, TOwn (Sent m) (Taken m))}"
      using g [OF msg] by auto
    then show ?thesis
      using I own [OF m(1)] tx_owned_inv [of \<mu> "Sent m" Present h "Taken m", where m = None and d = "[]"]
      by (simp add: access_def msg_access_def move_message_def)
  qed
  show "explained S (\<lambda>\<mu>' g'. channel_inv \<mu>' g' h) (act Tx ch ARefMessage \<mu>)"
    if msg: "tx_message (\<lambda>m. (RMsg m, Present)) g = Some S"
  proof -
    obtain m where m: "g = TOwn (Sent m) Present" "S = {(RMsg m, TOwn (Sent m) Present)}"
      using g [OF msg] by auto
    then have "channel_inv ((ticked Tx \<mu>)\<lparr>msg_at := (msg_at \<mu>)(Tx := Suc (vtx (cur \<mu> Tx)))\<rparr>) g h"
      using I own [OF m(1)] tx_owned_inv [of \<mu> "Sent m" Present h Present, where m = "Some m" and d = "[]"] by simp
    then show ?thesis
      using own [OF m(1)] m by (simp add: access_def msg_access_def borrow_message_def)
  qed
  show "explained S (\<lambda>\<mu>' g'. channel_inv \<mu>' g' h) (act Tx ch ADropMessage \<mu>)"
    if msg: "tx_message (\<lambda>m. (RUnit, Discarded)) g = Some S"
  proof -
    obtain m where m: "g = TOwn (Sent m) Present" "S = {(RUnit, TOwn (Sent m) Discarded)}"
      using g [OF msg] by auto
    then show ?thesis
      using I own [OF m(1)] tx_owned_inv [of \<mu> "Sent m" Present h Discarded, where m = None and d = "[m]"]
      by (simp add: access_def msg_access_def drop_message_in_place_def)
  qed
qed

lemma tx_dealloc_inv:
  assumes I: "channel_inv \<mu> g h" and S: "tx_dealloc g = Some S"
  shows "explained S (\<lambda>\<mu>' g'. channel_inv \<mu>' g' h) (act Tx ch ADealloc \<mu>)"
proof -
  obtain f s where g: "g = TOwn f s" and s: "s \<noteq> Present" "S = {(RUnit, TFreed f s)}"
    using S by (cases g) (auto split: if_splits)
  note own = tx_owned [OF I [unfolded g]]
  let ?\<mu> = "(ticked Tx \<mu>)\<lparr>freed := True\<rparr>"
  have "message_ok f s ?\<mu>"
    using own(6) by (cases s) simp_all
  then have "channel_inv ?\<mu> (TFreed f s) h"
    using own views_ok_ticked [of \<mu> Tx] by (simp add: channel_inv_def views_ok_def)
  moreover have "act Tx ch ADealloc \<mu> = Step (RUnit, ?\<mu>)"
    using own message_ok_None [OF own(6) s(1)] by (simp add: access_def free_channel_def)
  ultimately show ?thesis
    by (simp add: s)
qed

section \<open>Waking the receiver\<close>

lemma tx_wakes:
  assumes I: "channel_inv \<mu> (TPost f w) h"
    and w: "case w of Thread t \<Rightarrow> \<mu>' = unpark_thread Tx t \<mu> | Task i \<Rightarrow> \<mu>' = \<mu>\<lparr>woken := woken \<mu> @ [i]\<rparr>"
  shows "channel_inv \<mu>' (TDone f) h"
proof -
  have eqs: "hist \<mu>' = hist \<mu>" "message \<mu>' = message \<mu>" "waker_slot \<mu>' = waker_slot \<mu>" "freed \<mu>' = freed \<mu>"
    "cur \<mu>' = cur \<mu>" "acq \<mu>' = acq \<mu>" "msg_at \<mu>' = msg_at \<mu>" "wak_at \<mu>' = wak_at \<mu>" "dropped \<mu>' = dropped \<mu>"
    "leaked \<mu>' = leaked \<mu>"
    using w by (auto simp: unpark_thread_def split: waker.splits)
  then have eqs': "views_ok \<mu>' = views_ok \<mu>" "rx_vals \<mu>' = rx_vals \<mu>" "overwrote_unparking \<mu>' = overwrote_unparking \<mu>"
    "message_ok f' s \<mu>' = message_ok f' s \<mu>" "full_view \<mu>' v = full_view \<mu> v" for f' s v
    by (simp_all add: views_ok_def rx_vals_def overwrote_unparking_def full_view_def cong: message_ok_cong)
  have own: "rx_owner f h \<mu>' = rx_owner f h \<mu>" and wait: "waiting f h w' \<mu>' = waiting f h w' \<mu>" for w'
    by (cases h; simp add: owned_ok_def waiting_def eqs eqs')+
  have "woken_up w \<mu>'" if n: "no_wakeup \<mu>" "Suc (vt (cur \<mu> Tx)) = length (hist \<mu>)"
  proof -
    have "token \<mu> t = None \<or> token \<mu> t = Some bot" for t
      using n(1) by (cases "token \<mu> t") (auto simp: no_wakeup_def)
    then have "unpark_thread Tx t \<mu> = \<mu>\<lparr>token := (token \<mu>)(t := Some (cur \<mu> Tx))\<rparr>" for t
      by (metis unpark_thread_def option.simps(4,5) sup_bot_right)
    then show ?thesis
      using n w by (auto simp: woken_up_def eqs' no_wakeup_def full_view_def split: waker.splits if_splits)
  qed
  then show ?thesis
    using I by (auto simp: channel_inv_def eqs eqs' own wait)
qed

section \<open>Soundness of the sender's protocol\<close>

lemma tx_rmw_act:
  assumes "views_ok \<mu>" "\<not> freed \<mu>"
  shows "access Tx \<mu> (rmw Tx f ord) = Step (RU8 (val (last (hist \<mu>))), tx_rmw ord (f (val (last (hist \<mu>)))) \<mu>)"
  using assms views_okD(1) [OF assms(1)]
  by (simp add: access_def rmw_def tx_rmw_def Let_def last_conv_nth)

lemma tx_end_inv:
  assumes I: "channel_inv \<mu> g h" and g: "g = TWrote m k \<and> f = Sent m \<and> s = Present \<or> g = TIdle k \<and> f = Dropped \<and> s = NoMsg"
    and F: "F EMPTY = fin_val f" "F RECEIVING = UNPARKING"
  shows "explained (tx_end k f s) (\<lambda>\<mu>' g'. channel_inv \<mu>' g' h) (access Tx \<mu> (rmw Tx F AcqRel))"
proof -
  have ok: "views_ok \<mu>" and p: "pre k h \<mu>" and lk: "\<not> leaked \<mu>" and msg: "message_ok f s \<mu>" "s = Present \<or> s = NoMsg"
    using I g by (auto simp: channel_inv_def pre_def)
  let ?v = "F (val (last (hist \<mu>)))"
  have "?v = (case h of RQuiet _ \<Rightarrow> fin_val f | RRecv _ \<Rightarrow> UNPARKING | _ \<Rightarrow> ?v)"
    using p rx_vals_last(1) [OF ok] F by (cases h) (simp_all add: pre_def)
  then obtain g' where "(RU8 (val (last (hist \<mu>))), g') \<in> tx_end k f s" "joint g' h (tx_rmw AcqRel ?v \<mu>)"
    using tx_ends [OF ok p _ _ msg, of AcqRel ?v ?v] by auto
  moreover have "\<not> freed \<mu>"
    using p by (simp add: pre_def)
  ultimately show ?thesis
    using lk tx_rmw_views(1) [OF ok] by (auto simp: tx_rmw_act [OF ok] channel_inv_def)
qed

lemma tx_sound:
  assumes I: "channel_inv \<mu> g h" and S: "tx_proto g \<alpha> = Some S"
  shows "explained S (\<lambda>\<mu>' g'. channel_inv \<mu>' g' h) (act Tx ch \<alpha> \<mu>)"
proof (cases "(g, \<alpha>)" rule: tx_proto.cases)
  case (1 g' ord)
  then obtain k where k: "g = TIdle k" "S = {(RU8 v, TIdle (v = DISCONNECTED)) |v. k \<longrightarrow> v = DISCONNECTED}"
    using S by (cases g) auto
  then have "\<not> freed \<mu>"
    using I by (simp add: channel_inv_def pre_def)
  then show ?thesis
    using 1 k I tx_load_inv [of \<mu> k h] by (auto simp: access_live with_index_def load_at_def split: choice.splits)
next
  case (2 g' v ord)
  then obtain m k where "g = TWrote m k" "v = 1" "ord = AcqRel" "S = tx_end k (Sent m) Present"
    using S by (cases g) (auto split: if_splits)
  then show ?thesis
    using 2 tx_end_inv [OF I, of m k "Sent m" Present "\<lambda>x. x + 1"] by simp
next
  case (3 g' v ord)
  then obtain k where "g = TIdle k" "v = 1" "ord = AcqRel" "S = tx_end k Dropped NoMsg"
    using S by (cases g) (auto split: if_splits)
  then show ?thesis
    using 3 tx_end_inv [OF I, of undefined k Dropped NoMsg "\<lambda>x. xor x 1"] by simp
next
  case (4 g' v ord)
  then obtain f w where g: "g = TTook f w" "v = fin_val f" "releasing ord" "S = {(RU8 u, TPost f w) |u. True}"
    using S by (cases g) (auto split: if_splits)
  then have ok: "views_ok \<mu>" "\<not> freed \<mu>" "\<not> leaked \<mu>"
    using I by (simp_all add: channel_inv_def mid_def)
  have "joint (TPost f w) h (tx_rmw ord v \<mu>)"
    using tx_publishes [OF ok(1)] I g by (simp add: channel_inv_def)
  then show ?thesis
    using 4 g ok tx_rmw_views(1) [OF ok(1)] by (auto simp: tx_rmw_act channel_inv_def simp del: joint.simps)
next
  case (10 g' t)
  then obtain f where "g = TPost f (Thread t)" "S = {(RUnit, TDone f)}"
    using S by (cases g) (auto split: if_splits)
  then show ?thesis
    using 10 tx_wakes [of \<mu> f "Thread t" h] I by simp
next
  case (11 g' i)
  then obtain f where "g = TPost f (Task i)" "S = {(RUnit, TDone f)}"
    using S by (cases g) (auto split: if_splits)
  then show ?thesis
    using 11 tx_wakes [of \<mu> f "Task i" h] I by simp
qed (use S I in \<open>auto simp: tx_write_message_inv tx_read_waker_inv tx_message_inv tx_dealloc_inv
      simp del: act.simps(8-15) tx_message.simps\<close>)

lemma tx_message_fin:
  "tx_message eff g = Some S \<Longrightarrow> (r, g') \<in> S \<Longrightarrow> tx_fin g' = tx_fin g"
  by (cases "(eff, g)" rule: tx_message.cases) auto

lemma tx_proto_vouched:
  assumes "tx_proto_for C g \<alpha> = Some S" "vouched C g" "(r, g') \<in> S"
  shows "vouched C g'"
  using assms
  by (cases "(g, \<alpha>)" rule: tx_proto.cases; cases g)
    (auto simp: tx_proto_for_def vouched_def tx_end_def tx_message_fin simp del: tx_message.simps
      split: if_splits)

lemma tx_vouched_sound:
  assumes "channel_inv \<mu> g h \<and> vouched C g" "tx_proto_for C g \<alpha> = Some S"
  shows "explained S (\<lambda>\<mu>' g'. channel_inv \<mu>' g' h \<and> vouched C g') (act Tx ch \<alpha> \<mu>)"
proof -
  have "explained S (\<lambda>\<mu>' g'. channel_inv \<mu>' g' h) (act Tx ch \<alpha> \<mu>)"
    using assms tx_sound by (auto simp: tx_proto_for_def split: if_splits)
  then show ?thesis
    using tx_proto_vouched [OF assms(2)] assms(1)
    by (cases "act Tx ch \<alpha> \<mu>") auto
qed

interpretation tx: live_endpoint Tx "tx_proto_for C" "\<lambda>\<mu> g h. channel_inv \<mu> g h \<and> vouched C g" "\<lambda>_ _ _. False" for C
proof (unfold_locales, goal_cases)
  case (1 \<mu> g h \<alpha> S ch f)
  then show ?case
    using tx_vouched_sound explained_no_fault by blast
next
  case (2 \<mu> g h \<alpha> S ch r \<mu>')
  then show ?case
    using tx_vouched_sound explained_step by blast
next
  case (3 \<mu> g h \<alpha> S)
  then show ?case
    using channel_inv_enabled by blast
qed

end
