(* ===== verification/Safety.thy ===== *)
theory Safety
  imports Contracts Tx_Sound
begin

text \<open>
  The invariant of a channel in use: the memory agrees with what the two endpoints know, each
  endpoint is between two calls or runs a program that is safe for it, and the calls that have
  returned form a trace of the contracts. It holds in every reachable state.
\<close>

section \<open>Traces of contracts\<close>

text \<open>A log, the value in hand after it and the knowledge the contracts leave.\<close>

inductive tx_trace :: "('m tx_call \<times> 'm tx_ret) list \<Rightarrow> tx_handle \<Rightarrow> 'm tx_ghost \<Rightarrow> bool" where
  tx_none: "tx_trace [] TxSender (TIdle False)"
| tx_call: "tx_trace l v g \<Longrightarrow> tx_owns v c \<Longrightarrow> tx_contract c g g' r \<Longrightarrow>
    tx_trace (l @ [(c, r)]) (tx_after c r) g'"

inductive rx_trace :: "(rx_call \<times> 'm rx_ret) list \<Rightarrow> rx_handle \<Rightarrow> 'm rx_ghost \<Rightarrow> bool" where
  rx_none: "rx_trace [] RxReceiver (RQuiet None)"
| rx_none_async: "rx_trace [] RxAsync (RQuiet None)"
| rx_call: "rx_trace l v h \<Longrightarrow> rx_owns v c \<Longrightarrow> rx_meets c h h' r \<Longrightarrow>
    rx_trace (l @ [(c, r)]) (rx_after c) h'"

lemma tx_trace_idle: "tx_trace l v g \<Longrightarrow> tx_idle v g"
  by (induction rule: tx_trace.induct) (auto intro: tx_contract_idle)

lemma rx_trace_idle: "rx_trace l v h \<Longrightarrow> rx_idle v h"
  by (induction rule: rx_trace.induct) (auto simp: rx_meets_def)

section \<open>The invariant\<close>

definition tx_calls :: "'m world \<Rightarrow> 'm tx_call set" where
  "tx_calls w = fst ` set (tx_log w) \<union> fst ` set_option (tx_run w)"

definition tx_ok :: "'m world \<Rightarrow> 'm tx_ghost \<Rightarrow> bool" where
  "tx_ok w g \<longleftrightarrow> vouched (tx_calls w) g \<and>
     (\<exists>g0. tx_trace (tx_log w) (tx_handle w) g0 \<and>
       (case tx_run w of
          None \<Rightarrow> g = g0
        | Some (c, th) \<Rightarrow> tx_owns (tx_handle w) c \<and> (g0, g) \<in> (moves tx_proto)\<^sup>* \<and>
            safe_thread (tx_proto_for (tx_calls w)) (tx_contract c g0) th g))"

definition rx_calls :: "'m world \<Rightarrow> rx_call set" where
  "rx_calls w = fst ` set (rx_log w) \<union> fst ` set_option (rx_run w)"

definition departed :: "rx_call set \<Rightarrow> 'm rx_ghost \<Rightarrow> bool" where
  "departed C h \<longleftrightarrow> (h = RLeft \<longrightarrow> (\<exists>c\<in>C. leaving c))"

definition rx_ok :: "'m world \<Rightarrow> 'm rx_ghost \<Rightarrow> bool" where
  "rx_ok w h \<longleftrightarrow> departed (rx_calls w) h \<and>
     (\<exists>h0. rx_trace (rx_log w) (rx_handle w) h0 \<and>
       (case rx_run w of
          None \<Rightarrow> h = h0
        | Some (c, th) \<Rightarrow> rx_owns (rx_handle w) c \<and> (h0, h) \<in> (moves rx_proto)\<^sup>* \<and>
            safe_thread (rx_proto_for c) (rx_meets c h0) th h))"

definition world_inv :: "'m world \<Rightarrow> bool" where
  "world_inv w \<longleftrightarrow> (\<exists>g h. channel_inv (mem w) g h \<and> tx_ok w g \<and> rx_ok w h)"

text \<open>The same, for a given knowledge of the receiver, which the steps of the sender leave as it is.\<close>

definition world_at :: "'m world \<Rightarrow> 'm rx_ghost \<Rightarrow> bool" where
  "world_at w h \<longleftrightarrow> (\<exists>g. channel_inv (mem w) g h \<and> tx_ok w g \<and> rx_ok w h)"

lemma world_inv_at: "world_inv w \<longleftrightarrow> (\<exists>h. world_at w h)"
  by (auto simp: world_inv_def world_at_def)

lemma world_inv_init: "world_inv (channel parked)" "world_inv (async_channel parked)"
  using channel_inv_init [of parked]
  by (auto simp: world_inv_def channel_def async_channel_def tx_ok_def rx_ok_def vouched_def departed_def
      intro!: exI [of _ "TIdle False"] exI [of _ "RQuiet None"] tx_trace.intros rx_trace.intros)

subsection \<open>Framing\<close>

lemma tx_ok_frame [simp]:
  "tx_ok (w\<lparr>mem := \<mu>\<rparr>) g = tx_ok w g" "tx_ok (w\<lparr>rx_run := x\<rparr>) g = tx_ok w g"
  "tx_ok (w\<lparr>rx_handle := v\<rparr>) g = tx_ok w g" "tx_ok (w\<lparr>rx_log := l\<rparr>) g = tx_ok w g"
  by (simp_all add: tx_ok_def tx_calls_def split: option.split)

lemma rx_ok_frame [simp]:
  "rx_ok (w\<lparr>mem := \<mu>\<rparr>) h = rx_ok w h" "rx_ok (w\<lparr>tx_run := x\<rparr>) h = rx_ok w h"
  "rx_ok (w\<lparr>tx_handle := t\<rparr>) h = rx_ok w h" "rx_ok (w\<lparr>tx_log := l\<rparr>) h = rx_ok w h"
  by (simp_all add: rx_ok_def rx_calls_def split: option.split)

subsection \<open>Calls, steps and returns of the sender\<close>

lemma moves_for:
  "(moves (tx_proto_for C))\<^sup>* \<subseteq> (moves tx_proto)\<^sup>*" "(moves (rx_proto_for c))\<^sup>* \<subseteq> (moves rx_proto)\<^sup>*"
  by (intro rtrancl_mono; fastforce simp: moves_def tx_proto_for_def rx_proto_for_def split: if_splits)+

lemma vouched_mono: "vouched C g \<Longrightarrow> C \<subseteq> C' \<Longrightarrow> vouched C' g"
  by (auto simp: vouched_def)

lemma tx_invoke_at:
  assumes "world_at w h" "tx_invoke c w = Step w'"
  shows "world_at w' h"
proof -
  have w': "tx_run w = None" "tx_owns (tx_handle w) c" "w' = w\<lparr>tx_run := Some (c, start (tx_body c))\<rparr>"
    using assms(2) by (auto split: option.splits if_splits)
  obtain g where inv: "channel_inv (mem w) g h" "tx_ok w g" "rx_ok w h"
    using assms(1) by (auto simp: world_at_def)
  have g: "tx_trace (tx_log w) (tx_handle w) g" "vouched (tx_calls w) g"
    using inv(2) w'(1) by (auto simp: tx_ok_def)
  have "safe_thread (tx_proto_for (tx_calls w')) (tx_contract c g) (start (tx_body c)) g"
    using tx_contract_holds [OF tx_trace_idle [OF g(1)] w'(2), of "tx_calls w'"] safe_thread_start
    by (auto simp: w'(3) tx_calls_def)
  moreover have "vouched (tx_calls w') g"
    using vouched_mono [OF g(2)] w' by (auto simp: tx_calls_def)
  ultimately have "tx_ok w' g"
    using g w' by (auto simp: tx_ok_def)
  then show ?thesis
    using inv w' by (auto simp: world_at_def)
qed

lemma tx_step_at:
  assumes "world_at w h" "tx_step ch w = Step w'"
  shows "world_at w' h"
proof -
  obtain c th th' \<mu>' where run: "tx_run w = Some (c, th)" "run_thread Tx ch th (mem w) = Step (th', \<mu>')"
    and w': "w' = w\<lparr>tx_run := Some (c, th'), mem := \<mu>'\<rparr>"
    using assms(2) by (auto split: option.splits outcome.splits prod.splits)
  obtain g where inv: "channel_inv (mem w) g h" "tx_ok w g" "rx_ok w h"
    using assms(1) by (auto simp: world_at_def)
  then obtain g0 where g0: "tx_trace (tx_log w) (tx_handle w) g0" "tx_owns (tx_handle w) c"
    "(g0, g) \<in> (moves tx_proto)\<^sup>*"
    and safe: "safe_thread (tx_proto_for (tx_calls w)) (tx_contract c g0) th g" and v: "vouched (tx_calls w) g"
    using run(1) by (auto simp: tx_ok_def)
  obtain g' where g': "channel_inv \<mu>' g' h" "vouched (tx_calls w) g'"
    "safe_thread (tx_proto_for (tx_calls w)) (tx_contract c g0) th' g'"
    and mv: "(g, g') \<in> (moves (tx_proto_for (tx_calls w)))\<^sup>*"
    using tx.thread_preserves [OF _ safe _ run(2), of h] inv(1) v by blast
  have "(g0, g') \<in> (moves tx_proto)\<^sup>*"
    using g0(3) mv moves_for(1) by (meson rtrancl_trans subsetD)
  moreover have "tx_calls w' = tx_calls w"
    using run(1) w' by (simp add: tx_calls_def)
  ultimately have "tx_ok w' g'"
    using g' g0 w' by (auto simp: tx_ok_def)
  with g'(1) inv(3) w' show ?thesis
    by (auto simp: world_at_def)
qed

lemma tx_return_at:
  assumes "world_at w h" "tx_return w = Step w'"
  shows "world_at w' h"
proof -
  obtain c r fr where run: "tx_run w = Some (c, Return r, fr)"
    and w': "w' = w\<lparr>tx_run := None, tx_handle := tx_after c r, tx_log := tx_log w @ [(c, r)]\<rparr>"
    using assms(2) by (auto split: option.splits prog.splits)
  obtain g where inv: "channel_inv (mem w) g h" "tx_ok w g" "rx_ok w h"
    using assms(1) by (auto simp: world_at_def)
  then obtain g0 where g0: "tx_trace (tx_log w) (tx_handle w) g0" "tx_owns (tx_handle w) c"
    and "tx_contract c g0 g r" and v: "vouched (tx_calls w) g"
    using run safe_thread_Return by (fastforce simp: tx_ok_def)
  then have "tx_trace (tx_log w') (tx_handle w') g"
    using w' tx_trace.tx_call by auto
  moreover have "tx_calls w' = tx_calls w"
    using run w' by (auto simp: tx_calls_def)
  ultimately have "tx_ok w' g"
    using v w' by (auto simp: tx_ok_def)
  with inv w' show ?thesis
    by (auto simp: world_at_def)
qed

text \<open>The steps of the sending side.\<close>

fun by_tx :: "'m label \<Rightarrow> bool" where
  "by_tx (TxCall c) = True"
| "by_tx (TxRun ch) = True"
| "by_tx TxReturn = True"
| "by_tx _ = False"

lemma tx_step_keeps:
  assumes "world_at w h" "step li l w = Step w'" "by_tx l"
  shows "world_at w' h"
  using assms tx_invoke_at tx_step_at tx_return_at
  by (cases l) (auto simp del: tx_invoke.simps tx_step.simps tx_return.simps)

subsection \<open>Calls, steps and returns of the receiver\<close>

lemma rx_moves_leave:
  assumes "(h, h') \<in> moves (rx_proto_for c)" "h' = RLeft" "\<not> leaving c"
  shows "h = RLeft"
proof -
  obtain \<alpha> S r where "rx_proto_for c h \<alpha> = Some S" "(r, RLeft) \<in> S"
    using assms(1,2) by (auto simp: moves_def)
  then show ?thesis
    using assms(3)
    by (cases "(h, \<alpha>)" rule: rx_proto.cases; cases h)
      (auto simp: rx_proto_for_def finals_def cas_finals_def rx_woken_def split: if_splits option.splits)
qed

lemma departed_moves:
  assumes "(h, h') \<in> (moves (rx_proto_for c))\<^sup>*" "departed C h" "c \<in> C"
  shows "departed C h'"
  using assms(1,2)
  by (rule moves_keep) (use assms(3) rx_moves_leave in \<open>auto simp: departed_def\<close>)

lemma rx_invoke_inv:
  assumes "world_inv w" "rx_invoke li c w = Step w'"
  shows "world_inv w'"
proof -
  have w': "rx_run w = None" "rx_owns (rx_handle w) c" "w' = w\<lparr>rx_run := Some (c, start (rx_body li c))\<rparr>"
    using assms(2) by (auto split: option.splits if_splits)
  obtain g h where inv: "channel_inv (mem w) g h" "tx_ok w g" "rx_ok w h"
    using assms(1) by (auto simp: world_inv_def)
  have h: "rx_trace (rx_log w) (rx_handle w) h" and d: "departed (rx_calls w) h"
    using inv(3) w'(1) by (auto simp: rx_ok_def)
  have "safe_thread (rx_proto_for c) (rx_meets c h) (start (rx_body li c)) h"
    by (rule safe_thread_start [OF rx_contract_holds [OF rx_trace_idle [OF h] w'(2)]])
  moreover have "departed (rx_calls w') h"
    using d w' by (auto simp: departed_def rx_calls_def)
  ultimately have "rx_ok w' h"
    using h w' by (auto simp: rx_ok_def)
  then show ?thesis
    using inv w' by (auto simp: world_inv_def)
qed

lemma rx_step_inv:
  assumes "world_inv w" "\<not> in_race_window (RxRun ch) w" "rx_step ch w = Step w'"
  shows "world_inv w'"
proof -
  obtain c th th' \<mu>' where run: "rx_run w = Some (c, th)" "run_thread Rx ch th (mem w) = Step (th', \<mu>')"
    and w': "w' = w\<lparr>rx_run := Some (c, th'), mem := \<mu>'\<rparr>"
    using assms(3) by (auto split: option.splits outcome.splits prod.splits)
  obtain g h where inv: "channel_inv (mem w) g h" "tx_ok w g" "rx_ok w h"
    using assms(1) by (auto simp: world_inv_def)
  then obtain h0 where h0: "rx_trace (rx_log w) (rx_handle w) h0" "rx_owns (rx_handle w) c"
    "(h0, h) \<in> (moves rx_proto)\<^sup>*"
    and safe: "safe_thread (rx_proto_for c) (rx_meets c h0) th h" and d: "departed (rx_calls w) h"
    using run(1) by (auto simp: rx_ok_def)
  have "\<not> racy c \<alpha> ch (mem w)" if "next_action th = Some \<alpha>" for \<alpha>
    using that assms(2) run(1) by (cases th rule: next_action.cases) auto
  then obtain h' where h': "channel_inv \<mu>' g h'" "safe_thread (rx_proto_for c) (rx_meets c h0) th' h'"
    and mv: "(h, h') \<in> (moves (rx_proto_for c))\<^sup>*"
    using rx.thread_preserves [OF inv(1) safe _ run(2)] by blast
  have "(h0, h') \<in> (moves rx_proto)\<^sup>*"
    using h0(3) mv moves_for(2) by (meson rtrancl_trans subsetD)
  moreover have "departed (rx_calls w) h'"
    by (rule departed_moves [OF mv d]) (use run(1) in \<open>simp add: rx_calls_def\<close>)
  then have "departed (rx_calls w') h'"
    using run(1) w' by (simp add: rx_calls_def)
  ultimately have "rx_ok w' h'"
    using h0 h' w' by (auto simp: rx_ok_def)
  with h'(1) inv(2) w' show ?thesis
    by (auto simp: world_inv_def)
qed

lemma rx_return_inv:
  assumes "world_inv w" "rx_return w = Step w'"
  shows "world_inv w'"
proof -
  obtain c r fr where run: "rx_run w = Some (c, Return r, fr)"
    and w': "w' = w\<lparr>rx_run := None, rx_handle := rx_after c, rx_log := rx_log w @ [(c, r)]\<rparr>"
    using assms(2) by (auto split: option.splits prog.splits)
  obtain g h where inv: "channel_inv (mem w) g h" "tx_ok w g" "rx_ok w h"
    using assms(1) by (auto simp: world_inv_def)
  then obtain h0 where "rx_trace (rx_log w) (rx_handle w) h0" "rx_owns (rx_handle w) c" "rx_meets c h0 h r"
    and d: "departed (rx_calls w) h"
    using run safe_thread_Return by (fastforce simp: rx_ok_def)
  then have "rx_trace (rx_log w') (rx_handle w') h"
    using w' rx_trace.rx_call by auto
  moreover have "rx_calls w' = rx_calls w"
    using run w' by (auto simp: rx_calls_def)
  ultimately have "rx_ok w' h"
    using d w' by (auto simp: rx_ok_def)
  with inv w' show ?thesis
    by (auto simp: world_inv_def)
qed

section \<open>Reachable states\<close>

lemma step_inv:
  assumes "world_inv w" "\<not> in_race_window l w" "step li l w = Step w'"
  shows "world_inv w'"
proof (cases "by_tx l")
  case True
  then show ?thesis
    using assms by (auto simp: world_inv_at intro: tx_step_keeps)
next
  case False
  then show ?thesis
    using assms rx_invoke_inv rx_step_inv rx_return_inv
    by (cases l) (auto simp del: rx_invoke.simps rx_step.simps rx_return.simps in_race_window.simps)
qed

lemma reachable_inv: "reachable li w \<Longrightarrow> world_inv w"
  by (induction rule: reachable.induct) (auto intro: world_inv_init step_inv)

lemma tx_step_no_fault:
  assumes "world_inv w"
  shows "tx_step ch w \<noteq> Fault f"
proof (cases "tx_run w")
  case (Some x)
  then obtain c th where run: "tx_run w = Some (c, th)"
    by (cases x) auto
  with assms obtain g h g0 where "channel_inv (mem w) g h \<and> vouched (tx_calls w) g"
    "safe_thread (tx_proto_for (tx_calls w)) (tx_contract c g0) th g"
    by (auto simp: world_inv_def tx_ok_def)
  then have "run_thread Tx ch th (mem w) \<noteq> Fault f'" for f'
    by (rule tx.thread_no_fault) simp
  then show ?thesis
    using run by (auto split: outcome.splits)
qed simp

lemma rx_step_no_fault:
  assumes "world_inv w" "\<not> in_race_window (RxRun ch) w"
  shows "rx_step ch w \<noteq> Fault f"
proof (cases "rx_run w")
  case (Some x)
  then obtain c th where run: "rx_run w = Some (c, th)"
    by (cases x) auto
  with assms(1) obtain g h h0 where inv: "channel_inv (mem w) g h"
    "safe_thread (rx_proto_for c) (rx_meets c h0) th h"
    by (auto simp: world_inv_def rx_ok_def)
  have "\<not> racy c \<alpha> ch (mem w)" if "next_action th = Some \<alpha>" for \<alpha>
    using that assms(2) run by (cases th rule: next_action.cases) auto
  with inv have "run_thread Rx ch th (mem w) \<noteq> Fault f'" for f'
    by (rule rx.thread_no_fault)
  then show ?thesis
    using run by (auto split: outcome.splits)
qed simp

lemma step_no_fault:
  assumes "world_inv w" "\<not> in_race_window l w"
  shows "fault_of (step li l w) = None"
proof -
  have "step li l w \<noteq> Fault f" for f
    using assms(2) tx_step_no_fault [OF assms(1)] rx_step_no_fault [OF assms(1)]
    by (cases l) (auto simp del: tx_step.simps rx_step.simps in_race_window.simps
        split: option.splits prog.splits)
  then show ?thesis
    by (cases "step li l w") auto
qed

end
