(* ===== verification/Histories.thy ===== *)
theory Histories
  imports Safety
begin

text \<open>
  What the contracts mean for whole histories of calls: an abstract specification of each endpoint
  as an automaton over the calls and their results, the refinement of it by the contracts, and the
  accounting of messages.
\<close>

section \<open>The sender's specification\<close>

datatype 'm tx_spec =
    Open bool
  | Raw bool
  | Delivered 'm
  | Rejected 'm
  | Given_Back 'm
  | Thrown_Away 'm
  | Closed_Off

text \<open>
  \<open>is_closed\<close> stays true once it is, and then \<open>send\<close> fails; a failed \<open>send\<close> leaves an error that
  holds the message, which \<open>as_inner\<close> shows and \<open>into_inner\<close> returns.
\<close>

definition open_next :: "bool \<Rightarrow> 'm tx_call \<Rightarrow> 'm tx_ret \<Rightarrow> 'm tx_spec option" where
  "open_next k c r =
     (case c of
        CTxIsClosed \<Rightarrow> (case r of TxBool b \<Rightarrow> if k \<and> \<not> b then None else Some (Open b) | _ \<Rightarrow> None)
      | CSend m \<Rightarrow>
          (case r of
             TxSent res \<Rightarrow> (case res of
                 Ok u \<Rightarrow> if k then None else Some (Delivered m)
               | Err e \<Rightarrow> Some (Rejected m))
           | _ \<Rightarrow> None)
      | CTxDrop \<Rightarrow> if r = TxUnit then Some Closed_Off else None
      | CTxIntoRaw \<Rightarrow> if r = TxUnit then Some (Raw k) else None
      | _ \<Rightarrow> None)"

definition rejected_next :: "'m \<Rightarrow> 'm tx_call \<Rightarrow> 'm tx_ret \<Rightarrow> 'm tx_spec option" where
  "rejected_next m c r =
     (case c of
        CErrAsInner \<Rightarrow> if r = TxInner m then Some (Rejected m) else None
      | CErrIntoInner \<Rightarrow> if r = TxInner m then Some (Given_Back m) else None
      | CErrDrop \<Rightarrow> if r = TxUnit then Some (Thrown_Away m) else None
      | _ \<Rightarrow> None)"

fun tx_next :: "'m tx_spec \<Rightarrow> 'm tx_call \<times> 'm tx_ret \<Rightarrow> 'm tx_spec option" where
  "tx_next (Open k) (c, r) = open_next k c r"
| "tx_next (Raw k) (c, r) = (if c = CTxFromRaw \<and> r = TxUnit then Some (Open k) else None)"
| "tx_next (Rejected m) (c, r) = rejected_next m c r"
| "tx_next s (c, r) = None"

fun tx_accepts :: "'m tx_spec \<Rightarrow> ('m tx_call \<times> 'm tx_ret) list \<Rightarrow> 'm tx_spec option" where
  "tx_accepts s [] = Some s"
| "tx_accepts s (x # l) = (case tx_next s x of None \<Rightarrow> None | Some s' \<Rightarrow> tx_accepts s' l)"

lemma tx_accepts_snoc [simp]:
  "tx_accepts s (l @ [x]) = (case tx_accepts s l of None \<Rightarrow> None | Some s' \<Rightarrow> tx_next s' x)"
  by (induction l arbitrary: s) (auto split: option.splits)

text \<open>The abstraction of what the sending side knows between two calls.\<close>

fun tx_abs :: "tx_handle \<Rightarrow> 'm tx_ghost \<Rightarrow> 'm tx_spec" where
  "tx_abs TxRaw (TIdle k) = Raw k"
| "tx_abs v (TIdle k) = Open k"
| "tx_abs v (TOwn (Sent m) s) = Rejected m"
| "tx_abs v (TDone (Sent m)) = Delivered m"
| "tx_abs v (TFreed (Sent m) (Taken m')) = Given_Back m"
| "tx_abs v (TFreed (Sent m) s) = Thrown_Away m"
| "tx_abs v g = Closed_Off"

lemma tx_trace_refines: "tx_trace l v g \<Longrightarrow> tx_accepts (Open False) l = Some (tx_abs v g)"
proof (induction rule: tx_trace.induct)
  case (tx_call l v g c g' r)
  from tx_trace_idle [OF tx_call(1)] tx_call(2-4) show ?case
    by (cases c; cases v) (auto simp: open_next_def rejected_next_def split: if_splits)
qed simp

section \<open>The receiver's specification\<close>

datatype 'm rx_spec = Unknown | Arrived | Received 'm | Finished

text \<open>
  Results of the receive operations and of the two queries. Once a message has been received or the
  channel was found closed, every receive operation reports the disconnection, \<open>is_closed\<close> is true
  and \<open>has_message\<close> false; once \<open>has_message\<close> is true the next receive operation succeeds.
\<close>

fun rx_answer :: "'m rx_spec \<Rightarrow> 'm receipt \<Rightarrow> 'm rx_spec option" where
  "rx_answer Unknown (Got m) = Some (Received m)"
| "rx_answer Unknown Closed = Some Finished"
| "rx_answer Unknown Not_Yet = Some Unknown"
| "rx_answer Arrived (Got m) = Some (Received m)"
| "rx_answer (Received m) Closed = Some (Received m)"
| "rx_answer Finished Closed = Some Finished"
| "rx_answer _ _ = None"

fun says_closed :: "'m rx_spec \<Rightarrow> bool \<Rightarrow> 'm rx_spec option" where
  "says_closed Unknown b = Some (if b then Finished else Unknown)"
| "says_closed Arrived b = (if b then None else Some Arrived)"
| "says_closed s b = (if b then Some s else None)"

fun says_message :: "'m rx_spec \<Rightarrow> bool \<Rightarrow> 'm rx_spec option" where
  "says_message Unknown b = Some (if b then Arrived else Unknown)"
| "says_message Arrived b = (if b then Some Arrived else None)"
| "says_message s b = (if b then None else Some s)"

fun rx_next :: "'m rx_spec \<Rightarrow> rx_call \<times> 'm rx_ret \<Rightarrow> 'm rx_spec option" where
  "rx_next s (c, r) =
     (case kind_of c of
        Receiving \<Rightarrow> rx_answer s (receipt_of r)
      | Asking_Closed \<Rightarrow> (case r of RxBool b \<Rightarrow> says_closed s b | _ \<Rightarrow> None)
      | Asking_Message \<Rightarrow> (case r of RxBool b \<Rightarrow> says_message s b | _ \<Rightarrow> None)
      | _ \<Rightarrow> if r = RxUnit then Some s else None)"

fun rx_accepts :: "'m rx_spec \<Rightarrow> (rx_call \<times> 'm rx_ret) list \<Rightarrow> 'm rx_spec option" where
  "rx_accepts s [] = Some s"
| "rx_accepts s (x # l) = (case rx_next s x of None \<Rightarrow> None | Some s' \<Rightarrow> rx_accepts s' l)"

lemma rx_accepts_snoc [simp]:
  "rx_accepts s (l @ [x]) = (case rx_accepts s l of None \<Rightarrow> None | Some s' \<Rightarrow> rx_next s' x)"
  by (induction l arbitrary: s) (auto split: option.splits)

text \<open>
  The abstraction relation: the specification keeps only what the results have revealed, the
  receiver may know more.
\<close>

fun rx_permits :: "'m rx_spec \<Rightarrow> 'm msg_state option \<Rightarrow> bool" where
  "rx_permits Unknown s = (s \<in> {None, Some Present, Some NoMsg, Some Discarded})"
| "rx_permits Arrived s = (s \<in> {Some Present, Some Discarded})"
| "rx_permits (Received m) s = (s = Some (Taken m))"
| "rx_permits Finished s = (s = Some NoMsg)"

lemma received_Discarded: "received_as q a (Some Discarded) \<Longrightarrow> a = Some Discarded"
  by (cases q) (auto split: if_splits)

lemma rx_trace_live:
  "rx_trace l v h \<Longrightarrow> v \<noteq> RxGone \<Longrightarrow> rx_msg h \<noteq> Some Discarded"
proof (induction rule: rx_trace.induct)
  case (rx_call l v h c h' r)
  then have "rx_msg h \<noteq> Some Discarded" "kind_of c \<noteq> Disposing" "rx_contract c h h' r"
    by (cases v; cases c; auto simp: rx_meets_def)+
  then show ?case
    by (cases "kind_of c") (auto simp: rx_contract_def receives_def reports_def dest: received_Discarded)
qed auto

lemma rx_answer_permits:
  "received_as q a b \<Longrightarrow> rx_permits s a \<Longrightarrow> a \<noteq> Some Discarded \<Longrightarrow>
     \<exists>s'. rx_answer s q = Some s' \<and> rx_permits s' b"
  by (cases q; cases s) (auto split: if_splits)

lemma rx_reports_permits:
  assumes "rx_permits s (rx_msg h)" "rx_msg h \<noteq> Some Discarded"
  shows "reports closed_now h h' r \<Longrightarrow> \<exists>b s'. r = RxBool b \<and> says_closed s b = Some s' \<and> rx_permits s' (rx_msg h')"
    and "reports message_now h h' r \<Longrightarrow> \<exists>b s'. r = RxBool b \<and> says_message s b = Some s' \<and> rx_permits s' (rx_msg h')"
  using assms by (cases s; auto simp: reports_def closed_now_def message_now_def)+

lemma rx_disposes_permits:
  "disposes h h' r \<Longrightarrow> rx_permits s (rx_msg h) \<Longrightarrow> r = RxUnit \<and> rx_permits s (rx_msg h')"
  by (cases s) (auto simp: disposes_def split: if_splits option.splits)

lemma rx_trace_refines:
  "rx_trace l v h \<Longrightarrow> \<exists>s. rx_accepts Unknown l = Some s \<and> rx_permits s (rx_msg h)"
proof (induction rule: rx_trace.induct)
  case (rx_call l v h c h' r)
  then obtain s where s: "rx_accepts Unknown l = Some s" "rx_permits s (rx_msg h)"
    by blast
  have live: "rx_msg h \<noteq> Some Discarded"
    using rx_trace_live [OF rx_call(1)] rx_call(2) by (cases v) auto
  have "rx_contract c h h' r"
    using rx_call(3) by (simp add: rx_meets_def)
  then have "\<exists>s'. rx_next s (c, r) = Some s' \<and> rx_permits s' (rx_msg h')"
    using rx_answer_permits [OF _ s(2) live] rx_reports_permits [OF s(2) live, of h' r] rx_disposes_permits [OF _ s(2)] s(2)
    by (cases "kind_of c") (auto simp: rx_contract_def receives_def)
  with s(1) show ?case
    by auto
qed auto

section \<open>Accounting of messages\<close>

text \<open>The messages sent, given back to the sender's client, and received, in a log.\<close>

fun sent_by :: "'m tx_call \<times> 'm tx_ret \<Rightarrow> 'm list" where
  "sent_by (CSend m, r) = [m]"
| "sent_by _ = []"

fun given_back_by :: "'m tx_call \<times> 'm tx_ret \<Rightarrow> 'm list" where
  "given_back_by (CErrIntoInner, TxInner m) = [m]"
| "given_back_by _ = []"

fun received_by :: "rx_call \<times> 'm rx_ret \<Rightarrow> 'm list" where
  "received_by (c, r) = (case receipt_of r of Got m \<Rightarrow> [m] | _ \<Rightarrow> [])"

definition sent_in :: "('m tx_call \<times> 'm tx_ret) list \<Rightarrow> 'm list" where
  "sent_in l = concat (map sent_by l)"

definition given_back_in :: "('m tx_call \<times> 'm tx_ret) list \<Rightarrow> 'm list" where
  "given_back_in l = concat (map given_back_by l)"

definition received_in :: "(rx_call \<times> 'm rx_ret) list \<Rightarrow> 'm list" where
  "received_in l = concat (map received_by l)"

lemma log_nil [simp]: "sent_in [] = []" "given_back_in [] = []" "received_in [] = []"
  by (simp_all add: sent_in_def given_back_in_def received_in_def)

lemma log_snoc [simp]:
  "sent_in (l @ [x]) = sent_in l @ sent_by x" "given_back_in (l @ [x]) = given_back_in l @ given_back_by x"
  "received_in (k @ [y]) = received_in k @ received_by y"
  by (simp_all add: sent_in_def given_back_in_def received_in_def)

text \<open>What the sending side knows determines the messages its log accounts for.\<close>

fun tx_sent :: "'m tx_ghost \<Rightarrow> 'm list" where
  "tx_sent (TDone (Sent m)) = [m]"
| "tx_sent (TOwn (Sent m) s) = [m]"
| "tx_sent (TFreed (Sent m) s) = [m]"
| "tx_sent g = []"

fun tx_given_back :: "'m tx_ghost \<Rightarrow> 'm list" where
  "tx_given_back (TFreed f (Taken m)) = [m]"
| "tx_given_back g = []"

lemma tx_trace_accounts:
  "tx_trace l v g \<Longrightarrow> sent_in l = tx_sent g \<and> given_back_in l = tx_given_back g"
proof (induction rule: tx_trace.induct)
  case (tx_call l v g c g' r)
  from tx_trace_idle [OF tx_call(1)] tx_call(2-4) show ?case
    by (cases c; cases v) auto
qed simp

fun taken :: "'m msg_state option \<Rightarrow> 'm list" where
  "taken (Some (Taken m)) = [m]"
| "taken _ = []"

lemma in_taken: "m \<in> set (taken s) \<longleftrightarrow> s = Some (Taken m)"
  by (cases s rule: taken.cases) auto

lemma taken_length: "length (taken s) \<le> 1"
  by (cases s rule: taken.cases) auto

lemma received_taken:
  "received_as q a b \<Longrightarrow> taken b = taken a @ (case q of Got m \<Rightarrow> [m] | _ \<Rightarrow> [])"
  by (cases q) (auto split: if_splits)

lemma rx_trace_accounts: "rx_trace l v h \<Longrightarrow> received_in l = taken (rx_msg h)"
proof (induction rule: rx_trace.induct)
  case (rx_call l v h c h' r)
  then have "rx_contract c h h' r"
    by (simp add: rx_meets_def)
  then have "taken (rx_msg h') = taken (rx_msg h) @ received_by (c, r)"
    using received_taken [of "receipt_of r" "rx_msg h" "rx_msg h'"]
    by (cases "kind_of c")
      (auto simp: rx_contract_def receives_def reports_def disposes_def split: option.splits if_splits)
  with rx_call show ?case
    by simp
qed auto

section \<open>Knowledge that stays\<close>

text \<open>A sending side that has seen the receiver go stays alone.\<close>

fun alone :: "'m tx_ghost \<Rightarrow> bool" where
  "alone (TIdle k) = k"
| "alone (TWrote m k) = k"
| "alone (TOwn f s) = True"
| "alone (TFreed f s) = True"
| "alone _ = False"

lemma tx_moves_alone:
  assumes "(g, g') \<in> moves tx_proto" "alone g"
  shows "alone g'"
proof -
  obtain \<alpha> S r where "tx_proto g \<alpha> = Some S" "(r, g') \<in> S"
    using assms(1) by (auto simp: moves_def)
  then show ?thesis
    using assms(2)
    by (cases "(g, \<alpha>)" rule: tx_proto.cases; cases g)
      (auto simp: tx_end_def elim!: tx_message.elims split: if_splits)
qed

lemma joint_alone: "joint g h \<mu> \<Longrightarrow> alone g \<Longrightarrow> h = RLeft"
  by (cases g) (auto simp: pre_def)

lemma rx_moves_msg:
  assumes "(h, h') \<in> moves rx_proto" "rx_msg h = Some s \<and> s \<noteq> Present"
  shows "rx_msg h' = Some s \<and> s \<noteq> Present"
proof -
  obtain \<alpha> S r where "rx_proto h \<alpha> = Some S" "(r, h') \<in> S"
    using assms(1) by (auto simp: moves_def)
  then show ?thesis
    using assms(2)
    by (cases "(h, \<alpha>)" rule: rx_proto.cases; cases h) (auto simp: reread_def split: if_splits)
qed

lemma tx_stays_alone: "(g, g') \<in> (moves tx_proto)\<^sup>* \<Longrightarrow> alone g \<Longrightarrow> alone g'"
  by (erule moves_keep) (auto intro: tx_moves_alone)

lemma rx_keeps:
  assumes "(h, h') \<in> (moves rx_proto)\<^sup>*" "rx_msg h = Some s" "s \<noteq> Present"
  shows "rx_msg h' = Some s"
proof -
  have "rx_msg h' = Some s \<and> s \<noteq> Present"
    using assms(1) by (rule moves_keep) (use assms rx_moves_msg in blast)+
  then show ?thesis ..
qed

section \<open>The two sides together\<close>

lemma tx_okE:
  assumes "tx_ok w g"
  obtains g0 where "tx_trace (tx_log w) (tx_handle w) g0" "(g0, g) \<in> (moves tx_proto)\<^sup>*"
    "tx_run w = None \<Longrightarrow> g = g0" "vouched (tx_calls w) g"
  using assms by (auto simp: tx_ok_def split: option.splits)

lemma rx_okE:
  assumes "rx_ok w h"
  obtains h0 where "rx_trace (rx_log w) (rx_handle w) h0" "(h0, h) \<in> (moves rx_proto)\<^sup>*"
    "rx_run w = None \<Longrightarrow> h = h0"
  using assms by (auto simp: rx_ok_def split: option.splits)

lemma joint_rx_msg:
  assumes "joint g h \<mu>" "rx_msg h = Some s"
  obtains f where "ended f g" "message_ok f s \<mu>"
  using assms by (cases h; cases g) (auto simp: ended_def owned_ok_def inv_unfold)

lemma ended_fin: "ended f g \<Longrightarrow> tx_fin g = Some f"
  by (auto simp: ended_def)

lemma world_received:
  assumes "world_inv w" "m \<in> set (received_in (rx_log w))"
  obtains g h where "channel_inv (mem w) g h" "tx_ok w g" "rx_ok w h" "ended (Sent m) g"
    "rx_msg h = Some (Taken m)"
proof -
  obtain g h where inv: "channel_inv (mem w) g h" "tx_ok w g" "rx_ok w h"
    using assms(1) by (auto simp: world_inv_def)
  obtain h0 where h0: "rx_trace (rx_log w) (rx_handle w) h0" "(h0, h) \<in> (moves rx_proto)\<^sup>*"
    using inv(3) by (rule rx_okE)
  have "rx_msg h0 = Some (Taken m)"
    using rx_trace_accounts [OF h0(1)] assms(2) by (simp add: in_taken)
  then have m: "rx_msg h = Some (Taken m)"
    by (rule rx_keeps [OF h0(2)]) simp
  then obtain f where "ended f g" "message_ok f (Taken m) (mem w)"
    using inv(1) joint_rx_msg by (metis channel_inv_def)
  then have "ended (Sent m) g"
    by simp
  then show thesis
    using that inv m by blast
qed

lemma received_was_sent:
  assumes "world_inv w" "m \<in> set (received_in (rx_log w))"
  shows "CSend m \<in> tx_calls w"
proof -
  obtain g h where "tx_ok w g" "ended (Sent m) g"
    using world_received [OF assms] by metis
  then show ?thesis
    using ended_fin by (fastforce simp: tx_ok_def vouched_def)
qed

text \<open>A received message is received after the sender's accesses to it.\<close>

lemma taken_synchronised:
  assumes "joint g h \<mu>" "rx_msg h = Some (Taken m)"
  shows "msg_at \<mu> Tx \<le> vtx (cur \<mu> Rx)"
  using assms by (cases h; cases g) (auto simp: owned_ok_def inv_unfold)

lemma received_synchronised:
  assumes "world_inv w" "received_in (rx_log w) \<noteq> []"
  shows "msg_at (mem w) Tx \<le> vtx (cur (mem w) Rx)"
proof -
  obtain m where "m \<in> set (received_in (rx_log w))"
    using assms(2) by (cases "received_in (rx_log w)") auto
  then obtain g h where "channel_inv (mem w) g h" "rx_msg h = Some (Taken m)"
    using world_received [OF assms(1)] by metis
  then show ?thesis
    using taken_synchronised by (auto simp: channel_inv_def)
qed

lemma received_at_most_one:
  assumes "world_inv w"
  shows "length (received_in (rx_log w)) \<le> 1"
proof -
  obtain h where "rx_ok w h"
    using assms by (auto simp: world_inv_def)
  then obtain h0 where "rx_trace (rx_log w) (rx_handle w) h0"
    by (rule rx_okE)
  then show ?thesis
    using rx_trace_accounts taken_length by metis
qed

text \<open>The two results that tell the sender's client that the receiver is gone.\<close>

fun tells_gone :: "'m tx_call \<times> 'm tx_ret \<Rightarrow> bool" where
  "tells_gone (c, TxSent (Err e)) = True"
| "tells_gone (CTxIsClosed, TxBool b) = b"
| "tells_gone x = False"

lemma told_alone: "tx_trace l v g \<Longrightarrow> list_ex tells_gone l \<Longrightarrow> alone g"
proof (induction rule: tx_trace.induct)
  case (tx_call l v g c g' r)
  from tx_call tx_trace_idle [OF tx_call(1)] show ?case
    by (cases c; cases v) auto
qed simp

lemma told_left:
  assumes "world_inv w" "list_ex tells_gone (tx_log w)"
  obtains h where "rx_ok w h" "h = RLeft" "\<exists>c\<in>rx_calls w. leaving c"
proof -
  obtain g h where inv: "channel_inv (mem w) g h" "tx_ok w g" "rx_ok w h"
    using assms(1) by (auto simp: world_inv_def)
  obtain g0 where "tx_trace (tx_log w) (tx_handle w) g0" "(g0, g) \<in> (moves tx_proto)\<^sup>*"
    using inv(2) by (rule tx_okE)
  then have "alone g"
    using told_alone [OF _ assms(2)] tx_stays_alone by blast
  then have "h = RLeft"
    using joint_alone inv(1) by (auto simp: channel_inv_def)
  with inv(3) that show thesis
    by (auto simp: rx_ok_def departed_def)
qed

lemma told_receiver_gone:
  assumes "world_inv w" "list_ex tells_gone (tx_log w)"
  shows "received_in (rx_log w) = []" "rx_run w = None \<Longrightarrow> rx_handle w = RxGone"
proof -
  obtain h where h: "rx_ok w h" "h = RLeft"
    using told_left [OF assms] by metis
  then obtain h0 where h0: "rx_trace (rx_log w) (rx_handle w) h0" "(h0, RLeft) \<in> (moves rx_proto)\<^sup>*"
    "rx_run w = None \<Longrightarrow> h0 = RLeft"
    using rx_okE [OF h(1)] by metis
  have "taken (rx_msg h0) = []"
    using rx_keeps [OF h0(2)] by (cases "rx_msg h0" rule: taken.cases) auto
  then show "received_in (rx_log w) = []"
    using rx_trace_accounts [OF h0(1)] by simp
  show "rx_handle w = RxGone" if "rx_run w = None"
    using rx_trace_idle [OF h0(1)] h0(3) [OF that] by (cases "rx_handle w") auto
qed

text \<open>A reported disconnection has a cause.\<close>

definition ends_known :: "'m rx_ghost \<Rightarrow> bool" where
  "ends_known h \<longleftrightarrow> rx_msg h = Some NoMsg \<or> (\<exists>m. rx_msg h = Some (Taken m))"

lemma closed_ends: "received_as Closed s s' \<Longrightarrow> s \<noteq> Some Discarded \<Longrightarrow> s' = Some NoMsg \<or> (\<exists>m. s' = Some (Taken m))"
  by (cases s) (auto intro: msg_state.exhaust)

lemma contract_ends:
  assumes "rx_contract c h h' r" "ends_known h"
  shows "ends_known h'"
proof (cases "kind_of c")
  case Receiving
  with assms show ?thesis
    by (cases "receipt_of r") (auto simp: rx_contract_def receives_def ends_known_def)
qed (use assms in \<open>auto simp: rx_contract_def reports_def disposes_def ends_known_def split: option.splits if_splits\<close>)

lemma rx_trace_closed:
  "rx_trace l v h \<Longrightarrow> (c, r) \<in> set l \<Longrightarrow> receipt_of r = Closed \<Longrightarrow> ends_known h"
proof (induction rule: rx_trace.induct)
  case (rx_call l v h c' h' r')
  have ct: "rx_contract c' h h' r'"
    using rx_call by (simp add: rx_meets_def)
  have live: "rx_msg h \<noteq> Some Discarded"
    using rx_trace_live [OF rx_call(1)] rx_call(2) by (cases v) auto
  show ?case
  proof (cases "(c, r) \<in> set l")
    case True
    with rx_call contract_ends [OF ct] show ?thesis
      by blast
  next
    case False
    with rx_call have "receipt_of r' = Closed"
      by auto
    with ct have "receives h h' r'"
      by (cases "kind_of c'") (auto simp: rx_contract_def reports_def disposes_def)
    then show ?thesis
      using closed_ends live \<open>receipt_of r' = Closed\<close> by (simp add: receives_def ends_known_def)
  qed
qed auto

lemma closed_has_cause:
  assumes "world_inv w" "(c, r) \<in> set (rx_log w)" "receipt_of r = Closed"
  shows "CTxDrop \<in> tx_calls w \<or> received_in (rx_log w) \<noteq> []"
proof -
  obtain g h where inv: "channel_inv (mem w) g h" "tx_ok w g" "rx_ok w h"
    using assms(1) by (auto simp: world_inv_def)
  obtain h0 where h0: "rx_trace (rx_log w) (rx_handle w) h0" "(h0, h) \<in> (moves rx_proto)\<^sup>*"
    using inv(3) by (rule rx_okE)
  from rx_trace_closed [OF h0(1) assms(2,3)] consider "rx_msg h0 = Some NoMsg" | m where "rx_msg h0 = Some (Taken m)"
    by (auto simp: ends_known_def)
  then show ?thesis
  proof cases
    case 1
    then have "rx_msg h = Some NoMsg"
      by (rule rx_keeps [OF h0(2)]) simp
    then obtain f where "ended f g" "message_ok f NoMsg (mem w)"
      using inv(1) joint_rx_msg by (metis channel_inv_def)
    then have "tx_fin g = Some Dropped"
      using ended_fin by fastforce
    then show ?thesis
      using inv(2) by (auto simp: tx_ok_def vouched_def)
  next
    case 2
    then show ?thesis
      using rx_trace_accounts [OF h0(1)] by simp
  qed
qed

text \<open>When both endpoints are gone, the channel is freed and every message is accounted for.\<close>

lemma gone_accounts:
  assumes "world_inv w" "tx_handle w = TxGone" "tx_run w = None" "rx_handle w = RxGone" "rx_run w = None"
  shows "freed (mem w)" "message (mem w) = None"
    "received_in (rx_log w) @ given_back_in (tx_log w) @ dropped (mem w) = sent_in (tx_log w)"
proof -
  obtain g h where jt: "joint g h (mem w)" and ok: "tx_ok w g" "rx_ok w h"
    using assms(1) by (auto simp: world_inv_def channel_inv_def)
  have tr: "tx_trace (tx_log w) TxGone g" "rx_trace (rx_log w) RxGone h"
    using tx_okE [OF ok(1)] rx_okE [OF ok(2)] assms(2-) by metis+
  note acc = tx_trace_accounts [OF tr(1)] rx_trace_accounts [OF tr(2)]
  have idle: "tx_idle TxGone g" "rx_idle RxGone h"
    using tx_trace_idle [OF tr(1)] rx_trace_idle [OF tr(2)] by blast+
  have "\<exists>f s. freed (mem w) \<and> message_ok f s (mem w) \<and> s \<noteq> Present \<and>
      tx_sent g = tx_sent (TDone f) \<and> taken (rx_msg h) @ tx_given_back g = taken (Some s)"
  proof (cases "\<exists>f. g = TDone f")
    case True
    then obtain f where f: "g = TDone f"
      by blast
    with idle(2) jt obtain s where "h = RFreed s" "s \<noteq> Present"
      by (auto simp: inv_unfold)
    then show ?thesis
      using f jt by (intro exI [of _ f] exI [of _ s]) (auto simp: inv_unfold)
  next
    case False
    with idle(1) obtain f s where g: "g = TFreed f s" "s \<noteq> Present"
      by auto
    then have "tx_sent g = tx_sent (TDone f)" "tx_given_back g = taken (Some s)"
      by (cases f; cases s; simp)+
    then show ?thesis
      using g jt by (intro exI [of _ f] exI [of _ s]) simp
  qed
  then obtain f s where fs: "freed (mem w)" "message_ok f s (mem w)" "s \<noteq> Present"
    "tx_sent g = tx_sent (TDone f)" "taken (rx_msg h) @ tx_given_back g = taken (Some s)"
    by blast
  show "freed (mem w)" "message (mem w) = None"
    using fs message_ok_None by auto
  have "taken (Some s) @ dropped (mem w) = tx_sent (TDone f)"
    using fs(2,3) by (cases f; cases s) auto
  then show "received_in (rx_log w) @ given_back_in (tx_log w) @ dropped (mem w) = sent_in (tx_log w)"
    using acc fs(4,5) by (metis append.assoc)
qed

end
