(* ===== verification/Progress.thy ===== *)
theory Progress
  imports Histories
begin

text \<open>
  Progress: the sender's methods and the receiver's non-blocking ones are wait-free, and a receiver
  that waits is never left behind by a sender that has finished.
\<close>

section \<open>Bounded programs\<close>

text \<open>
  A program without loops that performs at most the given number of actions and never parks.
\<close>

primrec within :: "('m, 'r) prog \<Rightarrow> nat \<Rightarrow> bool" where
  "within (Return r) n = True"
| "within Unreachable n = True"
| "within Continue n = False"
| "within (Loop b) n = False"
| "within (Do \<alpha> k) n = (\<not> blocking \<alpha> \<and> 0 < n \<and> (\<forall>r. within (k r) (n - 1)))"

lemma within_mono: "within p n \<Longrightarrow> n \<le> n' \<Longrightarrow> within p n'"
proof (induction p arbitrary: n n')
  case (Do \<alpha> k)
  have "within (k r) (n' - 1)" for r
  proof (rule Do.IH)
    show "k r \<in> range k"
      by simp
    show "within (k r) (n - 1)"
      using Do.prems(1) by simp
    show "n - 1 \<le> n' - 1"
      using Do.prems(2) by (rule diff_le_mono)
  qed
  then show ?case
    using Do.prems by simp
qed auto

lemma within_map_prog [simp]: "within (map_prog f p) n = within p n"
  by (induction p arbitrary: n) auto

lemma within_unpark [simp]: "within (unpark w k) n \<longleftrightarrow> 0 < n \<and> within k (n - 1)"
  by (cases w) (simp_all add: code_unfold)

lemma within_tx_body: "within (tx_body c) 5"
  by (cases c) (auto simp: code_unfold split: resp.split)

fun wait_free :: "rx_call \<Rightarrow> bool" where
  "wait_free CTryRecv = True"
| "wait_free CIsClosed = True"
| "wait_free CHasMessage = True"
| "wait_free CDrop = True"
| "wait_free CIntoRaw = True"
| "wait_free CFromRaw = True"
| "wait_free CIntoFuture = True"
| "wait_free CAsyncIsClosed = True"
| "wait_free CAsyncHasMessage = True"
| "wait_free _ = False"

lemma within_rx_body: "wait_free c \<Longrightarrow> within (rx_body li c) 4"
  by (cases c) (auto simp: code_unfold split: resp.split)

text \<open>A thread keeps its bound.\<close>

fun thread_within :: "('m, 'r) thread \<Rightarrow> nat \<Rightarrow> bool" where
  "thread_within (p, fr) n = (within p n \<and> fr = None)"

lemma thread_within_step:
  assumes "thread_within th n" "run_thread a ch th \<mu> = Step (th', \<mu>')"
  shows "0 < n" "thread_within th' (n - 1)"
  using assms by (cases "(a, ch, th, \<mu>)" rule: run_thread.cases; auto split: outcome.splits)+

lemma thread_within_unblocked:
  "thread_within th n \<Longrightarrow> next_action th = Some \<alpha> \<Longrightarrow> \<not> blocking \<alpha>"
  by (cases th rule: next_action.cases) auto

section \<open>Running an endpoint alone\<close>

fun run_alone ::
  "agent \<Rightarrow> choice list \<Rightarrow> ('m, 'r) thread \<Rightarrow> 'm mem \<Rightarrow> (('m, 'r) thread \<times> 'm mem) outcome" where
  "run_alone a [] th \<mu> = Step (th, \<mu>)"
| "run_alone a (ch # chs) th \<mu> =
     (case run_thread a ch th \<mu> of
        Disabled \<Rightarrow> Disabled | Fault f \<Rightarrow> Fault f | Step (th', \<mu>') \<Rightarrow> run_alone a chs th' \<mu>')"

context live_endpoint
begin

lemma thread_completes:
  assumes "inv \<mu> g h" "safe_thread T Q th g" "thread_within th n" "\<And>\<alpha> ch \<mu>. \<not> excluded \<alpha> ch \<mu>"
  shows "\<exists>chs r \<mu>'. length chs \<le> n \<and> run_alone me chs th \<mu> = Step ((Return r, None), \<mu>')"
  using assms(1-3)
proof (induction n arbitrary: \<mu> g th)
  case (Suc n)
  show ?case
  proof (cases "\<exists>r. th = (Return r, None)")
    case True
    then show ?thesis
      by (intro exI [of _ "[]"]) auto
  next
    case False
    then have "th \<noteq> (Return r, fr)" for r fr
      using Suc.prems(3) by auto
    then obtain ch where "run_thread me ch th \<mu> \<noteq> Disabled"
      using thread_progress [OF Suc.prems(1,2)] thread_within_unblocked [OF Suc.prems(3)] by blast
    moreover have "run_thread me ch th \<mu> \<noteq> Fault f" for f
      using thread_no_fault [OF Suc.prems(1,2)] assms(4) by blast
    ultimately obtain th' \<mu>' where st: "run_thread me ch th \<mu> = Step (th', \<mu>')"
      by (cases "run_thread me ch th \<mu>") auto
    then obtain g' where "inv \<mu>' g' h" "safe_thread T Q th' g'"
      using thread_preserves [OF Suc.prems(1,2)] assms(4) by blast
    moreover have "thread_within th' n"
      using thread_within_step(2) [OF Suc.prems(3) st] by simp
    ultimately obtain chs r \<mu>'' where "length chs \<le> n" "run_alone me chs th' \<mu>' = Step ((Return r, None), \<mu>'')"
      using Suc.IH by blast
    with st show ?thesis
      by (intro exI [of _ "ch # chs"]) auto
  qed
next
  case 0
  obtain p where th: "th = (p, None)" "within p 0"
    using 0(3) by (cases th) auto
  moreover have "p \<noteq> Unreachable"
    using 0(2) th by (auto simp: safe_thread_def)
  ultimately have "\<exists>r. p = Return r"
    by (cases p) auto
  with th show ?case
    by (intro exI [of _ "[]"]) auto
qed

end

lemma tx_alone:
  assumes "run_alone Tx chs th (mem w) = Step (th', \<mu>')" "tx_run w = Some (c, th)"
  shows "\<exists>w'. run li (map TxRun chs) w = Step w' \<and> tx_run w' = Some (c, th')"
  using assms
proof (induction chs arbitrary: th w)
  case (Cons ch chs)
  then obtain th1 \<mu>1 where "run_thread Tx ch th (mem w) = Step (th1, \<mu>1)"
    "run_alone Tx chs th1 \<mu>1 = Step (th', \<mu>')"
    by (auto split: outcome.splits)
  then show ?case
    using Cons.IH [of th1 "w\<lparr>tx_run := Some (c, th1), mem := \<mu>1\<rparr>"] Cons.prems(2) by simp
qed simp

lemma rx_alone:
  assumes "run_alone Rx chs th (mem w) = Step (th', \<mu>')" "rx_run w = Some (c, th)"
  shows "\<exists>w'. run li (map RxRun chs) w = Step w' \<and> rx_run w' = Some (c, th')"
  using assms
proof (induction chs arbitrary: th w)
  case (Cons ch chs)
  then obtain th1 \<mu>1 where "run_thread Rx ch th (mem w) = Step (th1, \<mu>1)"
    "run_alone Rx chs th1 \<mu>1 = Step (th', \<mu>')"
    by (auto split: outcome.splits)
  then show ?case
    using Cons.IH [of th1 "w\<lparr>rx_run := Some (c, th1), mem := \<mu>1\<rparr>"] Cons.prems(2) by simp
qed simp

lemma tx_completes:
  assumes "world_inv w" "tx_run w = Some (c, th)" "thread_within th n"
  shows "\<exists>chs w' r. length chs \<le> n \<and> run li (map TxRun chs) w = Step w' \<and> tx_run w' = Some (c, Return r, None)"
proof -
  obtain g h g0 where "channel_inv (mem w) g h \<and> vouched (tx_calls w) g"
    "safe_thread (tx_proto_for (tx_calls w)) (tx_contract c g0) th g"
    using assms(1,2) by (auto simp: world_inv_def tx_ok_def)
  then show ?thesis
    using tx.thread_completes [OF _ _ assms(3)] tx_alone [OF _ assms(2), of _ _ _ li] by meson
qed

lemma rx_completes:
  assumes "world_inv w" "rx_run w = Some (c, th)" "thread_within th n" "wait_free c"
  shows "\<exists>chs w' r. length chs \<le> n \<and> run li (map RxRun chs) w = Step w' \<and> rx_run w' = Some (c, Return r, None)"
proof -
  obtain g h h0 where inv: "channel_inv (mem w) g h" "safe_thread (rx_proto_for c) (rx_meets c h0) th h"
    using assms(1,2) by (auto simp: world_inv_def rx_ok_def)
  have "\<not> racy c \<alpha> ch \<mu>" for \<alpha> :: "'a action" and ch \<mu>
    using assms(4) by (cases c) (auto simp: racy_def)
  then show ?thesis
    using rx.thread_completes [OF inv assms(3)] rx_alone [OF _ assms(2), of _ _ _ li] by meson
qed

text \<open>The bounds hold wherever an endpoint is in its call.\<close>

lemma step_frames:
  assumes "step li l w = Step w'"
  shows "\<lbrakk>\<And>c. l \<noteq> TxCall c; \<And>ch. l \<noteq> TxRun ch; l \<noteq> TxReturn\<rbrakk> \<Longrightarrow> tx_run w' = tx_run w"
    and "\<lbrakk>\<And>c. l \<noteq> RxCall c; \<And>ch. l \<noteq> RxRun ch; l \<noteq> RxReturn\<rbrakk> \<Longrightarrow> rx_run w' = rx_run w"
  using assms
  by (cases l; auto split: option.splits if_splits outcome.splits prod.splits prog.splits)+

lemma thread_within_next:
  assumes "thread_within th n" "run_thread a ch th \<mu> = Step (th', \<mu>')"
  shows "thread_within th' n"
  using thread_within_step(2) [OF assms] by (cases th') (auto intro: within_mono)

lemma tx_thread_within:
  "reachable li w \<Longrightarrow> tx_run w = Some (c, th) \<Longrightarrow> thread_within th 5"
proof (induction arbitrary: c th rule: reachable.induct)
  case (step w l w')
  show ?case
  proof (cases l)
    case (TxCall d)
    then show ?thesis
      using step by (auto simp: start_def within_tx_body split: option.splits if_splits)
  next
    case (TxRun ch)
    then obtain th0 \<mu>' where "tx_run w = Some (c, th0)" "run_thread Tx ch th0 (mem w) = Step (th, \<mu>')"
      using step by (auto split: option.splits outcome.splits prod.splits)
    then show ?thesis
      using step.IH thread_within_next by blast
  next
    case TxReturn
    then show ?thesis
      using step by (auto split: option.splits prog.splits)
  qed (use step step_frames(1) in \<open>metis label.distinct\<close>)+
qed (simp_all add: channel_def async_channel_def)

lemma rx_thread_within:
  "reachable li w \<Longrightarrow> rx_run w = Some (c, th) \<Longrightarrow> wait_free c \<Longrightarrow> thread_within th 4"
proof (induction arbitrary: c th rule: reachable.induct)
  case (step w l w')
  show ?case
  proof (cases l)
    case (RxCall d)
    then show ?thesis
      using step by (auto simp: start_def within_rx_body split: option.splits if_splits)
  next
    case (RxRun ch)
    then obtain th0 \<mu>' where "rx_run w = Some (c, th0)" "run_thread Rx ch th0 (mem w) = Step (th, \<mu>')"
      using step by (auto split: option.splits outcome.splits prod.splits)
    then show ?thesis
      using step.IH step.prems thread_within_next by blast
  next
    case RxReturn
    then show ?thesis
      using step by (auto split: option.splits prog.splits)
  qed (use step step_frames(2) in \<open>metis label.distinct\<close>)+
qed (simp_all add: channel_def async_channel_def)

section \<open>A receiver that waits\<close>

lemma rx_park_announced:
  "rx_proto_for c h (APark t) = Some S \<Longrightarrow> announced h = Some (Thread t)"
  "rx_proto_for c h (AParkTimeout t d) = Some S \<Longrightarrow> announced h = Some (Thread t)"
  by (cases h; simp add: rx_proto_for_def split: if_splits)+

lemma announced_token:
  assumes "channel_inv \<mu> g h" "tx_idle TxGone g" "announced h = Some (Thread t)"
  obtains v where "token \<mu> t = Some v" "full_view \<mu> v"
proof -
  have "joint g h \<mu>"
    using assms(1) by (simp add: channel_inv_def)
  moreover from this assms(3) have "\<nexists>f s. g = TFreed f s"
    by (cases h) auto
  ultimately have "woken_up (Thread t) \<mu>"
    using joint_announced [of g h \<mu> "Thread t"] assms(2,3) by auto
  then show thesis
    using that by (auto simp: woken_up_def)
qed

lemma parked_has_token:
  assumes "world_inv w" "tx_handle w = TxGone" "tx_run w = None" "rx_run w = Some (c, Do \<alpha> k, fr)"
    and "\<alpha> = APark t \<or> \<alpha> = AParkTimeout t d"
  obtains v where "token (mem w) t = Some v" "full_view (mem w) v"
proof -
  obtain g h where inv: "channel_inv (mem w) g h" "tx_ok w g" "rx_ok w h"
    using assms(1) by (auto simp: world_inv_def)
  have "tx_trace (tx_log w) TxGone g"
    using tx_okE [OF inv(2)] assms(2,3) by metis
  then have g: "tx_idle TxGone g"
    by (rule tx_trace_idle)
  obtain Q where "safe_thread (rx_proto_for c) Q (Do \<alpha> k, fr) h"
    using inv(3) assms(4) by (auto simp: rx_ok_def)
  then have "\<exists>S. rx_proto_for c h \<alpha> = Some S"
    by (rule safe_thread_allowed) simp
  then have h: "announced h = Some (Thread t)"
    using assms(5) rx_park_announced by blast
  show thesis
    using announced_token [OF inv(1) g h] that by blast
qed

lemma rx_not_stuck:
  assumes I: "world_inv w" and tx: "tx_handle w = TxGone" "tx_run w = None"
    and run: "rx_run w = Some (c, th)" "\<And>r fr. th \<noteq> (Return r, fr)"
  shows "\<exists>ch. ch \<noteq> Spurious \<and> rx_step ch w \<noteq> Disabled"
proof (cases "\<exists>\<alpha> k fr. th = (Do \<alpha> k, fr)")
  case True
  then obtain \<alpha> k fr where th: "th = (Do \<alpha> k, fr)"
    by blast
  have "\<exists>ch. ch \<noteq> Spurious \<and> act Rx ch \<alpha> (mem w) \<noteq> Disabled"
  proof (cases "\<exists>t d. \<alpha> = APark t \<or> \<alpha> = AParkTimeout t d")
    case True
    then obtain t d where t: "\<alpha> = APark t \<or> \<alpha> = AParkTimeout t d"
      by blast
    obtain v where "token (mem w) t = Some v"
      using parked_has_token [OF I tx _ t] run(1) th by metis
    with t show ?thesis
      by (intro exI [of _ Go]) (auto simp: park_def)
  next
    case False
    then have "\<not> blocking \<alpha>"
      by (cases \<alpha>) auto
    moreover have "views_ok (mem w)"
      using I by (auto simp: world_inv_def channel_inv_def)
    ultimately obtain ch where "act Rx ch \<alpha> (mem w) \<noteq> Disabled" "ch = Spurious \<longrightarrow> (\<exists>t d. \<alpha> = AParkTimeout t d)"
      using act_enabled by blast
    with False show ?thesis
      by blast
  qed
  then show ?thesis
    using run(1) th by (auto split: outcome.splits)
next
  case False
  then have "run_thread Rx Go th (mem w) \<noteq> Disabled"
    using run(2) by (cases "(Rx, Go, th, mem w)" rule: run_thread.cases) (auto split: option.splits)
  then show ?thesis
    using run(1) by (intro exI [of _ Go]) (auto split: outcome.splits)
qed

section \<open>Calls that are under way\<close>

fun finished :: "('m, 'r) thread \<Rightarrow> bool" where
  "finished (Return r, fr) = True"
| "finished th = False"

definition rx_busy :: "'m world \<Rightarrow> bool" where
  "rx_busy w = (case rx_run w of None \<Rightarrow> False | Some (c, th) \<Rightarrow> \<not> finished th)"

definition rx_in_call :: "'m world \<Rightarrow> bool" where
  "rx_in_call w = (case rx_run w of None \<Rightarrow> False | Some x \<Rightarrow> True)"

definition rx_nonblocking :: "'m world \<Rightarrow> bool" where
  "rx_nonblocking w = (case rx_run w of None \<Rightarrow> False | Some (c, th) \<Rightarrow> wait_free c)"

lemma rx_busy_not_stuck:
  assumes "world_inv w" "tx_handle w = TxGone" "tx_run w = None" "rx_busy w"
  shows "\<exists>ch. ch \<noteq> Spurious \<and> rx_step ch w \<noteq> Disabled"
proof -
  obtain c th where run: "rx_run w = Some (c, th)" and "\<not> finished th"
    using assms(4) by (auto simp: rx_busy_def split: option.splits)
  then have "th \<noteq> (Return r, fr)" for r fr
    by auto
  then show ?thesis
    using rx_not_stuck [OF assms(1-3) run] by blast
qed

lemma tx_call_completes:
  assumes "reachable li w" "tx_run w \<noteq> None"
  shows "\<exists>chs w'. length chs \<le> 5 \<and> run li (map TxRun chs @ [TxReturn]) w = Step w' \<and> tx_run w' = None"
proof -
  obtain c th where run: "tx_run w = Some (c, th)"
    using assms(2) by auto
  obtain chs w' r where "length chs \<le> 5" "run li (map TxRun chs) w = Step w'" "tx_run w' = Some (c, Return r, None)"
    using tx_completes [OF reachable_inv [OF assms(1)] run tx_thread_within [OF assms(1) run]] by blast
  then show ?thesis
    by (intro exI [of _ chs]) (simp add: run_append)
qed

lemma rx_call_completes:
  assumes "reachable li w" "rx_nonblocking w"
  shows "\<exists>chs w'. length chs \<le> 4 \<and> run li (map RxRun chs @ [RxReturn]) w = Step w' \<and> rx_run w' = None"
proof -
  obtain c th where run: "rx_run w = Some (c, th)" and wf: "wait_free c"
    using assms(2) by (auto simp: rx_nonblocking_def split: option.splits)
  obtain chs w' r where "length chs \<le> 4" "run li (map RxRun chs) w = Step w'" "rx_run w' = Some (c, Return r, None)"
    using rx_completes [OF reachable_inv [OF assms(1)] run rx_thread_within [OF assms(1) run wf] wf] by blast
  then show ?thesis
    by (intro exI [of _ chs]) (simp add: run_append)
qed

section \<open>Clients that keep away from the two windows\<close>

fun plain :: "'m label \<Rightarrow> bool" where
  "plain (RxCall c) = (c \<noteq> CAsyncDrop \<and> \<not> timed c)"
| "plain l = True"

definition calm :: "'m world \<Rightarrow> bool" where
  "calm w \<longleftrightarrow> (\<forall>c th. rx_run w = Some (c, th) \<longrightarrow> c \<noteq> CAsyncDrop \<and> \<not> timed c)"

lemma calm_no_window: "calm w \<Longrightarrow> \<not> in_race_window l w"
  by (cases "(l, w)" rule: in_race_window.cases)
    (auto simp: calm_def racy_def split: option.splits prog.splits)

lemma calm_step:
  assumes "calm w" "plain l" "step li l w = Step w'"
  shows "calm w'"
  using assms unfolding calm_def
  by (cases l) (auto split: option.splits if_splits outcome.splits prod.splits prog.splits)

lemma plain_run_safe:
  "world_inv w \<Longrightarrow> calm w \<Longrightarrow> list_all plain ls \<Longrightarrow> fault_of (run li ls w) = None"
proof (induction ls arbitrary: w)
  case (Cons l ls)
  have nw: "\<not> in_race_window l w"
    using Cons.prems(2) by (rule calm_no_window)
  show ?case
  proof (cases "step li l w")
    case (Step w')
    then have "world_inv w'" "calm w'"
      using step_inv [OF Cons.prems(1) nw] calm_step [OF Cons.prems(2)] Cons.prems(3) by auto
    with Cons Step show ?thesis
      by simp
  next
    case (Fault f)
    then show ?thesis
      using step_no_fault [OF Cons.prems(1) nw, of li] by simp
  qed simp
qed simp

end
