(* ===== verification/State_Values.thy ===== *)
theory State_Values
  imports Progress
begin

text \<open>
  The values of the state: every write of the state stores one of the five documented values.
\<close>

section \<open>What an action writes\<close>

fun writes :: "'m action \<Rightarrow> u8 \<Rightarrow> u8 option" where
  "writes (AStore v ord) x = Some v"
| "writes (ASwap v ord) x = Some v"
| "writes (AFetchAdd v ord) x = Some (x + v)"
| "writes (AFetchXor v ord) x = Some (xor x v)"
| "writes (ACompareExchange e n ok_ord err_ord) x = Some n"
| "writes _ x = None"

definition values_ok :: "'m mem \<Rightarrow> bool" where
  "values_ok \<mu> \<longleftrightarrow> (\<forall>e\<in>set (hist \<mu>). is_state (val e))"

lemma act_writes:
  assumes "act a ch \<alpha> \<mu> = Step (r, \<mu>')" "hist \<mu> \<noteq> []"
  shows "hist \<mu>' = hist \<mu> \<or> (\<exists>v rl. hist \<mu>' = hist \<mu> @ [Write v rl] \<and> writes \<alpha> (val (last (hist \<mu>))) = Some v)"
  using assms
  by (cases \<alpha>) (auto simp: access_def with_index_def load_at_def store_last_def rmw_def compare_exchange_at_def
      msg_access_def wak_access_def put_message_def move_message_def borrow_message_def
      drop_message_in_place_def put_waker_def move_waker_def drop_waker_in_place_def free_channel_def
      park_def unpark_thread_def fence_acquire_def Let_def last_conv_nth
      split: if_splits option.splits choice.splits)

lemma act_values:
  assumes "act a ch \<alpha> \<mu> = Step (r, \<mu>')" "hist \<mu> \<noteq> []" "values_ok \<mu>"
    and "\<And>v. writes \<alpha> (val (last (hist \<mu>))) = Some v \<Longrightarrow> is_state v"
  shows "values_ok \<mu>'"
  using act_writes [OF assms(1,2)] assms(3,4) by (auto simp: values_ok_def)

section \<open>What the endpoints write\<close>

lemma rx_writes_states: "rx_proto h \<alpha> = Some S \<Longrightarrow> writes \<alpha> x = Some v \<Longrightarrow> is_state v"
  by (cases "(h, \<alpha>)" rule: rx_proto.cases; cases h) (auto simp: is_state_def split: if_splits option.splits)

lemma tx_fetches:
  assumes "channel_inv \<mu> g h" "tx_proto g \<alpha> = Some S" "\<alpha> = AFetchAdd u ord \<or> \<alpha> = AFetchXor u ord"
  shows "u = 1" "val (last (hist \<mu>)) \<in> {EMPTY, RECEIVING, DISCONNECTED}"
proof -
  have "\<exists>k. pre k h \<mu>" and u: "u = 1"
    using assms by (cases g; auto simp: channel_inv_def split: if_splits)+
  then have "last (rx_vals \<mu>) \<in> {EMPTY, RECEIVING, DISCONNECTED}"
    by (cases h) (auto simp: pre_def)
  then show "u = 1" "val (last (hist \<mu>)) \<in> {EMPTY, RECEIVING, DISCONNECTED}"
    using u assms(1) rx_vals_last(1) [of \<mu>] by (simp_all add: channel_inv_def)
qed

lemma tx_writes_states:
  assumes "channel_inv \<mu> g h" "tx_proto g \<alpha> = Some S" "writes \<alpha> (val (last (hist \<mu>))) = Some v"
  shows "is_state v"
proof -
  have sums: "is_state (x + 1)" "is_state (xor x 1)" if "x \<in> {EMPTY, RECEIVING, DISCONNECTED}" for x
    using that by (auto simp: disconnected_transitions)
  show ?thesis
  proof (cases "(g, \<alpha>)" rule: tx_proto.cases)
    case (2 g' u ord)
    then show ?thesis
      using tx_fetches [OF assms(1,2), of u ord] sums(1) assms(3) by auto
  next
    case (3 g' u ord)
    then show ?thesis
      using tx_fetches [OF assms(1,2), of u ord] sums(2) assms(3) by auto
  next
    case (4 g' u ord)
    then obtain f w where "g = TTook f w" "v = fin_val f"
      using assms(2,3) by (cases g) (auto split: if_splits)
    then show ?thesis
      by (cases f) auto
  qed (use assms in auto)
qed

lemma thread_values:
  assumes "run_thread a ch th \<mu> = Step (th', \<mu>')" "hist \<mu> \<noteq> []" "values_ok \<mu>"
    and "\<And>\<alpha> v. next_action th = Some \<alpha> \<Longrightarrow> writes \<alpha> (val (last (hist \<mu>))) = Some v \<Longrightarrow> is_state v"
  shows "values_ok \<mu>'"
proof (cases "(a, ch, th, \<mu>)" rule: run_thread.cases)
  case (5 a' c \<alpha> k fr \<mu>'')
  then obtain r where "act a ch \<alpha> \<mu> = Step (r, \<mu>')"
    using assms(1) by (auto split: outcome.splits)
  then show ?thesis
    using act_values [OF _ assms(2,3)] assms(4) 5 by simp
qed (use assms in \<open>auto split: option.splits\<close>)

lemma world_hist: "world_inv w \<Longrightarrow> hist (mem w) \<noteq> []"
  using views_okD(1) by (auto simp: world_inv_def channel_inv_def)

lemma tx_step_values:
  assumes I: "world_inv w" and "values_ok (mem w)" "tx_step ch w = Step w'"
  shows "values_ok (mem w')"
proof -
  obtain c th th' \<mu>' where run: "tx_run w = Some (c, th)" "run_thread Tx ch th (mem w) = Step (th', \<mu>')"
    and w': "w' = w\<lparr>tx_run := Some (c, th'), mem := \<mu>'\<rparr>"
    using assms(3) by (auto split: option.splits outcome.splits prod.splits)
  obtain g h Q where inv: "channel_inv (mem w) g h" "safe_thread (tx_proto_for (tx_calls w)) Q th g"
    using I run(1) by (auto simp: world_inv_def tx_ok_def)
  have "is_state v" if nx: "next_action th = Some \<alpha>" and wr: "writes \<alpha> (val (last (hist (mem w)))) = Some v" for \<alpha> v
  proof -
    obtain S where "tx_proto g \<alpha> = Some S"
      using safe_thread_allowed [OF inv(2) nx] by (auto simp: tx_proto_for_def split: if_splits)
    then show ?thesis
      using tx_writes_states [OF inv(1) _ wr] by blast
  qed
  then show ?thesis
    using thread_values [OF run(2) world_hist [OF I] assms(2)] w' by simp
qed

lemma rx_step_values:
  assumes I: "world_inv w" and "values_ok (mem w)" "rx_step ch w = Step w'"
  shows "values_ok (mem w')"
proof -
  obtain c th th' \<mu>' where run: "rx_run w = Some (c, th)" "run_thread Rx ch th (mem w) = Step (th', \<mu>')"
    and w': "w' = w\<lparr>rx_run := Some (c, th'), mem := \<mu>'\<rparr>"
    using assms(3) by (auto split: option.splits outcome.splits prod.splits)
  obtain h Q where safe: "safe_thread (rx_proto_for c) Q th h"
    using I run(1) by (auto simp: world_inv_def rx_ok_def)
  have "is_state v" if nx: "next_action th = Some \<alpha>" and wr: "writes \<alpha> (val (last (hist (mem w)))) = Some v" for \<alpha> v
  proof -
    obtain S where "rx_proto h \<alpha> = Some S"
      using safe_thread_allowed [OF safe nx] by (auto simp: rx_proto_for_def split: if_splits)
    then show ?thesis
      using rx_writes_states wr by blast
  qed
  then show ?thesis
    using thread_values [OF run(2) world_hist [OF I] assms(2)] w' by simp
qed

lemma reachable_values: "reachable li w \<Longrightarrow> values_ok (mem w)"
proof (induction rule: reachable.induct)
  case (step w l w')
  note I = reachable_inv [OF step(1)]
  show ?case
  proof (cases l)
    case (TxRun ch)
    then show ?thesis
      using tx_step_values [OF I step.IH, of ch] step.hyps(3) by simp
  next
    case (RxRun ch)
    then show ?thesis
      using rx_step_values [OF I step.IH, of ch] step.hyps(3) by simp
  qed (use step in \<open>auto split: option.splits if_splits prog.splits\<close>)
qed (simp_all add: values_ok_def channel_def async_channel_def channel_new_def)

section \<open>The arithmetic of the state\<close>

text \<open>The sender's actions with the transitions of the state written out instead of computed.\<close>

fun reference_act :: "choice \<Rightarrow> 'm action \<Rightarrow> 'm mem \<Rightarrow> ('m resp \<times> 'm mem) outcome" where
  "reference_act ch (AFetchAdd v ord) \<mu> = access Tx \<mu> (rmw Tx send_transition ord)"
| "reference_act ch (AFetchXor v ord) \<mu> = access Tx \<mu> (rmw Tx drop_transition ord)"
| "reference_act ch \<alpha> \<mu> = act Tx ch \<alpha> \<mu>"

lemma rmw_cong: "hist \<mu> \<noteq> [] \<Longrightarrow> f (val (last (hist \<mu>))) = f' (val (last (hist \<mu>))) \<Longrightarrow> rmw a f ord \<mu> = rmw a f' ord \<mu>"
  by (simp add: rmw_def Let_def last_conv_nth)

lemma sender_acts_by_reference:
  assumes "world_inv w" "tx_run w = Some (c, Do \<alpha> k, fr)"
  shows "act Tx ch \<alpha> (mem w) = reference_act ch \<alpha> (mem w)"
proof -
  obtain g h Q where inv: "channel_inv (mem w) g h" "safe_thread (tx_proto_for (tx_calls w)) Q (Do \<alpha> k, fr) g"
    using assms by (auto simp: world_inv_def tx_ok_def)
  have ne: "hist (mem w) \<noteq> []"
    by (rule world_hist [OF assms(1)])
  obtain S where "tx_proto g \<alpha> = Some S"
    using safe_thread_allowed [OF inv(2), of \<alpha>] by (auto simp: tx_proto_for_def split: if_splits)
  note fetch = tx_fetches [OF inv(1) this]
  show ?thesis
  proof (cases "(ch, \<alpha>, mem w)" rule: reference_act.cases)
    case (1 ch' v ord \<mu>)
    then show ?thesis
      using fetch [of v ord] ne transitions(1) [of "val (last (hist (mem w)))"]
        rmw_cong [of "ticked Tx (mem w)" "\<lambda>x. x + 1" send_transition Tx ord]
      by (simp add: access_def)
  next
    case (2 ch' v ord \<mu>)
    then show ?thesis
      using fetch [of v ord] ne transitions(2) [of "val (last (hist (mem w)))"]
        rmw_cong [of "ticked Tx (mem w)" "\<lambda>x. xor x 1" drop_transition Tx ord]
      by (simp add: access_def)
  qed simp_all
qed

end
