(* ===== verification/Wakeups.thy ===== *)
theory Wakeups
  imports Progress
begin

text \<open>
  Wakeups of tasks: a future that was left pending is woken when the sender finishes. The contract
  of \<open>poll\<close> covers the futures whose waker is announced; that the others have woken themselves is
  seen from the program text and the memory.
\<close>

section \<open>What a pending poll has done\<close>

fun announces :: "'m action \<Rightarrow> 'm resp \<Rightarrow> bool" where
  "announces (ACompareExchange x n ok_ord err_ord) (RCas (Ok v)) = (n = RECEIVING)"
| "announces \<alpha> r = False"

text \<open>
  \<open>alerts i p a b\<close>: if \<open>p\<close> returns \<open>Pending\<close> it has woken \<open>i\<close> (\<open>a\<close>: before \<open>p\<close>) or its last action has
  written \<open>RECEIVING\<close> (\<open>b\<close>: the one before \<open>p\<close>).
\<close>

primrec alerts :: "wid \<Rightarrow> ('m, 'm rx_ret) prog \<Rightarrow> bool \<Rightarrow> bool \<Rightarrow> bool" where
  "alerts i (Return r) a b = (r = RxPoll Pending \<longrightarrow> a \<or> b)"
| "alerts i Unreachable a b = True"
| "alerts i Continue a b = True"
| "alerts i (Loop p) a b = alerts i p False False"
| "alerts i (Do \<alpha> k) a b = (\<forall>r. alerts i (k r) (a \<or> \<alpha> = AWakeByRef i) (announces \<alpha> r))"

lemma alerts_mono: "alerts i p a b \<Longrightarrow> (a \<longrightarrow> a') \<Longrightarrow> (b \<longrightarrow> b') \<Longrightarrow> alerts i p a' b'"
proof (induction p arbitrary: a b a' b')
  case (Do \<alpha> k)
  have "alerts i (k r) (a' \<or> \<alpha> = AWakeByRef i) (announces \<alpha> r)" for r
    by (rule Do.IH [of "k r" "a \<or> \<alpha> = AWakeByRef i" "announces \<alpha> r"]) (use Do.prems in auto)
  then show ?case
    by simp
qed auto

lemma alerts_loop: "alerts i p False False \<Longrightarrow> alerts i p a b"
  by (erule alerts_mono) simp_all

lemma poll_alerts: "alerts i (rx_body li (CPoll i)) a b"
  by (rule alerts_loop) (simp add: code_unfold announces.simps split: resp.split result.split)

section \<open>Along a run\<close>

definition announced_now :: "'m mem \<Rightarrow> bool" where
  "announced_now \<mu> \<longleftrightarrow> val (hist \<mu> ! vt (cur \<mu> Rx)) = RECEIVING"

definition alerted :: "wid \<Rightarrow> 'm mem \<Rightarrow> bool" where
  "alerted i \<mu> \<longleftrightarrow> i \<in> set (woken \<mu>) \<or> announced_now \<mu>"

definition thread_alerts :: "wid \<Rightarrow> ('m, 'm rx_ret) thread \<Rightarrow> 'm mem \<Rightarrow> bool" where
  "thread_alerts i th \<mu> \<longleftrightarrow>
     alerts i (fst th) (i \<in> set (woken \<mu>)) (announced_now \<mu>) \<and>
     (case snd th of None \<Rightarrow> True | Some p \<Rightarrow> alerts i p False False)"

lemma act_woken:
  assumes "act e ch \<alpha> \<mu> = Step (r, \<mu>')"
  shows "set (woken \<mu>) \<subseteq> set (woken \<mu>')" and "\<alpha> = AWakeByRef i \<Longrightarrow> i \<in> set (woken \<mu>')"
  using assms
  by (cases \<alpha>; auto simp: access_def with_index_def load_at_def store_last_def rmw_def
      compare_exchange_at_def msg_access_def wak_access_def put_message_def move_message_def
      borrow_message_def drop_message_in_place_def put_waker_def move_waker_def
      drop_waker_in_place_def free_channel_def park_def unpark_thread_def fence_acquire_def
      ticked_def observe_def emit_def Let_def
      split: if_splits option.splits choice.splits)+

lemma announces_now:
  assumes "act Rx ch \<alpha> \<mu> = Step (r, \<mu>')" "views_ok \<mu>'" "announces \<alpha> r"
  shows "announced_now \<mu>'"
proof -
  obtain x ok_ord err_ord v where \<alpha>: "\<alpha> = ACompareExchange x RECEIVING ok_ord err_ord" "r = RCas (Ok v)"
    using assms(3) by (cases "(\<alpha>, r)" rule: announces.cases) auto
  obtain \<nu> base where "\<mu>' = emit Rx ok_ord RECEIVING base \<nu>"
    using assms(1) by (auto simp: \<alpha> access_def with_index_def compare_exchange_at_def Let_def
        split: if_splits choice.splits)
  then show ?thesis
    using views_okD(3) [OF assms(2), of Rx] by (auto simp: announced_now_def nth_append max_def split: if_splits)
qed

lemma act_Tx_announced:
  assumes "act Tx ch \<alpha> \<mu> = Step (r, \<mu>')" "views_ok \<mu>"
  shows "announced_now \<mu>' = announced_now \<mu>"
  using assms(1) views_okD(3) [OF assms(2), of Rx]
  by (cases \<alpha>) (auto simp: announced_now_def nth_append access_def with_index_def load_at_def store_last_def rmw_def
      compare_exchange_at_def msg_access_def wak_access_def put_message_def move_message_def
      borrow_message_def drop_message_in_place_def put_waker_def move_waker_def
      drop_waker_in_place_def free_channel_def park_def unpark_thread_def fence_acquire_def
      ticked_def observe_def emit_def Let_def
      split: if_splits option.splits choice.splits)

lemma alerts_act:
  assumes "alerts i (Do \<alpha> k) (i \<in> set (woken \<mu>)) b" "act Rx ch \<alpha> \<mu> = Step (r, \<mu>')" "views_ok \<mu>'"
  shows "alerts i (k r) (i \<in> set (woken \<mu>')) (announced_now \<mu>')"
  by (rule alerts_mono [where a = "i \<in> set (woken \<mu>) \<or> \<alpha> = AWakeByRef i" and b = "announces \<alpha> r"])
    (use assms act_woken [OF assms(2)] announces_now [OF assms(2,3)] in \<open>auto simp del: announces.simps\<close>)

lemma thread_alerts_Rx:
  assumes "thread_alerts i th \<mu>" "run_thread Rx ch th \<mu> = Step (th', \<mu>')" "views_ok \<mu>'"
  shows "thread_alerts i th' \<mu>'"
proof (cases "(Rx, ch, th, \<mu>)" rule: run_thread.cases)
  case (3 a c fr \<nu>)
  then show ?thesis
    using assms by (auto simp: thread_alerts_def intro: alerts_loop split: option.splits)
next
  case (4 a c b fr \<nu>)
  then show ?thesis
    using assms by (auto simp: thread_alerts_def intro: alerts_loop)
next
  case (5 a c \<alpha> k fr \<nu>)
  then obtain r where "act Rx ch \<alpha> \<mu> = Step (r, \<mu>')" "th' = (k r, fr)"
    using assms(2) by (auto split: outcome.splits)
  then show ?thesis
    using 5 assms(1) alerts_act [of i \<alpha> k \<mu>] assms(3) by (auto simp: thread_alerts_def)
qed (use assms in auto)

lemma run_thread_Tx:
  assumes "run_thread Tx ch th \<mu> = Step (th', \<mu>')" "views_ok \<mu>"
  shows "set (woken \<mu>) \<subseteq> set (woken \<mu>')" "announced_now \<mu>' = announced_now \<mu>"
  using assms act_woken(1) [of Tx] act_Tx_announced
  by (cases "(Tx, ch, th, \<mu>)" rule: run_thread.cases; fastforce split: outcome.splits option.splits)+

lemma thread_alerts_later:
  assumes "thread_alerts i th \<mu>" "set (woken \<mu>) \<subseteq> set (woken \<mu>')" "announced_now \<mu>' = announced_now \<mu>"
  shows "thread_alerts i th \<mu>'"
  using assms by (auto simp: thread_alerts_def elim!: alerts_mono)

text \<open>The receiving side has been left pending, and is idle since.\<close>

fun pending_log :: "wid \<Rightarrow> (rx_call \<times> 'm rx_ret) list \<Rightarrow> bool" where
  "pending_log i [] = False"
| "pending_log i [(c, r)] = (c = CPoll i \<and> r = RxPoll Pending)"
| "pending_log i (x # l) = pending_log i l"

lemma pending_log_snoc [simp]: "pending_log i (l @ [(c, r)]) \<longleftrightarrow> c = CPoll i \<and> r = RxPoll Pending"
proof (induction l)
  case (Cons x l)
  then show ?case by (cases l) (cases x, auto)+
qed simp

definition alert_inv :: "'m world \<Rightarrow> bool" where
  "alert_inv w \<longleftrightarrow>
     (\<forall>i. case rx_run w of
        None \<Rightarrow> pending_log i (rx_log w) \<longrightarrow> alerted i (mem w)
      | Some (c, th) \<Rightarrow> c = CPoll i \<longrightarrow> thread_alerts i th (mem w))"

lemma reachable_views: "reachable li w \<Longrightarrow> views_ok (mem w)"
  using reachable_inv by (auto simp: world_inv_def channel_inv_def)

lemma alert_inv_Tx:
  assumes "alert_inv w" "run_thread Tx ch th (mem w) = Step (th', \<mu>')" "views_ok (mem w)"
  shows "alert_inv (w\<lparr>tx_run := x, mem := \<mu>'\<rparr>)"
  using assms(1) run_thread_Tx [OF assms(2,3)] thread_alerts_later [OF _ run_thread_Tx [OF assms(2,3)]]
  by (auto simp: alert_inv_def alerted_def split: option.splits)

lemma alert_inv_step:
  assumes "alert_inv w" "step li l w = Step w'" "views_ok (mem w)" "views_ok (mem w')"
  shows "alert_inv w'"
proof (cases l)
  case (TxRun ch)
  then obtain c th th' \<mu>' where "run_thread Tx ch th (mem w) = Step (th', \<mu>')"
    "w' = w\<lparr>tx_run := Some (c, th'), mem := \<mu>'\<rparr>"
    using assms(2) by (auto split: option.splits outcome.splits prod.splits)
  then show ?thesis
    using alert_inv_Tx [OF assms(1) _ assms(3)] by blast
next
  case (RxCall c)
  then show ?thesis
    using assms(2) by (auto simp: poll_alerts alert_inv_def thread_alerts_def start_def simp del: rx_body.simps split: option.splits if_splits)
next
  case (RxRun ch)
  then obtain c th th' \<mu>' where "rx_run w = Some (c, th)" "run_thread Rx ch th (mem w) = Step (th', \<mu>')"
    "w' = w\<lparr>rx_run := Some (c, th'), mem := \<mu>'\<rparr>"
    using assms(2) by (auto split: option.splits outcome.splits prod.splits)
  then show ?thesis
    using assms(1,4) by (auto simp: alert_inv_def intro: thread_alerts_Rx)
next
  case RxReturn
  then obtain c r fr where "rx_run w = Some (c, Return r, fr)"
    "w' = w\<lparr>rx_run := None, rx_handle := rx_after c, rx_log := rx_log w @ [(c, r)]\<rparr>"
    using assms(2) by (auto split: option.splits prog.splits)
  then show ?thesis
    using assms(1) by (auto simp: alert_inv_def thread_alerts_def alerted_def)
qed (use assms in \<open>auto simp: alert_inv_def split: option.splits if_splits prog.splits\<close>)

lemma reachable_alert_inv: "reachable li w \<Longrightarrow> alert_inv w"
proof (induction rule: reachable.induct)
  case (step w l w')
  then have "reachable li w'"
    by (blast intro: reachable.step)
  with step show ?case
    using alert_inv_step reachable_views by blast
qed (simp_all add: alert_inv_def channel_def async_channel_def)

section \<open>Futures left pending\<close>

lemma rx_trace_pending:
  assumes "rx_trace l v h" "pending_log i l"
  shows "h = RRecv (Task i) \<or> (\<exists>w. h = RUnpk w)"
  using assms by (cases rule: rx_trace.cases) (auto simp: rx_meets_def)

lemma pending_is_woken:
  assumes "reachable li w" "tx_handle w = TxGone" "tx_run w = None" "rx_run w = None" "pending_log i (rx_log w)"
  shows "i \<in> set (woken (mem w))"
proof (rule ccontr)
  assume nw: "i \<notin> set (woken (mem w))"
  then have now: "announced_now (mem w)"
    using reachable_alert_inv [OF assms(1)] assms(4,5) by (auto simp: alert_inv_def alerted_def)
  obtain g h where inv: "channel_inv (mem w) g h" "tx_ok w g" "rx_ok w h"
    using reachable_inv [OF assms(1)] by (auto simp: world_inv_def)
  have tr: "tx_trace (tx_log w) TxGone g" "rx_trace (rx_log w) (rx_handle w) h"
    using tx_okE [OF inv(2)] rx_okE [OF inv(3)] assms(2-4) by metis+
  have jt: "joint g h (mem w)" and ok: "views_ok (mem w)"
    using inv(1) by (simp_all add: channel_inv_def)
  have h: "h = RRecv (Task i) \<or> (\<exists>w. h = RUnpk w)"
    by (rule rx_trace_pending [OF tr(2) assms(5)])
  have "rx_vals (mem w) ! 0 = RECEIVING"
    using now rx_vals_nth [of 0 "mem w"] rx_vals_last(2) [OF ok] by (simp add: announced_now_def)
  then have "h = RRecv (Task i)"
    using h rx_vals_head [OF jt] by auto
  then show False
    using tx_trace_idle [OF tr(1)] jt nw by (auto simp: woken_up_def waiting_def)
qed

end
