(* ===== verification/Timing.thy ===== *)
theory Timing
  imports System
begin

text \<open>
  Time: the receive operations with a timeout do not give up before it has passed. A program is
  followed with the last instant it has read; the argument needs nothing about the other endpoint.
\<close>

section \<open>Programs that read the clock\<close>

text \<open>
  \<open>P n r\<close> is what must hold of a result \<open>r\<close> when the last instant read is \<open>n\<close>; the body of a loop is
  checked for every later instant.
\<close>

primrec clocked :: "('m, 'r) prog \<Rightarrow> (instant \<Rightarrow> 'r \<Rightarrow> bool) \<Rightarrow> instant \<Rightarrow> bool" where
  "clocked (Return r) P n = P n r"
| "clocked Unreachable P n = True"
| "clocked Continue P n = True"
| "clocked (Loop b) P n = (\<forall>i\<ge>n. clocked b P i)"
| "clocked (Do \<alpha> k) P n =
     (if \<alpha> = AInstantNow then \<forall>i\<ge>n. clocked (k (RInstant i)) P i else \<forall>r. clocked (k r) P n)"

lemma clocked_map_prog [simp]: "clocked (map_prog f p) P n = clocked p (\<lambda>n r. P n (f r)) n"
  by (induction p arbitrary: n) auto

definition clocked_thread :: "('m, 'r) thread \<Rightarrow> (instant \<Rightarrow> 'r \<Rightarrow> bool) \<Rightarrow> instant \<Rightarrow> bool" where
  "clocked_thread th P n \<longleftrightarrow> (\<exists>m\<le>n. clocked (fst th) P m \<and>
     (case snd th of None \<Rightarrow> True | Some b \<Rightarrow> \<forall>i\<ge>m. clocked b P i))"

text \<open>Time does not go backwards, whoever acts.\<close>

lemma act_clock:
  assumes "act a ch \<alpha> \<mu> = Step (r, \<mu>')"
  shows "clock \<mu> \<le> clock \<mu>'" and "\<alpha> = AInstantNow \<Longrightarrow> r = RInstant (clock \<mu>')"
  using assms
  by (cases \<alpha>; auto simp: access_def with_index_def load_at_def store_last_def rmw_def
      compare_exchange_at_def msg_access_def wak_access_def put_message_def move_message_def
      borrow_message_def drop_message_in_place_def put_waker_def move_waker_def
      drop_waker_in_place_def free_channel_def park_def unpark_thread_def fence_acquire_def
      ticked_def observe_def emit_def Let_def
      split: if_splits option.splits choice.splits)+

lemma run_thread_clock:
  assumes "run_thread a ch th \<mu> = Step (th', \<mu>')"
  shows "clock \<mu> \<le> clock \<mu>'"
  using assms act_clock(1)
  by (cases "(a, ch, th, \<mu>)" rule: run_thread.cases) (auto split: outcome.splits option.splits)

lemma clocked_thread_later: "clocked_thread th P n \<Longrightarrow> n \<le> n' \<Longrightarrow> clocked_thread th P n'"
  unfolding clocked_thread_def using le_trans by blast

lemma clocked_thread_step:
  assumes "clocked_thread th P (clock \<mu>)" "run_thread a ch th \<mu> = Step (th', \<mu>')"
  shows "clocked_thread th' P (clock \<mu>')"
proof -
  obtain m where m: "m \<le> clock \<mu>" "clocked (fst th) P m"
    "case snd th of None \<Rightarrow> True | Some b \<Rightarrow> \<forall>i\<ge>m. clocked b P i"
    using assms(1) by (auto simp: clocked_thread_def)
  show ?thesis
  proof (cases "(a, ch, th, \<mu>)" rule: run_thread.cases)
    case (3 a' c fr \<mu>'')
    then show ?thesis
      using m assms(2) by (auto simp: clocked_thread_def split: option.splits intro!: exI [of _ m])
  next
    case (4 a' c b fr \<mu>'')
    then show ?thesis
      using m assms(2) by (auto simp: clocked_thread_def intro!: exI [of _ m])
  next
    case (5 a' c \<alpha> k fr \<mu>'')
    then obtain r where r: "act a ch \<alpha> \<mu> = Step (r, \<mu>')" and th': "th' = (k r, fr)"
      using assms(2) by (auto split: outcome.splits)
    have le: "m \<le> clock \<mu>'"
      using m(1) act_clock(1) [OF r] by simp
    show ?thesis
    proof (cases "\<alpha> = AInstantNow")
      case True
      then have "clocked (k r) P (clock \<mu>')"
        using m(2) 5 le act_clock(2) [OF r] by simp
      moreover have "case fr of None \<Rightarrow> True | Some b \<Rightarrow> \<forall>i\<ge>clock \<mu>'. clocked b P i"
        using m(3) 5 le by (auto split: option.splits)
      ultimately show ?thesis
        by (auto simp: clocked_thread_def th')
    next
      case False
      then show ?thesis
        using m 5 le by (auto simp: clocked_thread_def th' intro!: exI [of _ m])
    qed
  qed (use assms in auto)
qed

section \<open>Timeouts\<close>

text \<open>The instant before which a call must not time out, and the results it may have then.\<close>

fun expiry :: "rx_call \<Rightarrow> instant \<Rightarrow> instant" where
  "expiry (CRecvTimeout t d) n = n + d"
| "expiry (CRecvDeadline t i) n = i"
| "expiry c n = n"

definition timed_out :: "'m rx_ret \<Rightarrow> bool" where
  "timed_out r \<longleftrightarrow> (case r of RxTimeout x \<Rightarrow> (case x of Err e \<Rightarrow> e = RecvTimeoutError_Timeout | _ \<Rightarrow> False) | _ \<Rightarrow> False)"

lemma timed_out_simps [simp]:
  "\<not> timed_out (RxTry a)" "\<not> timed_out (RxRecv b)" "\<not> timed_out (RxPoll c)" "\<not> timed_out (RxBool d)"
  "\<not> timed_out RxUnit" "\<not> timed_out (RxTimeout (Ok m))"
  "timed_out (RxTimeout (Err e)) \<longleftrightarrow> e = RecvTimeoutError_Timeout"
  by (simp_all add: timed_out_def)

definition punctual :: "rx_call \<Rightarrow> instant \<Rightarrow> instant \<Rightarrow> 'm rx_ret \<Rightarrow> bool" where
  "punctual c n0 n r \<longleftrightarrow> (timed_out r \<longrightarrow> expiry c n0 < n)"

lemma clocked_mono: "clocked p P n \<Longrightarrow> (\<And>n r. P n r \<Longrightarrow> P' n r) \<Longrightarrow> clocked p P' n"
  by (induction p arbitrary: n) auto

lemma clocked_trivial: "(\<And>n r. P n r) \<Longrightarrow> clocked p P n"
  by (induction p arbitrary: n) auto

lemma clocked_deadline:
  "clocked (receiver_recv_deadline t i) (\<lambda>n r. timed_out (RxTimeout r) \<longrightarrow> i < n) n0"
  by (simp add: code_unfold checked_duration_since_def split: resp.split option.split)

lemma clocked_timeout:
  "clocked (receiver_recv_timeout li t d :: ('m, _) prog) (\<lambda>n r. timed_out (RxTimeout r) \<longrightarrow> n0 + d < n) n0"
proof -
  have never: "clocked (map_prog (map_err (\<lambda>_. RecvTimeoutError_Disconnected)) (receiver_recv_ref t :: ('m, _) prog))
    (\<lambda>n r. timed_out (RxTimeout r) \<longrightarrow> n0 + d < n) i" for i
    unfolding clocked_map_prog by (rule clocked_trivial) (case_tac r; simp)
  have later: "clocked (receiver_recv_deadline t (i + d) :: ('m, _) prog)
    (\<lambda>n r. timed_out (RxTimeout r) \<longrightarrow> n0 + d < n) i"
    if "n0 \<le> i" for i
    by (rule clocked_mono [OF clocked_deadline]) (use that in auto)
  show ?thesis
    using never later
    by (simp add: receiver_recv_timeout_def instant_now_def checked_add_def)
qed

lemma rx_body_punctual: "clocked (rx_body li c) (punctual c n0) n0"
proof (cases c)
  case (CRecvTimeout t d)
  then show ?thesis
    using clocked_timeout by (simp add: punctual_def)
next
  case (CRecvDeadline t i)
  then show ?thesis
    using clocked_deadline by (simp add: punctual_def)
qed (auto simp: punctual_def intro!: clocked_trivial)

section \<open>Along a schedule\<close>

text \<open>The receiving side is in a call \<open>c\<close> that began not before \<open>n0\<close>.\<close>

definition punctual_run :: "rx_call \<Rightarrow> instant \<Rightarrow> 'm world \<Rightarrow> bool" where
  "punctual_run c n0 w \<longleftrightarrow>
     (\<exists>th. rx_run w = Some (c, th) \<and> clocked_thread th (punctual c n0) (clock (mem w)))"

lemma punctual_run_call:
  assumes "step li (RxCall c) w = Step w'"
  shows "punctual_run c (clock (mem w)) w'"
  using assms rx_body_punctual [of li c "clock (mem w)"] order.refl
  by (fastforce simp: punctual_run_def clocked_thread_def start_def split: option.splits if_splits)

lemma punctual_run_step:
  assumes "punctual_run c n0 w" "step li l w = Step w'" "l \<noteq> RxReturn"
  shows "punctual_run c n0 w'"
  using assms run_thread_clock clocked_thread_step
  by (cases l) (fastforce simp: punctual_run_def split: option.splits outcome.splits prog.splits if_splits
      intro: clocked_thread_later)+

lemma punctual_run_run:
  assumes "punctual_run c n0 w" "run li ls w = Step w'" "RxReturn \<notin> set ls"
  shows "punctual_run c n0 w'"
  using assms
proof (induction ls arbitrary: w)
  case (Cons l ls)
  then obtain v where v: "step li l w = Step v" "run li ls v = Step w'"
    by (auto split: outcome.splits)
  have "punctual_run c n0 v"
    by (rule punctual_run_step [OF Cons.prems(1) v(1)]) (use Cons.prems(3) in auto)
  with v Cons show ?case by auto
qed simp

lemma punctual_run_return:
  assumes "punctual_run c n0 w" "step li RxReturn w = Step w'" "timed_out (snd (last (rx_log w')))"
  shows "expiry c n0 < clock (mem w')"
  using assms
  by (auto simp: punctual_run_def clocked_thread_def punctual_def split: option.splits prog.splits)

lemma timeout_expired:
  assumes "run li (RxCall c # ls @ [RxReturn]) w = Step w'" "RxReturn \<notin> set ls"
    and "timed_out (snd (last (rx_log w')))"
  shows "expiry c (clock (mem w)) < clock (mem w')"
proof -
  obtain v where v: "step li (RxCall c) w = Step v" "run li (ls @ [RxReturn]) v = Step w'"
    using assms(1) by (auto split: outcome.splits)
  then obtain u where u: "run li ls v = Step u" "step li RxReturn u = Step w'"
    by (auto simp: run_append split: outcome.splits)
  show ?thesis
    by (rule punctual_run_return [OF punctual_run_run [OF punctual_run_call [OF v(1)] u(1) assms(2)] u(2) assms(3)])
qed

end
