(* ===== verification/Outcomes.thy ===== *)
theory Outcomes
  imports Progress Timing
begin

text \<open>
  What the clients can conclude from the results: of \<open>send\<close>, of the receive operations, and of a
  timeout.
\<close>

section \<open>Results of the sender\<close>

lemma tx_trace_send:
  "tx_trace l v g \<Longrightarrow> (CSend m, r) \<in> set l \<Longrightarrow> r = TxSent (Ok ()) \<or> r = TxSent (Err SendError)"
  by (induction rule: tx_trace.induct) auto

lemma tx_trace_delivered:
  "tx_trace l v g \<Longrightarrow> (CSend m, TxSent (Ok ())) \<in> set l \<Longrightarrow> g = TDone (Sent m)"
proof (induction rule: tx_trace.induct)
  case (tx_call l v g c g' r)
  show ?case
  proof (cases "(CSend m, TxSent (Ok ())) \<in> set l")
    case True
    then have "g = TDone (Sent m)"
      using tx_call by blast
    then show ?thesis
      using tx_trace_idle [OF tx_call(1)] tx_call(2) by (cases v) auto
  next
    case False
    then show ?thesis
      using tx_call by auto
  qed
qed simp

lemma reachable_tx_trace:
  assumes "reachable li w"
  obtains g where "tx_trace (tx_log w) (tx_handle w) g"
  using reachable_inv [OF assms] by (auto simp: world_inv_def elim: tx_okE)

lemma reachable_rx_trace:
  assumes "reachable li w"
  obtains h where "rx_trace (rx_log w) (rx_handle w) h"
  using reachable_inv [OF assms] by (auto simp: world_inv_def elim: rx_okE)

lemma send_result:
  assumes "reachable li w" "(CSend m, r) \<in> set (tx_log w)"
  shows "r = TxSent (Ok ()) \<or> r = TxSent (Err SendError) \<and> (\<exists>c\<in>rx_calls w. leaving c)"
proof -
  obtain g where "tx_trace (tx_log w) (tx_handle w) g"
    using reachable_tx_trace [OF assms(1)] .
  then have r: "r = TxSent (Ok ()) \<or> r = TxSent (Err SendError)"
    by (rule tx_trace_send [OF _ assms(2)])
  have "\<exists>c\<in>rx_calls w. leaving c" if "r = TxSent (Err SendError)"
  proof -
    have "list_ex tells_gone (tx_log w)"
      using assms(2) that by (auto simp: list_ex_iff intro!: bexI [of _ "(CSend m, r)"])
    then show ?thesis
      using told_left [OF reachable_inv [OF assms(1)]] by blast
  qed
  with r show ?thesis
    by blast
qed

section \<open>Results of the receiver\<close>

lemma rx_trace_typed: "rx_trace l v h \<Longrightarrow> (c, r) \<in> set l \<Longrightarrow> typed c r"
  by (induction rule: rx_trace.induct) (auto simp: rx_meets_def)

lemma rx_trace_receipt:
  "rx_trace l v h \<Longrightarrow> (c, r) \<in> set l \<Longrightarrow> kind_of c = Receiving \<Longrightarrow> receipt_of r \<noteq> Info"
  by (induction rule: rx_trace.induct) (auto simp: rx_meets_def rx_contract_def receives_def)

lemma received_result:
  assumes "reachable li w" "(c, r) \<in> set (rx_log w)" "receipt_of r = Got m"
  shows "CSend m \<in> tx_calls w"
proof -
  have "m \<in> set (received_in (rx_log w))"
    using assms(2,3) by (force simp: received_in_def)
  then show ?thesis
    using received_was_sent [OF reachable_inv [OF assms(1)]] by blast
qed

text \<open>The first call of the receiver's client is a receive operation.\<close>

lemma first_result:
  assumes "reachable li w" "rx_log w = [(c, r)]" "kind_of c = Receiving"
  shows "(\<exists>m. receipt_of r = Got m \<and> CSend m \<in> tx_calls w) \<or>
    receipt_of r = Closed \<and> CTxDrop \<in> tx_calls w \<or> receipt_of r = Not_Yet"
proof -
  obtain h where h: "rx_trace (rx_log w) (rx_handle w) h"
    using reachable_rx_trace [OF assms(1)] .
  have "receipt_of r \<noteq> Info"
    using rx_trace_receipt [OF h] assms(2,3) by auto
  moreover have "CTxDrop \<in> tx_calls w" if "receipt_of r = Closed"
  proof -
    have "received_in (rx_log w) = []"
      using assms(2) that by (simp add: received_in_def)
    then show ?thesis
      using closed_has_cause [OF reachable_inv [OF assms(1)], of c r] assms(2) that by auto
  qed
  moreover have "CSend m \<in> tx_calls w" if "receipt_of r = Got m" for m
    using received_result [OF assms(1), of c r m] assms(2) that by simp
  ultimately show ?thesis
    by (cases "receipt_of r") auto
qed

lemma typed_result:
  assumes "reachable li w" "(c, r) \<in> set (rx_log w)"
  shows "typed c r"
  using reachable_rx_trace [OF assms(1)] rx_trace_typed assms(2) by metis

text \<open>\<open>recv\<close> and \<open>recv_ref\<close> as the first call.\<close>

definition blocking_call :: "rx_call \<Rightarrow> bool" where
  "blocking_call c \<longleftrightarrow> (\<exists>t. c = CRecv t \<or> c = CRecvRef t)"

lemma recv_result:
  assumes "reachable li w" "rx_log w = [(c, r)]" "blocking_call c"
  shows "(\<exists>m. r = RxRecv (Ok m) \<and> CSend m \<in> tx_calls w) \<or>
    (\<exists>e. r = RxRecv (Err e) \<and> CTxDrop \<in> tx_calls w)"
proof -
  have "typed c r"
    using typed_result [OF assms(1)] assms(2) by simp
  then obtain x where x: "r = RxRecv x"
    using assms(3) by (auto simp: blocking_call_def)
  have "kind_of c = Receiving"
    using assms(3) by (auto simp: blocking_call_def)
  then show ?thesis
    using first_result [OF assms(1,2)] x by (cases x) auto
qed

lemma tx_done_stays: "(g, g') \<in> moves tx_proto \<Longrightarrow> g = TDone f \<Longrightarrow> g' = TDone f"
  by (auto simp: moves_def elim: tx_proto.elims)

lemma tx_done_kept: "(TDone f, g) \<in> (moves tx_proto)\<^sup>* \<Longrightarrow> g = TDone f"
  by (rule moves_keep [of "TDone f" g tx_proto "\<lambda>g. g = TDone f"]) (auto intro: tx_done_stays)

text \<open>
  After a successful \<open>send\<close> the sending side is done, and a receiver that finds the channel closed has
  received the message.
\<close>

lemma delivered_done:
  assumes "tx_ok w g" "(CSend m, TxSent (Ok ())) \<in> set (tx_log w)"
  shows "g = TDone (Sent m)"
proof -
  obtain g0 where g0: "tx_trace (tx_log w) (tx_handle w) g0" "(g0, g) \<in> (moves tx_proto)\<^sup>*"
    using assms(1) by (rule tx_okE)
  then show ?thesis
    using tx_trace_delivered [OF g0(1) assms(2)] tx_done_kept by blast
qed

lemma delivered_received:
  assumes "world_inv w" "(CSend m, TxSent (Ok ())) \<in> set (tx_log w)" "m' \<in> set (received_in (rx_log w))"
  shows "m' = m"
proof -
  obtain g where "tx_ok w g" "ended (Sent m') g"
    using world_received [OF assms(1,3)] by metis
  then show ?thesis
    using delivered_done [OF _ assms(2)] by (auto simp: ended_def)
qed

lemma delivered_not_lost:
  assumes "world_inv w" "(CSend m, TxSent (Ok ())) \<in> set (tx_log w)" "(c, r) \<in> set (rx_log w)" "receipt_of r = Closed"
  shows "received_in (rx_log w) = [m]"
proof -
  obtain g h where inv: "channel_inv (mem w) g h" "tx_ok w g" "rx_ok w h"
    using assms(1) by (auto simp: world_inv_def)
  have g: "g = TDone (Sent m)"
    by (rule delivered_done [OF inv(2) assms(2)])
  obtain h0 where h0: "rx_trace (rx_log w) (rx_handle w) h0" "(h0, h) \<in> (moves rx_proto)\<^sup>*"
    using inv(3) by (rule rx_okE)
  obtain s where s: "rx_msg h0 = Some s" "s = NoMsg \<or> (\<exists>m'. s = Taken m')"
    using rx_trace_closed [OF h0(1) assms(3,4)] by (auto simp: ends_known_def)
  then have "rx_msg h = Some s"
    using rx_keeps [OF h0(2)] by auto
  then obtain f where "ended f g" "message_ok f s (mem w)"
    using inv(1) joint_rx_msg by (metis channel_inv_def)
  then have "s = Taken m"
    using g s(2) by (auto simp: ended_def)
  then show ?thesis
    using rx_trace_accounts [OF h0(1)] s(1) by simp
qed

section \<open>Sending to nobody\<close>

text \<open>The receiver was dropped and has left the channel to the sender.\<close>

definition forsaken :: "'m world \<Rightarrow> bool" where
  "forsaken w \<longleftrightarrow> rx_handle w = RxGone \<and> rx_run w = None \<and> world_at w RLeft"

lemma dropped_first:
  assumes "reachable li w" "rx_handle w = RxGone" "rx_run w = None" "tx_calls w = {}"
  shows "forsaken w"
proof -
  obtain g h where inv: "channel_inv (mem w) g h" "tx_ok w g" "rx_ok w h"
    using reachable_inv [OF assms(1)] by (auto simp: world_inv_def)
  have "rx_idle RxGone h"
    using rx_okE [OF inv(3)] rx_trace_idle assms(2,3) by metis
  moreover have "tx_fin g = None"
    using inv(2) assms(4) by (auto simp: tx_ok_def vouched_def)
  then have "\<exists>k. g = TIdle k"
    by (cases g) auto
  ultimately have "h = RLeft"
    using inv(1) by (auto simp: channel_inv_def pre_def)
  with inv assms show ?thesis
    by (auto simp: forsaken_def world_at_def)
qed

lemma forsaken_step:
  assumes "forsaken w" "step li l w = Step w'"
  shows "forsaken w'"
proof (cases "by_tx l")
  case True
  then have "world_at w' RLeft"
    using tx_step_keeps [OF _ assms(2)] assms(1) by (simp add: forsaken_def)
  moreover have "rx_handle w' = rx_handle w" "rx_run w' = rx_run w"
    using assms(2) True
    by (cases l; auto split: option.splits if_splits outcome.splits prod.splits prog.splits)+
  ultimately show ?thesis
    using assms(1) by (simp add: forsaken_def)
next
  case False
  then show ?thesis
    using assms by (cases l) (auto simp: forsaken_def)
qed

lemma forsaken_run: "forsaken w \<Longrightarrow> run li ls w = Step w' \<Longrightarrow> forsaken w'"
  by (induction ls arbitrary: w) (auto split: outcome.splits intro: forsaken_step)

lemma forsaken_send:
  assumes "forsaken w" "(CSend m, r) \<in> set (tx_log w)"
  shows "r = TxSent (Err SendError)"
proof (rule ccontr)
  assume r: "r \<noteq> TxSent (Err SendError)"
  obtain g where g: "joint g RLeft (mem w)" "tx_ok w g"
    using assms(1) by (auto simp: forsaken_def world_at_def channel_inv_def)
  have "r = TxSent (Ok ())"
    using tx_okE [OF g(2)] tx_trace_send [OF _ assms(2)] r by metis
  then have "g = TDone (Sent m)"
    using delivered_done [OF g(2)] assms(2) by simp
  then show False
    using g(1) by (auto simp: waiting_def)
qed

section \<open>Timeouts\<close>

lemma punctual_later: "punctual c n0 n r \<Longrightarrow> punctual c 0 n r"
  by (cases c) (auto simp: punctual_def)

lemma clocked_thread_mono:
  assumes "clocked_thread th P n" "\<And>n r. P n r \<Longrightarrow> P' n r"
  shows "clocked_thread th P' n"
proof -
  obtain m where m: "m \<le> n" "clocked (fst th) P m" "case snd th of None \<Rightarrow> True | Some b \<Rightarrow> \<forall>i\<ge>m. clocked b P i"
    using assms(1) by (auto simp: clocked_thread_def)
  have "clocked p P i \<Longrightarrow> clocked p P' i" for p i
    by (erule clocked_mono) (rule assms(2))
  then show ?thesis
    using m unfolding clocked_thread_def by (intro exI [of _ m]) (auto split: option.splits)
qed

lemma punctual_run_later: "punctual_run c n0 w \<Longrightarrow> punctual_run c 0 w"
  unfolding punctual_run_def using clocked_thread_mono punctual_later by metis

lemma reachable_punctual: "reachable li w \<Longrightarrow> rx_run w = Some (c, th) \<Longrightarrow> punctual_run c 0 w"
proof (induction arbitrary: c th rule: reachable.induct)
  case (step w l w')
  show ?case
  proof (cases "\<exists>d. l = RxCall d")
    case True
    then obtain d where l: "l = RxCall d"
      by blast
    then have "d = c"
      using step by (auto split: option.splits if_splits)
    then have "punctual_run c (clock (mem w)) w'"
      using punctual_run_call step l by blast
    then show ?thesis
      by (rule punctual_run_later)
  next
    case False
    then have "l \<noteq> RxReturn" "\<exists>th. rx_run w = Some (c, th)"
      using step by (cases l; auto split: option.splits if_splits outcome.splits prod.splits prog.splits)+
    then show ?thesis
      using step punctual_run_step by blast
  qed
qed (simp_all add: channel_def async_channel_def)

lemma step_clock: "step li l w = Step w' \<Longrightarrow> clock (mem w) \<le> clock (mem w')"
  by (cases l) (auto split: option.splits if_splits outcome.splits prod.splits prog.splits dest: run_thread_clock)

lemma timeout_result:
  "reachable li w \<Longrightarrow> (c, r) \<in> set (rx_log w) \<Longrightarrow> timed_out r \<Longrightarrow> expiry c 0 < clock (mem w)"
proof (induction rule: reachable.induct)
  case (step w l w')
  show ?case
  proof (cases "(c, r) \<in> set (rx_log w)")
    case True
    then show ?thesis
      using step step_clock [OF step(3)] by simp
  next
    case False
    then have l: "l = RxReturn" and r: "rx_log w' = rx_log w @ [(c, r)]" "\<exists>th. rx_run w = Some (c, th)"
      using step by (cases l; auto split: option.splits if_splits outcome.splits prod.splits prog.splits)+
    then have "punctual_run c 0 w"
      using reachable_punctual step(1) by blast
    then show ?thesis
      using punctual_run_return [of c 0 w li w'] step l r by simp
  qed
qed (simp_all add: channel_def async_channel_def)

end
