(* ===== verification/Atomic_Channel.thy ===== *)
theory Atomic_Channel
  imports Outcomes
begin

text \<open>
  The channel as one atomic object, on which each call takes effect at once. Every reachable state is
  explained by an interleaving of the calls on the two endpoints that such an object accepts. The
  calls of each endpoint keep their order; between the endpoints a relaxed load may see an effect
  late, so that the order is that of sequential consistency and not of real time.
\<close>

section \<open>The atomic channel\<close>

datatype 'm chan = Vacant | Full 'm | Ended | Deserted | Refused 'm

definition vacant_effect :: "'m tx_call \<Rightarrow> 'm tx_ret \<Rightarrow> 'm chan option" where
  "vacant_effect c r =
     (case c of
        CSend m \<Rightarrow> if r = TxSent (Ok ()) then Some (Full m) else None
      | CTxDrop \<Rightarrow> if r = TxUnit then Some Ended else None
      | CTxIsClosed \<Rightarrow> if r = TxBool False then Some Vacant else None
      | CTxIntoRaw \<Rightarrow> if r = TxUnit then Some Vacant else None
      | CTxFromRaw \<Rightarrow> if r = TxUnit then Some Vacant else None
      | _ \<Rightarrow> None)"

definition deserted_effect :: "'m tx_call \<Rightarrow> 'm tx_ret \<Rightarrow> 'm chan option" where
  "deserted_effect c r =
     (case c of
        CSend m \<Rightarrow> if r = TxSent (Err SendError) then Some (Refused m) else None
      | CTxDrop \<Rightarrow> if r = TxUnit then Some Ended else None
      | CTxIsClosed \<Rightarrow> if r = TxBool True then Some Deserted else None
      | CTxIntoRaw \<Rightarrow> if r = TxUnit then Some Deserted else None
      | CTxFromRaw \<Rightarrow> if r = TxUnit then Some Deserted else None
      | _ \<Rightarrow> None)"

definition refused_effect :: "'m \<Rightarrow> 'm tx_call \<Rightarrow> 'm tx_ret \<Rightarrow> 'm chan option" where
  "refused_effect m c r =
     (case c of
        CErrAsInner \<Rightarrow> if r = TxInner m then Some (Refused m) else None
      | CErrIntoInner \<Rightarrow> if r = TxInner m then Some Ended else None
      | CErrDrop \<Rightarrow> if r = TxUnit then Some Ended else None
      | _ \<Rightarrow> None)"

fun tx_effect :: "'m chan \<Rightarrow> 'm tx_call \<times> 'm tx_ret \<Rightarrow> 'm chan option" where
  "tx_effect Vacant (c, r) = vacant_effect c r"
| "tx_effect Deserted (c, r) = deserted_effect c r"
| "tx_effect (Refused m) (c, r) = refused_effect m c r"
| "tx_effect s (c, r) = None"

lemmas tx_effect_defs = vacant_effect_def deserted_effect_def refused_effect_def

text \<open>What a receive operation finds, and what it leaves.\<close>

fun receive_effect :: "'m chan \<Rightarrow> 'm receipt \<Rightarrow> 'm chan option" where
  "receive_effect Vacant Not_Yet = Some Vacant"
| "receive_effect (Full m) (Got m') = (if m' = m then Some Ended else None)"
| "receive_effect Ended Closed = Some Ended"
| "receive_effect s q = None"

fun dispose_effect :: "'m chan \<Rightarrow> 'm chan option" where
  "dispose_effect Vacant = Some Deserted"
| "dispose_effect (Full m) = Some Ended"
| "dispose_effect Ended = Some Ended"
| "dispose_effect s = None"

fun is_full :: "'m chan \<Rightarrow> bool" where
  "is_full (Full m) = True"
| "is_full s = False"

fun rx_effect :: "'m chan \<Rightarrow> rx_call \<times> 'm rx_ret \<Rightarrow> 'm chan option" where
  "rx_effect s (c, r) =
     (case kind_of c of
        Receiving \<Rightarrow> receive_effect s (receipt_of r)
      | Asking_Closed \<Rightarrow> if r = RxBool (s = Ended) then Some s else None
      | Asking_Message \<Rightarrow> if r = RxBool (is_full s) then Some s else None
      | Disposing \<Rightarrow> if r = RxUnit then dispose_effect s else None
      | Converting \<Rightarrow> if r = RxUnit then Some s else None)"

text \<open>Sequences of calls on the two endpoints.\<close>

type_synonym 'm event = "('m tx_call \<times> 'm tx_ret) + (rx_call \<times> 'm rx_ret)"

fun effect :: "'m chan \<Rightarrow> 'm event \<Rightarrow> 'm chan option" where
  "effect s (Inl x) = tx_effect s x"
| "effect s (Inr y) = rx_effect s y"

fun effects :: "'m chan \<Rightarrow> 'm event list \<Rightarrow> 'm chan option" where
  "effects s [] = Some s"
| "effects s (e # es) = (case effect s e of None \<Rightarrow> None | Some s' \<Rightarrow> effects s' es)"

lemma effects_append:
  "effects s (es @ fs) = (case effects s es of None \<Rightarrow> None | Some s' \<Rightarrow> effects s' fs)"
  by (induction es arbitrary: s) (auto split: option.splits)

lemma effects_appendI [intro]:
  "effects s es = Some s' \<Longrightarrow> effects s' fs = Some s'' \<Longrightarrow> effects s (es @ fs) = Some s''"
  by (simp add: effects_append)

lemma effects_snoc: "effects s (es @ [e]) = (case effects s es of None \<Rightarrow> None | Some s' \<Rightarrow> effect s' e)"
  by (auto simp: effects_append split: option.splits)

definition of_tx :: "'m event list \<Rightarrow> ('m tx_call \<times> 'm tx_ret) list" where
  "of_tx es = concat (map (case_sum (\<lambda>x. [x]) (\<lambda>_. [])) es)"

definition of_rx :: "'m event list \<Rightarrow> (rx_call \<times> 'm rx_ret) list" where
  "of_rx es = concat (map (case_sum (\<lambda>_. []) (\<lambda>y. [y])) es)"

lemma of_append [simp]: "of_tx (es @ fs) = of_tx es @ of_tx fs" "of_rx (es @ fs) = of_rx es @ of_rx fs"
  by (simp_all add: of_tx_def of_rx_def)

lemma of_map [simp]: "of_tx (map Inl l) = l" "of_tx (map Inr k) = []" "of_rx (map Inl l) = []" "of_rx (map Inr k) = k"
  by (induction l; induction k; simp add: of_tx_def of_rx_def)+

abbreviation sends :: "'m chan \<Rightarrow> ('m tx_call \<times> 'm tx_ret) list \<Rightarrow> 'm chan option" where
  "sends s l \<equiv> effects s (map Inl l)"

abbreviation receptions :: "'m chan \<Rightarrow> (rx_call \<times> 'm rx_ret) list \<Rightarrow> 'm chan option" where
  "receptions s k \<equiv> effects s (map Inr k)"

section \<open>One endpoint alone\<close>

text \<open>The state of the channel once the sender has ended, and what the receiver makes of it.\<close>

fun after_fin :: "'m fin \<Rightarrow> 'm chan" where
  "after_fin (Sent m) = Full m"
| "after_fin Dropped = Ended"

fun chan_of_tx :: "'m tx_ghost \<Rightarrow> 'm chan" where
  "chan_of_tx (TIdle k) = (if k then Deserted else Vacant)"
| "chan_of_tx (TOwn (Sent m) s) = Refused m"
| "chan_of_tx (TDone f) = after_fin f"
| "chan_of_tx g = Ended"

fun agrees :: "'m fin \<Rightarrow> 'm msg_state \<Rightarrow> bool" where
  "agrees (Sent m) (Taken m') = (m' = m)"
| "agrees (Sent m) s = (s \<noteq> NoMsg)"
| "agrees Dropped s = (s = NoMsg)"

definition chan_of_rx :: "'m fin \<Rightarrow> 'm msg_state \<Rightarrow> 'm chan" where
  "chan_of_rx f s = (if s = Present then after_fin f else Ended)"

lemma tx_effect_contract:
  assumes "tx_idle v g" "tx_owns v c" "tx_contract c g g' r" "alone g \<or> \<not> alone g'"
  shows "tx_effect (chan_of_tx g) (c, r) = Some (chan_of_tx g')"
  using assms by (cases c; cases v) (auto simp: tx_effect_defs split: if_splits)

lemma tx_effect_alone:
  assumes "tx_idle v g" "tx_owns v c" "tx_contract c g g' r" "\<not> alone g" "alone g'"
  shows "tx_effect Deserted (c, r) = Some (chan_of_tx g')" "chan_of_tx g = Vacant"
  using assms by (cases c; cases v; auto simp: tx_effect_defs)+

lemma contract_alone:
  "tx_idle v g \<Longrightarrow> tx_owns v c \<Longrightarrow> tx_contract c g g' r \<Longrightarrow> alone g \<Longrightarrow> alone g'"
  by (cases c; cases v) auto

lemma tx_trace_together: "tx_trace l v g \<Longrightarrow> \<not> alone g \<Longrightarrow> sends Vacant l = Some (chan_of_tx g)"
proof (induction rule: tx_trace.induct)
  case (tx_call l v g c g' r)
  note idle = tx_trace_idle [OF tx_call(1)]
  have "\<not> alone g"
    using contract_alone [OF idle] tx_call by blast
  then show ?case
    using tx_effect_contract [OF idle] tx_call by (auto simp: effects_snoc)
qed simp

lemma tx_trace_alone:
  "tx_trace l v g \<Longrightarrow> alone g \<Longrightarrow>
     \<exists>l1 l2. l = l1 @ l2 \<and> sends Vacant l1 = Some Vacant \<and> sends Deserted l2 = Some (chan_of_tx g)"
proof (induction rule: tx_trace.induct)
  case (tx_call l v g c g' r)
  note idle = tx_trace_idle [OF tx_call(1)]
  show ?case
  proof (cases "alone g")
    case True
    then obtain l1 l2 where "l = l1 @ l2" "sends Vacant l1 = Some Vacant" "sends Deserted l2 = Some (chan_of_tx g)"
      using tx_call by blast
    then show ?thesis
      using tx_effect_contract [OF idle tx_call(2,3)] True
      by (intro exI [of _ l1] exI [of _ "l2 @ [(c, r)]"]) (auto simp: effects_snoc)
  next
    case False
    then show ?thesis
      using tx_trace_together [OF tx_call(1)] tx_effect_alone [OF idle tx_call(2,3)] tx_call
      by (intro exI [of _ l] exI [of _ "[(c, r)]"]) auto
  qed
qed simp

text \<open>The receiver before it has found the sender gone or left.\<close>

lemma unaware_msg: "\<not> aware h \<longleftrightarrow> rx_msg h = None \<and> h \<noteq> RLeft"
  by (cases h) auto

lemma rx_trace_open: "rx_trace l v h \<Longrightarrow> v \<noteq> RxGone \<Longrightarrow> h \<noteq> RLeft"
  using rx_trace_idle by (cases v) fastforce+

lemma rx_owns_not_gone [simp]: "\<not> rx_owns RxGone c"
  by (cases c) auto

lemma contract_msg: "rx_contract c h h' r \<Longrightarrow> rx_msg h = Some s \<Longrightarrow> rx_msg h' \<noteq> None"
  by (cases "kind_of c"; cases "receipt_of r")
    (auto simp: rx_contract_def receives_def reports_def disposes_def split: if_splits)

lemma received_unknown [simp]: "received_as q None None \<longleftrightarrow> q = Not_Yet"
  by (cases q) auto

lemma recv_not_empty [simp]: "receipt_of (RxRecv x) \<noteq> Not_Yet"
  by (cases x) auto

lemma receive_ended:
  "received_as q None (Some s) \<Longrightarrow> agrees f s \<Longrightarrow> receive_effect (after_fin f) q = Some (chan_of_rx f s)"
  by (cases q; cases f) (auto simp: chan_of_rx_def)

lemma receive_known:
  "received_as q (Some s) (Some s') \<Longrightarrow> agrees f s' \<Longrightarrow> s \<noteq> Discarded \<Longrightarrow>
     agrees f s \<and> receive_effect (chan_of_rx f s) q = Some (chan_of_rx f s')"
  by (cases q; cases f) (auto simp: chan_of_rx_def)

lemma dispose_ended: "agrees f s \<Longrightarrow> dispose_effect (after_fin f) = Some Ended"
  by (cases f) auto

lemma is_full_fin [simp]: "is_full (after_fin f) \<longleftrightarrow> f \<noteq> Dropped" "after_fin f = Ended \<longleftrightarrow> f = Dropped"
  by (cases f; simp)+

lemma vacant_effect:
  assumes "rx_meets c h h' r" "rx_msg h = None" "rx_msg h' = None"
  shows "rx_effect Vacant (c, r) = Some (if h' = RLeft then Deserted else Vacant)"
  using assms
  by (cases c) (auto simp: rx_meets_def rx_contract_def receives_def reports_def disposes_def closed_now_def
      message_now_def split: receipt.splits)

lemma rx_trace_unaware:
  "rx_trace l v h \<Longrightarrow> rx_msg h = None \<Longrightarrow> receptions Vacant l = Some (if h = RLeft then Deserted else Vacant)"
proof (induction rule: rx_trace.induct)
  case (rx_call l v h c h' r)
  have "h \<noteq> RLeft"
    using rx_trace_open [OF rx_call(1)] rx_call(2) rx_owns_not_gone by blast
  moreover have "rx_msg h = None"
    using contract_msg rx_call(3,5) by (fastforce simp: rx_meets_def)
  ultimately show ?case
    using vacant_effect [OF rx_call(3)] rx_call by (simp add: effects_snoc)
qed auto

lemma rx_effect_ended:
  assumes "rx_contract c h h' r" "rx_msg h = None" "rx_msg h' = Some s" "agrees f s"
  shows "rx_effect (after_fin f) (c, r) = Some (chan_of_rx f s)"
  using assms receive_ended [of "receipt_of r" s f]
  by (cases "kind_of c") (cases f; auto simp: rx_contract_def receives_def reports_def disposes_def
      closed_now_def message_now_def chan_of_rx_def)+

lemma rx_effect_known:
  assumes "rx_contract c h h' r" "rx_msg h = Some s" "rx_msg h' = Some s'" "agrees f s'" "s \<noteq> Discarded"
  shows "agrees f s \<and> rx_effect (chan_of_rx f s) (c, r) = Some (chan_of_rx f s')"
  using assms receive_known [of "receipt_of r" s s' f]
  by (cases "kind_of c") (cases f; auto simp: rx_contract_def receives_def reports_def
      disposes_def closed_now_def message_now_def chan_of_rx_def split: if_splits)+

lemma rx_trace_aware:
  "rx_trace l v h \<Longrightarrow> rx_msg h = Some s \<Longrightarrow>
     \<exists>l1 l2. l = l1 @ l2 \<and> receptions Vacant l1 = Some Vacant \<and>
       (\<forall>f. agrees f s \<longrightarrow> receptions (after_fin f) l2 = Some (chan_of_rx f s))"
proof (induction arbitrary: s rule: rx_trace.induct)
  case (rx_call l v h c h' r)
  have v: "v \<noteq> RxGone"
    using rx_call(2) by auto
  have ct: "rx_contract c h h' r"
    using rx_call(3) by (simp add: rx_meets_def)
  show ?case
  proof (cases "rx_msg h")
    case None
    then have "receptions Vacant l = Some Vacant"
      using rx_trace_unaware [OF rx_call(1)] rx_trace_open [OF rx_call(1) v] by simp
    then show ?thesis
      using rx_effect_ended [OF ct None rx_call(5)] by (intro exI [of _ l] exI [of _ "[(c, r)]"]) simp
  next
    case (Some s0)
    then obtain l1 l2 where l: "l = l1 @ l2" "receptions Vacant l1 = Some Vacant"
      "\<forall>f. agrees f s0 \<longrightarrow> receptions (after_fin f) l2 = Some (chan_of_rx f s0)"
      using rx_call by blast
    have "s0 \<noteq> Discarded"
      using rx_trace_live [OF rx_call(1) v] Some by simp
    then show ?thesis
      using l rx_effect_known [OF ct Some rx_call(5)]
      by (intro exI [of _ l1] exI [of _ "l2 @ [(c, r)]"]) (auto simp: effects_snoc)
  qed
qed auto

section \<open>Both endpoints\<close>

text \<open>
  An explanation of a state: a sequence of calls that the atomic channel accepts, whose calls on each
  endpoint are the ones that have returned and possibly the one in progress. Between calls, the
  message stored in the memory is the one in the atomic channel.
\<close>

definition under_way :: "('c \<times> 'th) option \<Rightarrow> ('c \<times> 'r) list \<Rightarrow> bool" where
  "under_way x p \<longleftrightarrow> p = [] \<or> (\<exists>c th r. x = Some (c, th) \<and> p = [(c, r)])"

definition explains :: "'m event list \<Rightarrow> 'm chan \<Rightarrow> 'm world \<Rightarrow> bool" where
  "explains es s w \<longleftrightarrow> effects Vacant es = Some s \<and>
     (\<exists>p. of_tx es = tx_log w @ p \<and> under_way (tx_run w) p) \<and>
     (\<exists>q. of_rx es = rx_log w @ q \<and> under_way (rx_run w) q)"

fun stored :: "'m chan \<Rightarrow> 'm option" where
  "stored (Full m) = Some m"
| "stored (Refused m) = Some m"
| "stored s = None"

lemma under_way_nil [simp]: "under_way x []"
  by (simp add: under_way_def)

lemma leaving_gone: "rx_trace l v h \<Longrightarrow> (c, r) \<in> set l \<Longrightarrow> leaving c \<Longrightarrow> v = RxGone"
proof (induction rule: rx_trace.induct)
  case (rx_call l v h c' h' r')
  then show ?case
    by (cases "(c, r) \<in> set l") (auto elim: leaving.elims)
qed auto

lemma closing_ended: "tx_trace l v g \<Longrightarrow> by_call f \<in> fst ` set l \<Longrightarrow> tx_fin g \<noteq> None"
proof (induction rule: tx_trace.induct)
  case (tx_call l v g c g' r')
  show ?case
  proof (cases "by_call f \<in> fst ` set l")
    case True
    then show ?thesis
      using tx_call tx_trace_idle [OF tx_call(1)] by (cases c; cases v) auto
  next
    case False
    then have "c = by_call f"
      using tx_call by simp
    then show ?thesis
      using tx_call(3) by (cases f) auto
  qed
qed simp

text \<open>The receiver's knowledge of the message changes by taking or dropping it only.\<close>

fun msg_later :: "'m msg_state \<Rightarrow> 'm msg_state \<Rightarrow> bool" where
  "msg_later Present s' = (s' \<noteq> NoMsg)"
| "msg_later s s' = (s' = s)"

lemma msg_later_refl [simp]: "msg_later s s"
  by (cases s) auto

lemma msg_later_trans: "msg_later s s' \<Longrightarrow> msg_later s' s'' \<Longrightarrow> msg_later s s''"
  by (cases s; cases s') auto

lemma rx_moves_later:
  assumes "(h, h') \<in> moves rx_proto" "rx_msg h = Some s"
  shows "\<exists>s'. rx_msg h' = Some s' \<and> msg_later s s'"
proof -
  obtain \<alpha> S r where "rx_proto h \<alpha> = Some S" "(r, h') \<in> S"
    using assms(1) by (auto simp: moves_def)
  then show ?thesis
    using assms(2)
    by (cases "(h, \<alpha>)" rule: rx_proto.cases; cases h) (auto simp: reread_def split: if_splits)
qed

lemma rx_known_later:
  assumes "(h, h') \<in> (moves rx_proto)\<^sup>*" "rx_msg h = Some s"
  shows "\<exists>s'. rx_msg h' = Some s' \<and> msg_later s s'"
  using assms(1)
proof (rule moves_keep)
  show "\<exists>s'. rx_msg h = Some s' \<and> msg_later s s'"
    using assms(2) by simp
next
  show "\<exists>s''. rx_msg y = Some s'' \<and> msg_later s s''"
    if "(x, y) \<in> moves rx_proto" "\<exists>s'. rx_msg x = Some s' \<and> msg_later s s'" for x y
    using that rx_moves_later msg_later_trans by metis
qed

lemma rx_left_moves: "(h, h') \<in> moves rx_proto \<Longrightarrow> h = RLeft \<Longrightarrow> h' = RLeft"
  by (auto simp: moves_def elim!: rx_proto.elims)

lemma rx_left_stays: "(RLeft, h') \<in> (moves rx_proto)\<^sup>* \<Longrightarrow> h' = RLeft"
  by (rule moves_keep [of RLeft h' rx_proto "\<lambda>h. h = RLeft"]) (auto intro: rx_left_moves)

lemma agrees_earlier: "agrees f s' \<Longrightarrow> msg_later s s' \<Longrightarrow> agrees f s"
  by (cases s; cases f) auto

lemma message_agrees: "message_ok f s \<mu> \<Longrightarrow> agrees f s"
  by (cases s; cases f) auto

lemma message_stored: "message_ok f s \<mu> \<Longrightarrow> message \<mu> = stored (chan_of_rx f s)"
  by (cases s; cases f) (auto simp: chan_of_rx_def)

lemma explainsI:
  assumes "receptions Vacant k1 = Some a" "sends a l1 = Some b" "receptions b k2 = Some c" "sends c l2 = Some d"
    and "l1 @ l2 = tx_log w @ p" "k1 @ k2 = rx_log w @ q" "under_way (tx_run w) p" "under_way (rx_run w) q"
  shows "\<exists>es. explains es d w"
  using assms
  by (intro exI [of _ "map Inr k1 @ map Inl l1 @ map Inr k2 @ map Inl l2"]) (auto simp: explains_def)

text \<open>The invariant, with what the two endpoints knew when their last calls returned.\<close>

definition since :: "'m world \<Rightarrow> 'm tx_ghost \<Rightarrow> 'm tx_ghost \<Rightarrow> 'm rx_ghost \<Rightarrow> 'm rx_ghost \<Rightarrow> bool" where
  "since w g0 g h0 h \<longleftrightarrow> joint g h (mem w) \<and>
     tx_trace (tx_log w) (tx_handle w) g0 \<and> (g0, g) \<in> (moves tx_proto)\<^sup>* \<and> vouched (tx_calls w) g \<and>
     (tx_run w = None \<longrightarrow> g = g0) \<and>
     rx_trace (rx_log w) (rx_handle w) h0 \<and> (h0, h) \<in> (moves rx_proto)\<^sup>* \<and> departed (rx_calls w) h \<and>
     (case rx_run w of None \<Rightarrow> h = h0 | Some (c, th) \<Rightarrow> rx_owns (rx_handle w) c)"

lemma world_inv_since: "world_inv w \<Longrightarrow> \<exists>g0 g h0 h. since w g0 g h0 h"
  by (fastforce simp: world_inv_def channel_inv_def tx_ok_def rx_ok_def since_def split: option.splits)

lemma sinceD:
  assumes "since w g0 g h0 h"
  shows "joint g h (mem w)" "tx_trace (tx_log w) (tx_handle w) g0" "(g0, g) \<in> (moves tx_proto)\<^sup>*"
    "vouched (tx_calls w) g" "tx_run w = None \<Longrightarrow> g = g0"
    "rx_trace (rx_log w) (rx_handle w) h0" "(h0, h) \<in> (moves rx_proto)\<^sup>*" "departed (rx_calls w) h"
    "rx_run w = None \<Longrightarrow> h = h0" "rx_run w = Some (c, th) \<Longrightarrow> rx_owns (rx_handle w) c"
  using assms by (auto simp: since_def)

definition atomic_state :: "'m chan \<Rightarrow> 'm world \<Rightarrow> bool" where
  "atomic_state s w \<longleftrightarrow> (\<exists>es. explains es s w) \<and>
     (tx_run w = None \<and> rx_run w = None \<longrightarrow> message (mem w) = stored s)"

text \<open>The receiver has left, or is leaving, and the sender found out in an earlier call.\<close>

lemma atomic_apart:
  assumes "since w g0 g h0 h" "alone g0"
  shows "\<exists>s. atomic_state s w"
proof -
  note tr = sinceD(2,6) [OF assms(1)] and jt = sinceD(1) [OF assms(1)]
  have h: "h = RLeft"
    using joint_alone [OF jt tx_stays_alone [OF sinceD(3) [OF assms(1)] assms(2)]] .
  obtain l1 l2 where l: "tx_log w = l1 @ l2" "sends Vacant l1 = Some Vacant" "sends Deserted l2 = Some (chan_of_tx g0)"
    using tx_trace_alone [OF tr(1) assms(2)] by blast
  have msg: "rx_msg h0 = None"
    using rx_known_later [OF sinceD(7) [OF assms(1)]] h by (cases "rx_msg h0") auto
  note k = rx_trace_unaware [OF tr(2) msg]
  have "\<exists>q. receptions Vacant (rx_log w @ q) = Some Deserted \<and> under_way (rx_run w) q"
  proof (cases "h0 = RLeft")
    case True
    with k show ?thesis
      by (intro exI [of _ "[]"]) simp
  next
    case False
    then obtain c th where run: "rx_run w = Some (c, th)" "rx_owns (rx_handle w) c"
      using sinceD(9,10) [OF assms(1)] h by (cases "rx_run w") auto
    have "leaving c"
      using sinceD(8) [OF assms(1)] h run leaving_gone [OF tr(2)] by (force simp: departed_def rx_calls_def)
    with k False run show ?thesis
      by (intro exI [of _ "[(c, RxUnit)]"]) (auto simp: effects_snoc under_way_def elim: leaving.elims)
  qed
  then obtain q where q: "receptions Vacant (rx_log w @ q) = Some Deserted" "under_way (rx_run w) q"
    by blast
  have "\<exists>es. explains es (chan_of_tx g0) w"
    by (rule explainsI [of "[]" _ l1 Vacant "rx_log w @ q" Deserted l2]) (use l q in auto)
  moreover have "message (mem w) = stored (chan_of_tx g0)" if "tx_run w = None"
    using jt sinceD(5) [OF assms(1) that] assms(2) tx_trace_idle [OF tr(1)]
    by (cases "tx_handle w") (auto simp: message_ok_None)
  ultimately show ?thesis
    by (auto simp: atomic_state_def)
qed

text \<open>The sender has not found out; the receiver neither.\<close>

lemma together_cases:
  assumes "tx_trace l v g0" "\<not> alone g0"
  shows "g0 = TIdle False \<or> (\<exists>f. g0 = TDone f)"
  using tx_trace_idle [OF assms(1)] assms(2) by (cases v) auto

lemma done_stored:
  assumes "joint (TDone f) h \<mu>" "\<not> aware h"
  shows "message \<mu> = stored (after_fin f)"
  using assms by (cases h; cases f) (auto simp: waiting_def)

lemma atomic_open:
  assumes "since w g0 g h0 h" "\<not> alone g0" "\<not> aware h0"
  shows "\<exists>s. atomic_state s w"
proof -
  note tr = sinceD(2,6) [OF assms(1)] and jt = sinceD(1) [OF assms(1)]
  have "receptions Vacant (rx_log w) = Some Vacant"
    using rx_trace_unaware [OF tr(2)] assms(3) by (simp add: unaware_msg)
  moreover have "sends Vacant (tx_log w) = Some (chan_of_tx g0)"
    by (rule tx_trace_together [OF tr(1) assms(2)])
  ultimately have "\<exists>es. explains es (chan_of_tx g0) w"
    by (intro explainsI [of "rx_log w" Vacant "tx_log w" _ "[]" _ "[]"]) auto
  moreover have "message (mem w) = stored (chan_of_tx g0)" if "tx_run w = None" "rx_run w = None"
  proof -
    have "joint g0 h0 (mem w)"
      using jt sinceD(5,9) [OF assms(1)] that by simp
    then show ?thesis
      using together_cases [OF tr(1) assms(2)] done_stored [OF _ assms(3)] by fastforce
  qed
  ultimately show ?thesis
    by (auto simp: atomic_state_def)
qed

text \<open>The receiver has left, and the sender has not found out.\<close>

lemma atomic_left:
  assumes "since w g0 g RLeft h" "\<not> alone g0"
  shows "\<exists>s. atomic_state s w"
proof -
  note tr = sinceD(2,6) [OF assms(1)] and jt = sinceD(1) [OF assms(1)]
  have "h = RLeft"
    using rx_left_stays [OF sinceD(7) [OF assms(1)]] .
  then have "g \<noteq> TDone f" for f
    using jt by (auto simp: waiting_def)
  then have g0: "g0 = TIdle False"
    using together_cases [OF tr(1) assms(2)] sinceD(3) [OF assms(1)] tx_done_kept by blast
  have "receptions Vacant (rx_log w) = Some Deserted"
    using rx_trace_unaware [OF tr(2)] by simp
  moreover have "sends Vacant (tx_log w) = Some Vacant"
    using tx_trace_together [OF tr(1) assms(2)] g0 by simp
  ultimately have "\<exists>es. explains es Deserted w"
    by (intro explainsI [of "[]" Vacant "tx_log w" Vacant "rx_log w" _ "[]"]) auto
  moreover have "message (mem w) = None" if "tx_run w = None"
    using jt sinceD(5) [OF assms(1) that] g0 by simp
  ultimately show ?thesis
    by (auto simp: atomic_state_def)
qed

text \<open>The receiver has found that the sender ended, possibly before the sender's call returned.\<close>

fun ending :: "'m fin \<Rightarrow> 'm tx_ret" where
  "ending (Sent m) = TxSent (Ok ())"
| "ending Dropped = TxUnit"

lemma ending_effect: "tx_effect Vacant (by_call f, ending f) = Some (after_fin f)"
  by (cases f) (auto simp: vacant_effect_def)

lemma ended_sends:
  assumes "since w g0 g h0 h" "\<not> alone g0" "ended f g"
  shows "\<exists>p. sends Vacant (tx_log w @ p) = Some (after_fin f) \<and> under_way (tx_run w) p"
proof -
  note tr = sinceD(2) [OF assms(1)]
  note sends = tx_trace_together [OF tr assms(2)]
  from together_cases [OF tr assms(2)] show ?thesis
  proof
    assume g0: "g0 = TIdle False"
    then obtain c th where run: "tx_run w = Some (c, th)"
      using sinceD(5) [OF assms(1)] assms(3) by (cases "tx_run w") (auto simp: ended_def)
    have "by_call f \<in> tx_calls w"
      using sinceD(4) [OF assms(1)] ended_fin [OF assms(3)] by (simp add: vouched_def)
    moreover have "by_call f \<notin> fst ` set (tx_log w)"
      using closing_ended [OF tr] g0 by auto
    ultimately have "c = by_call f"
      using run by (auto simp: tx_calls_def)
    then show ?thesis
      using sends g0 run ending_effect
      by (intro exI [of _ "[(c, ending f)]"]) (auto simp: effects_snoc under_way_def)
  next
    assume "\<exists>f. g0 = TDone f"
    then have "g0 = TDone f"
      using sinceD(3) [OF assms(1)] assms(3) tx_done_kept by (auto simp: ended_def)
    then show ?thesis
      using sends by (intro exI [of _ "[]"]) simp
  qed
qed

lemma atomic_closed:
  assumes "since w g0 g h0 h" "\<not> alone g0" "rx_msg h0 = Some s0"
  shows "\<exists>s. atomic_state s w"
proof -
  note tr = sinceD(6) [OF assms(1)] and jt = sinceD(1) [OF assms(1)]
  obtain s where s: "rx_msg h = Some s" "msg_later s0 s"
    using rx_known_later [OF sinceD(7) [OF assms(1)] assms(3)] by blast
  obtain f where f: "ended f g" "message_ok f s (mem w)"
    using joint_rx_msg [OF jt s(1)] by blast
  then have "agrees f s0"
    using message_agrees agrees_earlier s(2) by blast
  then obtain k1 k2 where k: "rx_log w = k1 @ k2" "receptions Vacant k1 = Some Vacant"
    "receptions (after_fin f) k2 = Some (chan_of_rx f s0)"
    using rx_trace_aware [OF tr assms(3)] by blast
  obtain p where p: "sends Vacant (tx_log w @ p) = Some (after_fin f)" "under_way (tx_run w) p"
    using ended_sends [OF assms(1,2) f(1)] by blast
  have "\<exists>es. explains es (chan_of_rx f s0) w"
    by (rule explainsI [of k1 Vacant "tx_log w @ p" "after_fin f" k2 _ "[]"]) (use k p in auto)
  moreover have "message (mem w) = stored (chan_of_rx f s0)" if "rx_run w = None"
    using message_stored [OF f(2)] sinceD(9) [OF assms(1) that] assms(3) s(1) by simp
  ultimately show ?thesis
    by (auto simp: atomic_state_def)
qed

lemma atomic_explanation:
  assumes "world_inv w"
  shows "\<exists>s. atomic_state s w"
proof -
  obtain g0 g h0 h where w: "since w g0 g h0 h"
    using world_inv_since [OF assms] by blast
  consider "alone g0" | "\<not> alone g0" "\<not> aware h0" | "\<not> alone g0" "h0 = RLeft"
    | s0 where "\<not> alone g0" "rx_msg h0 = Some s0"
    using unaware_msg by (cases "rx_msg h0") auto
  then show ?thesis
    using atomic_apart [OF w] atomic_open [OF w] atomic_left atomic_closed [OF w] w by cases blast+
qed

end
