(* ===== verification/Completion.thy ===== *)
theory Completion
  imports Progress
begin

text \<open>
  Completion: once the sender has finished, every call of the receiver can run to its end, without
  spurious wakeups and outside the race windows, wherever it stands.
\<close>

section \<open>Learning how the sender ended\<close>

lemma up_to_date_aware:
  assumes "channel_inv \<mu> g h" "tx_idle TxGone g" "length (hist \<mu>) \<le> Suc (vt (cur \<mu> Rx))"
  shows "aware h"
proof (rule ccontr)
  assume un: "\<not> aware h"
  have jt: "joint g h \<mu>" and ok: "views_ok \<mu>"
    using assms(1) by (simp_all add: channel_inv_def)
  then obtain f where "g = TDone f"
    using assms(2) un by (cases h) auto
  then have "2 \<le> length (rx_vals \<mu>)"
    using jt un by (cases h) (auto simp: waiting_def)
  then show False
    using assms(3) rx_vals_length [OF ok] by linarith
qed

text \<open>
  The choice that makes an action learn the most: the newest write, and a token. Only the relaxed
  loads of \<open>wait_for_unpark\<close> must not run ahead of the token.
\<close>

fun awaiting_token :: "'m rx_ghost \<Rightarrow> bool" where
  "awaiting_token (RWait w) = True"
| "awaiting_token h = False"

lemma awaiting_token_iff: "awaiting_token h \<longleftrightarrow> (\<exists>w. h = RWait w)"
  by (cases h) auto

fun diligent :: "'m mem \<Rightarrow> 'm rx_ghost \<Rightarrow> 'm action \<Rightarrow> choice" where
  "diligent \<mu> h (ALoad ord) = At (if awaiting_token h then vt (cur \<mu> Rx) else length (hist \<mu>) - 1)"
| "diligent \<mu> h (ACompareExchange x n ok_ord err_ord) = At (length (hist \<mu>) - 1)"
| "diligent \<mu> h AInstantNow = Elapse 0"
| "diligent \<mu> h \<alpha> = Go"

fun learning :: "rx_call \<Rightarrow> 'm action \<Rightarrow> bool" where
  "learning c (ALoad ord) = (\<not> timed c)"
| "learning c (ASwap v ord) = True"
| "learning c (ACompareExchange x n ok_ord err_ord) = True"
| "learning c (APark t) = True"
| "learning c (AParkTimeout t d) = True"
| "learning c \<alpha> = False"

lemma diligent_not_spurious: "diligent \<mu> h \<alpha> \<noteq> Spurious"
  by (cases "(\<mu>, h, \<alpha>)" rule: diligent.cases) auto

lemma diligent_visible:
  assumes "channel_inv \<mu> g h" "diligent \<mu> h \<alpha> = At i"
  shows "visible Rx i (ticked Rx \<mu>)"
  using assms visible_last [of "ticked Rx \<mu>" Rx] views_okD(3) [of \<mu> Rx]
  by (cases "(\<mu>, h, \<alpha>)" rule: diligent.cases) (auto simp: channel_inv_def visible_def)

lemma diligent_not_racy:
  assumes I: "channel_inv \<mu> g h" and g: "tx_idle TxGone g" and S: "rx_proto_for c h \<alpha> = Some S"
  shows "\<not> racy c \<alpha> (diligent \<mu> h \<alpha>) \<mu>"
proof -
  have S': "rx_proto h \<alpha> = Some S"
    using S by (simp add: rx_proto_for_def split: if_splits)
  have jt: "joint g h \<mu>" and ok: "views_ok \<mu>"
    using I by (simp_all add: channel_inv_def)
  have "\<not> drop_over_unparking \<alpha> \<mu>"
  proof (cases "\<exists>w. h = RUnpk w")
    case True
    then have "last (rx_vals \<mu>) \<noteq> UNPARKING"
      using jt g by (auto simp: waiting_def)
    then show ?thesis
      using rx_vals_last(1) [OF ok] by (auto simp: drop_over_unparking_def)
  qed (use no_drop_over_unparking [OF I S'] in blast)
  moreover have "\<not> unsynchronised_wakeup \<alpha> (diligent \<mu> h \<alpha>) \<mu>"
  proof (cases "\<exists>w. h = RWait w")
    case True
    then have "val (hist \<mu> ! vt (cur \<mu> Rx)) = EMPTY"
      using rx_vals_nth [of 0 \<mu>] rx_vals_head [OF jt] rx_vals_last(2) [OF ok] by auto
    then show ?thesis
      using True by (auto simp: unsynchronised_wakeup_def split: action.splits)
  qed (use no_unsynchronised_wakeup [OF I S'] diligent_visible [OF I] in blast)
  ultimately show ?thesis
    by (simp add: racy_def)
qed

lemma acting_enabled:
  assumes I: "channel_inv \<mu> g h" and n: "\<nexists>t d. \<alpha> = APark t \<or> \<alpha> = AParkTimeout t d"
  shows "act Rx (diligent \<mu> h \<alpha>) \<alpha> \<mu> \<noteq> Disabled"
  using n diligent_visible [OF I, of \<alpha>] views_okD(1) [of \<mu>] I
  by (cases "(\<mu>, h, \<alpha>)" rule: diligent.cases)
    (auto simp: channel_inv_def access_def with_index_def load_at_def store_last_def rmw_def Let_def
      compare_exchange_at_def msg_access_def wak_access_def put_message_def move_message_def
      borrow_message_def drop_message_in_place_def put_waker_def move_waker_def
      drop_waker_in_place_def free_channel_def split: option.splits)

lemma diligent_enabled:
  assumes I: "channel_inv \<mu> g h" and g: "tx_idle TxGone g" and S: "rx_proto_for c h \<alpha> = Some S"
  shows "act Rx (diligent \<mu> h \<alpha>) \<alpha> \<mu> \<noteq> Disabled"
proof (cases "\<exists>t d. \<alpha> = APark t \<or> \<alpha> = AParkTimeout t d")
  case True
  then obtain t d where t: "\<alpha> = APark t \<or> \<alpha> = AParkTimeout t d"
    by blast
  then have "announced h = Some (Thread t)"
    using S rx_park_announced by blast
  then obtain v where "token \<mu> t = Some v"
    using announced_token [OF I g] by blast
  then show ?thesis
    using t by (auto simp: park_def)
qed (use acting_enabled [OF I] in blast)

lemma diligent_learns:
  assumes I: "channel_inv \<mu> g h" and g: "tx_idle TxGone g" and S: "rx_proto_for c h \<alpha> = Some S"
    and st: "act Rx (diligent \<mu> h \<alpha>) \<alpha> \<mu> = Step (r, \<mu>')" and l: "learning c \<alpha>"
  shows "length (hist \<mu>') \<le> Suc (vt (cur \<mu>' Rx))"
proof (cases "\<exists>t d. \<alpha> = APark t \<or> \<alpha> = AParkTimeout t d")
  case True
  then obtain t d where t: "\<alpha> = APark t \<or> \<alpha> = AParkTimeout t d"
    by blast
  then have "announced h = Some (Thread t)"
    using S rx_park_announced by blast
  then obtain v where "token \<mu> t = Some v" "full_view \<mu> v"
    using announced_token [OF I g] by blast
  then show ?thesis
    using t st by (auto simp: park_def full_view_def)
next
  case False
  have ne: "hist \<mu> \<noteq> []"
    using I views_okD(1) by (auto simp: channel_inv_def)
  have nw: "\<not> (\<exists>ord. awaiting_token h \<and> \<alpha> = ALoad ord)"
    using S l by (auto simp: rx_proto_for_def awaiting_token_iff)
  show ?thesis
    using False nw ne l st
    by (cases "(\<mu>, h, \<alpha>)" rule: diligent.cases)
      (auto simp: access_def with_index_def load_at_def rmw_def Let_def compare_exchange_at_def
        split: if_splits)
qed

lemma aware_moves: "rx_proto h \<alpha> = Some S \<Longrightarrow> (r, h') \<in> S \<Longrightarrow> aware h \<Longrightarrow> aware h'"
  by (cases "(h, \<alpha>)" rule: rx_proto.cases; cases h) (auto split: if_splits)

text \<open>One action, taken diligently.\<close>

lemma diligent_step:
  assumes I: "channel_inv \<mu> g h" and g: "tx_idle TxGone g" and S: "rx_proto_for c h \<alpha> = Some S"
  obtains r \<mu>' h' where "act Rx (diligent \<mu> h \<alpha>) \<alpha> \<mu> = Step (r, \<mu>')" "(r, h') \<in> S" "channel_inv \<mu>' g h'"
    "aware h \<or> learning c \<alpha> \<Longrightarrow> aware h'"
proof -
  have ex: "explained S (\<lambda>\<mu>' h'. channel_inv \<mu>' g h') (act Rx (diligent \<mu> h \<alpha>) \<alpha> \<mu>)"
    by (rule rx_sound [OF I S diligent_not_racy [OF I g S]])
  then obtain r \<mu>' where st: "act Rx (diligent \<mu> h \<alpha>) \<alpha> \<mu> = Step (r, \<mu>')"
    using diligent_enabled [OF I g S] by (cases "act Rx (diligent \<mu> h \<alpha>) \<alpha> \<mu>") auto
  then obtain h' where h': "(r, h') \<in> S" "channel_inv \<mu>' g h'"
    using ex by auto
  have "aware h'" if "aware h \<or> learning c \<alpha>"
  proof (cases "aware h")
    case True
    then show ?thesis
      using aware_moves [OF _ h'(1)] S by (auto simp: rx_proto_for_def split: if_splits)
  next
    case False
    then show ?thesis
      using up_to_date_aware [OF h'(2) g diligent_learns [OF I g S st]] that by blast
  qed
  with st h' show thesis
    by (rule that)
qed

section \<open>Programs that check on the sender\<close>

text \<open>
  \<open>attentive p\<close>: on every path round the loop \<open>p\<close> belongs to, there is an action that learns of the
  sender's end. \<open>loops p\<close>: this holds for every loop in \<open>p\<close>.
\<close>

primrec attentive :: "rx_call \<Rightarrow> ('m, 'r) prog \<Rightarrow> bool" where
  "attentive c (Return r) = True"
| "attentive c Unreachable = True"
| "attentive c Continue = False"
| "attentive c (Loop b) = True"
| "attentive c (Do \<alpha> k) = (learning c \<alpha> \<or> (\<forall>r. attentive c (k r)))"

primrec loops :: "rx_call \<Rightarrow> ('m, 'r) prog \<Rightarrow> bool" where
  "loops c (Return r) = True"
| "loops c Unreachable = True"
| "loops c Continue = True"
| "loops c (Loop b) = (attentive c b \<and> loops c b)"
| "loops c (Do \<alpha> k) = (\<forall>r. loops c (k r))"

lemma loops_map_prog [simp]:
  "attentive c (map_prog f p) = attentive c p" "loops c (map_prog f p) = loops c p"
  by (induction p) auto

lemma loops_rx_body: "loops c (rx_body li c)"
  by (cases c) (auto simp: code_unfold Let_def split: resp.split result.split option.split)

fun thread_loops :: "rx_call \<Rightarrow> ('m, 'r) thread \<Rightarrow> bool" where
  "thread_loops c (p, fr) =
     (loops c p \<and> (case fr of None \<Rightarrow> True | Some b \<Rightarrow> attentive c b \<and> loops c b))"

lemma thread_loops_step:
  assumes "thread_loops c th" "run_thread a ch th \<mu> = Step (th', \<mu>')"
  shows "thread_loops c th'"
  using assms
  by (cases "(a, ch, th, \<mu>)" rule: run_thread.cases) (auto split: outcome.splits option.splits)

lemma rx_thread_loops:
  "reachable li w \<Longrightarrow> rx_run w = Some (c, th) \<Longrightarrow> thread_loops c th"
proof (induction arbitrary: c th rule: reachable.induct)
  case (step w l w')
  show ?case
  proof (cases l)
    case (RxCall d)
    then show ?thesis
      using step by (auto simp: start_def loops_rx_body split: option.splits if_splits)
  next
    case (RxRun ch)
    then obtain th0 \<mu>' where "rx_run w = Some (c, th0)" "run_thread Rx ch th0 (mem w) = Step (th, \<mu>')"
      using step by (auto split: option.splits outcome.splits prod.splits)
    then show ?thesis
      using step.IH thread_loops_step by blast
  next
    case RxReturn
    then show ?thesis
      using step by (auto split: option.splits prog.splits)
  qed (use step step_frames(2) in \<open>metis label.distinct\<close>)+
qed (simp_all add: channel_def async_channel_def)

section \<open>Running to the end\<close>

text \<open>A thread of the receiver can run to its end, with choices in \<open>C\<close> and undisturbed by races.\<close>

inductive finishes :: "choice set \<Rightarrow> rx_call \<Rightarrow> ('m, 'r) thread \<Rightarrow> 'm mem \<Rightarrow> bool" for C c where
  returned: "finishes C c (Return r, fr) \<mu>"
| stepped: "run_thread Rx ch th \<mu> = Step (th', \<mu>') \<Longrightarrow> ch \<in> C \<Longrightarrow>
    (\<And>\<alpha>. next_action th = Some \<alpha> \<Longrightarrow> \<not> racy c \<alpha> ch \<mu>) \<Longrightarrow> finishes C c th' \<mu>' \<Longrightarrow> finishes C c th \<mu>"

text \<open>Without spurious wakeups.\<close>

abbreviation finishes_awake :: "rx_call \<Rightarrow> ('m, 'r) thread \<Rightarrow> 'm mem \<Rightarrow> bool" where
  "finishes_awake \<equiv> finishes (- {Spurious})"

lemma finishes_Loop: "finishes C c (b, Some b) \<mu> \<Longrightarrow> Go \<in> C \<Longrightarrow> finishes C c (Loop b, fr) \<mu>"
  by (rule finishes.stepped [where ch = Go and th' = "(b, Some b)" and \<mu>' = \<mu>]) simp_all

lemma finishes_Continue: "finishes C c (b, Some b) \<mu> \<Longrightarrow> Go \<in> C \<Longrightarrow> finishes C c (Continue, Some b) \<mu>"
  by (rule finishes.stepped [where ch = Go and th' = "(b, Some b)" and \<mu>' = \<mu>]) simp_all

lemma finishes_Do:
  assumes I: "channel_inv \<mu> g h" "tx_idle TxGone g" and S: "rx_proto_for c h \<alpha> = Some S"
    and k: "\<And>r \<mu>' h'. (r, h') \<in> S \<Longrightarrow> channel_inv \<mu>' g h' \<Longrightarrow> aware h \<or> learning c \<alpha> \<longrightarrow> aware h' \<Longrightarrow>
      finishes_awake c (k r, fr) \<mu>'"
  shows "finishes_awake c (Do \<alpha> k, fr) \<mu>"
proof -
  obtain r \<mu>' h' where st: "act Rx (diligent \<mu> h \<alpha>) \<alpha> \<mu> = Step (r, \<mu>')" and "(r, h') \<in> S" "channel_inv \<mu>' g h'"
    "aware h \<or> learning c \<alpha> \<longrightarrow> aware h'"
    using diligent_step [OF I S] by metis
  then have "finishes_awake c (k r, fr) \<mu>'"
    using k by blast
  then show ?thesis
    by (rule finishes.stepped [where ch = "diligent \<mu> h \<alpha>", rotated 3])
      (use st diligent_not_racy [OF I S] diligent_not_spurious in simp_all)
qed

text \<open>A receiver that knows how the sender ended does not wait any more.\<close>

lemma may_wait_iff: "may_wait (rx_proto_for c) h \<longleftrightarrow> \<not> aware h"
  by (cases h) (simp_all add: may_wait_def rx_proto_for_def)

lemma aware_finishes:
  assumes "channel_inv \<mu> g h" "tx_idle TxGone g" "safe p (rx_proto_for c) L Q h" "\<forall>h'\<in>L. \<not> aware h'" "aware h"
  shows "finishes_awake c (p, fr) \<mu>"
  using assms
proof (induction p arbitrary: \<mu> h)
  case (Return r)
  show ?case by (rule finishes.returned)
next
  case (Loop b)
  then show ?case by (auto simp: may_wait_iff)
next
  case (Do \<alpha> k)
  from Do.prems(3) obtain S where S: "rx_proto_for c h \<alpha> = Some S"
    and k: "\<And>r h'. (r, h') \<in> S \<Longrightarrow> safe (k r) (rx_proto_for c) L Q h'"
    by (rule safe_DoE) blast
  show ?case
    by (rule finishes_Do [OF Do.prems(1,2) S]) (use Do k in blast)
qed auto

lemma attentive_finishes:
  assumes "channel_inv \<mu> g h" "tx_idle TxGone g" "safe p (rx_proto_for c) L Q h" "\<forall>h'\<in>L. \<not> aware h'"
    and "loops c p" "attentive c p"
  shows "finishes_awake c (p, fr) \<mu>"
  using assms
proof (induction p arbitrary: \<mu> h L fr)
  case (Return r)
  show ?case by (rule finishes.returned)
next
  case (Loop b)
  then obtain L' where L': "h \<in> L'" "\<forall>h'\<in>L'. may_wait (rx_proto_for c) h' \<and> safe b (rx_proto_for c) L' Q h'"
    by auto
  have "finishes_awake c (b, Some b) \<mu>"
    by (rule Loop.IH [where L = L', OF Loop.prems(1,2)])
      (use L' Loop.prems in \<open>auto simp: may_wait_iff simp del: tx_idle.simps\<close>)
  then show ?case
    by (rule finishes_Loop) simp
next
  case (Do \<alpha> k)
  from Do.prems(3) obtain S where S: "rx_proto_for c h \<alpha> = Some S"
    and k: "\<And>r h'. (r, h') \<in> S \<Longrightarrow> safe (k r) (rx_proto_for c) L Q h'"
    by (rule safe_DoE) blast
  show ?case
  proof (rule finishes_Do [OF Do.prems(1,2) S])
    fix r \<mu>' h'
    assume r: "(r, h') \<in> S" "channel_inv \<mu>' g h'" "aware h \<or> learning c \<alpha> \<longrightarrow> aware h'"
    show "finishes_awake c (k r, fr) \<mu>'"
    proof (cases "learning c \<alpha>")
      case True
      then show ?thesis
        using r aware_finishes [OF r(2) Do.prems(2) k [OF r(1)] Do.prems(4)] by blast
    next
      case False
      then show ?thesis
        using Do.IH [of "k r" \<mu>' h' L fr] r(2) Do.prems k [OF r(1)] by auto
    qed
  qed
qed auto

lemma thread_finishes:
  assumes "channel_inv \<mu> g h" "tx_idle TxGone g" "safe p (rx_proto_for c) L Q h" "loops c p"
    and "case fr of None \<Rightarrow> L = {}
      | Some b \<Rightarrow> (\<forall>h'\<in>L. may_wait (rx_proto_for c) h' \<and> safe b (rx_proto_for c) L Q h') \<and> attentive c b \<and> loops c b"
  shows "finishes_awake c (p, fr) \<mu>"
  using assms
proof (induction p arbitrary: \<mu> h)
  case (Return r)
  show ?case by (rule finishes.returned)
next
  case Continue
  then obtain b where b: "fr = Some b" "h \<in> L" "\<forall>h'\<in>L. \<not> aware h' \<and> safe b (rx_proto_for c) L Q h'"
    "attentive c b" "loops c b"
    by (auto simp: may_wait_iff split: option.splits)
  then have "finishes_awake c (b, Some b) \<mu>"
    using attentive_finishes [OF Continue(1,2)] by blast
  then show ?case
    using b(1) by (auto intro: finishes_Continue)
next
  case (Loop b)
  then have "finishes_awake c (Loop b, fr) \<mu>"
    using attentive_finishes [OF Loop.prems(1,2), of "Loop b" c "{}"] by simp
  then show ?case .
next
  case (Do \<alpha> k)
  from Do.prems(3) obtain S where S: "rx_proto_for c h \<alpha> = Some S"
    and k: "\<And>r h'. (r, h') \<in> S \<Longrightarrow> safe (k r) (rx_proto_for c) L Q h'"
    by (rule safe_DoE) blast
  show ?case
    by (rule finishes_Do [OF Do.prems(1,2) S]) (use Do k in auto)
qed auto

text \<open>The receiver's call has returned, and the sending side is as it was.\<close>

definition ended_call :: "rx_call \<Rightarrow> 'm world \<Rightarrow> 'm world \<Rightarrow> bool" where
  "ended_call c w w' \<longleftrightarrow> rx_run w' = None \<and> (\<exists>r. rx_log w' = rx_log w @ [(c, r)]) \<and>
     tx_run w' = tx_run w \<and> tx_handle w' = tx_handle w \<and> tx_log w' = tx_log w"

lemma finishes_run:
  assumes "finishes C c th (mem w)" "rx_run w = Some (c, th)"
  shows "\<exists>chs w'. set chs \<subseteq> C \<and> clean_run li (map RxRun chs @ [RxReturn]) w = Some w' \<and> ended_call c w w'"
  using assms
proof (induction th "mem w" arbitrary: w rule: finishes.induct)
  case (returned r fr)
  then show ?case
    by (intro exI [of _ "[]"]) (auto simp: ended_call_def)
next
  case (stepped ch th th' \<mu>')
  let ?w = "w\<lparr>rx_run := Some (c, th'), mem := \<mu>'\<rparr>"
  have race: "\<not> in_race_window (RxRun ch) w"
    using stepped(3,6) by (cases th rule: next_action.cases) auto
  obtain chs w' where "set chs \<subseteq> C" "clean_run li (map RxRun chs @ [RxReturn]) ?w = Some w'" "ended_call c ?w w'"
    using stepped(5) [of ?w] by auto
  then show ?case
    using race stepped(1,2,6) by (intro exI [of _ "ch # chs"] exI [of _ w']) (auto simp: ended_call_def simp del: in_race_window.simps)
qed

lemma receiver_finishes:
  assumes "reachable li w" "tx_handle w = TxGone" "tx_run w = None" "rx_run w = Some (c, th)"
  shows "\<exists>chs w'. Spurious \<notin> set chs \<and> clean_run li (map RxRun chs @ [RxReturn]) w = Some w' \<and> ended_call c w w'"
proof -
  obtain p fr where run: "rx_run w = Some (c, p, fr)"
    using assms(4) by (cases th) simp
  obtain g h where inv: "channel_inv (mem w) g h" "tx_ok w g" "rx_ok w h"
    using reachable_inv [OF assms(1)] by (auto simp: world_inv_def)
  have "tx_trace (tx_log w) TxGone g"
    using tx_okE [OF inv(2)] assms(2,3) by metis
  then have g: "tx_idle TxGone g"
    by (rule tx_trace_idle)
  obtain L Q where "safe p (rx_proto_for c) L Q h"
    "case fr of None \<Rightarrow> L = {} | Some b \<Rightarrow> \<forall>h'\<in>L. may_wait (rx_proto_for c) h' \<and> safe b (rx_proto_for c) L Q h'"
    using inv(3) run by (auto simp: rx_ok_def safe_thread_def)
  then have "finishes_awake c (p, fr) (mem w)"
    using rx_thread_loops [OF assms(1) run]
    by (intro thread_finishes [OF inv(1) g]) (auto split: option.splits)
  then show ?thesis
    using finishes_run [OF _ run] by fastforce
qed

end
