(* ===== verification/Delivery.thy ===== *)
theory Delivery
  imports Completion Outcomes
begin

text \<open>
  Delivery: once \<open>send\<close> has returned successfully, a blocking receive can run to its end and returns
  the message.
\<close>

lemma delivered_gone:
  assumes "reachable li w" "(CSend m, TxSent (Ok ())) \<in> set (tx_log w)"
  shows "tx_handle w = TxGone \<and> tx_run w = None"
proof -
  obtain g where g: "tx_ok w g"
    using reachable_inv [OF assms(1)] by (auto simp: world_inv_def)
  obtain g0 where "tx_trace (tx_log w) (tx_handle w) g0"
    using g by (rule tx_okE)
  then have "tx_idle (tx_handle w) (TDone (Sent m))"
    using tx_trace_delivered [OF _ assms(2)] tx_trace_idle by blast
  then have "tx_handle w = TxGone"
    by (cases "tx_handle w") auto
  with g show ?thesis
    by (cases "tx_run w") (auto simp: tx_ok_def)
qed

lemma delivered_result:
  assumes "reachable li w" "(CSend m, TxSent (Ok ())) \<in> set (tx_log w)" "rx_log w = l @ [(c, r)]"
    and "received_in l = []" "blocking_call c"
  shows "r = RxRecv (Ok m)"
proof -
  note inv = reachable_inv [OF assms(1)]
  have "typed c r"
    using typed_result [OF assms(1)] assms(3) by simp
  then obtain x where x: "r = RxRecv x"
    using assms(5) by (auto simp: blocking_call_def)
  show ?thesis
  proof (cases x)
    case (Ok m')
    then show ?thesis
      using delivered_received [OF inv assms(2), of m'] assms(3) x by simp
  next
    case (Err e)
    then have "received_in (rx_log w) = [m]"
      using delivered_not_lost [OF inv assms(2), of c r] assms(3) x by simp
    then show ?thesis
      using assms(3,4) x Err by simp
  qed
qed

lemma recv_after_send:
  assumes "reachable li w" "(CSend m, TxSent (Ok ())) \<in> set (tx_log w)" "received_in (rx_log w) = []"
    and "rx_run w = None" "rx_handle w = RxReceiver" "blocking_call c"
  shows "\<exists>chs w'. clean_run li (RxCall c # map RxRun chs @ [RxReturn]) w = Some w' \<and>
    rx_log w' = rx_log w @ [(c, RxRecv (Ok m))]"
proof -
  let ?w = "w\<lparr>rx_run := Some (c, start (rx_body li c))\<rparr>"
  have call: "step li (RxCall c) w = Step ?w"
    using assms(4-6) by (auto simp: blocking_call_def)
  then have "reachable li ?w"
    using reachable.step [OF assms(1), of "RxCall c"] by simp
  then have "\<exists>chs w'. Spurious \<notin> set chs \<and> clean_run li (map RxRun chs @ [RxReturn]) ?w = Some w' \<and> ended_call c ?w w'"
    by (rule receiver_finishes) (use delivered_gone [OF assms(1,2)] in simp_all)
  then obtain chs w' where run: "clean_run li (map RxRun chs @ [RxReturn]) ?w = Some w'" and e: "ended_call c ?w w'"
    by blast
  then have all: "clean_run li (RxCall c # map RxRun chs @ [RxReturn]) w = Some w'"
    using call by simp
  obtain r where r: "rx_log w' = rx_log w @ [(c, r)]"
    using e by (auto simp: ended_call_def)
  moreover have "r = RxRecv (Ok m)"
    by (rule delivered_result [OF clean_run_reachable [OF assms(1) all] _ r assms(3,6)])
      (use e assms(2) in \<open>simp add: ended_call_def\<close>)
  ultimately show ?thesis
    using all by blast
qed

end
