(* ===== verification/Expiry.thy ===== *)
theory Expiry
  imports Completion Outcomes
begin

text \<open>
  While the sender is idle, a receive operation with a timeout runs to its end when the time is up,
  and reports the timeout.
\<close>

section \<open>Programs that end when the time is up\<close>

text \<open>
  \<open>expires n p\<close>: when the clock shows \<open>n\<close> or later and the sender is never seen unparking, \<open>p\<close> ends
  without going round a loop.
\<close>

fun expected :: "instant \<Rightarrow> 'm action \<Rightarrow> 'm resp \<Rightarrow> bool" where
  "expected n AInstantNow r = (\<exists>i\<ge>n. r = RInstant i)"
| "expected n \<alpha> r = (r \<noteq> RU8 UNPARKING)"

primrec expires :: "instant \<Rightarrow> ('m, 'r) prog \<Rightarrow> bool" where
  "expires n (Return r) = True"
| "expires n Unreachable = True"
| "expires n Continue = False"
| "expires n (Loop b) = expires n b"
| "expires n (Do \<alpha> k) = (\<forall>r. expected n \<alpha> r \<longrightarrow> expires n (k r))"

lemma expires_map_prog [simp]: "expires n (map_prog f p) = expires n p"
  by (induction p) auto

lemma expires_deadline: "i < n \<Longrightarrow> expires n (receiver_recv_deadline t i)"
  by (auto simp: code_unfold checked_duration_since_def split: resp.split)

section \<open>Running to the end\<close>

text \<open>A timed wait is over at once, and reading the clock lets the time pass.\<close>

fun patient :: "instant \<Rightarrow> 'm mem \<Rightarrow> 'm rx_ghost \<Rightarrow> 'm action \<Rightarrow> choice" where
  "patient n \<mu> h (APark t) = Spurious"
| "patient n \<mu> h (AParkTimeout t d) = Spurious"
| "patient n \<mu> h AInstantNow = Elapse n"
| "patient n \<mu> h \<alpha> = diligent \<mu> h \<alpha>"

lemma patient_visible:
  assumes "channel_inv \<mu> g h" "patient n \<mu> h \<alpha> = At i"
  shows "visible Rx i (ticked Rx \<mu>)"
  using assms diligent_visible [OF assms(1), of \<alpha>] by (cases \<alpha>) auto

lemma idle_receiver:
  assumes "channel_inv \<mu> (TIdle k) h" "h \<noteq> RLeft"
  obtains wk where "h = RQuiet wk" | w where "h = RRecv w"
  using assms by (cases h) (auto simp: channel_inv_def pre_def)

lemma patient_not_racy:
  assumes I: "channel_inv \<mu> (TIdle k) h" "h \<noteq> RLeft" and S: "rx_proto_for c h \<alpha> = Some S"
  shows "\<not> racy c \<alpha> (patient n \<mu> h \<alpha>) \<mu>"
proof -
  have S': "rx_proto h \<alpha> = Some S"
    using S by (simp add: rx_proto_for_def split: if_splits)
  have "\<forall>w. h \<noteq> RWait w" "\<forall>w. h \<noteq> RUnpk w"
    using idle_receiver [OF I] by auto
  then show ?thesis
    using no_drop_over_unparking [OF I(1) S'] no_unsynchronised_wakeup [OF I(1) S'] patient_visible [OF I(1)]
    by (simp add: racy_def)
qed

lemma patient_enabled:
  assumes I: "channel_inv \<mu> (TIdle k) h"
  shows "act Rx (patient n \<mu> h \<alpha>) \<alpha> \<mu> \<noteq> Disabled"
proof (cases "\<exists>t d. \<alpha> = APark t \<or> \<alpha> = AParkTimeout t d \<or> \<alpha> = AInstantNow")
  case True
  then show ?thesis
    by (auto simp: park_def)
next
  case False
  then have "patient n \<mu> h \<alpha> = diligent \<mu> h \<alpha>"
    by (cases \<alpha>) auto
  with False acting_enabled [OF I, of \<alpha>] show ?thesis
    by simp
qed

lemma patient_expected:
  assumes I: "channel_inv \<mu> (TIdle k) h" and st: "act Rx (patient n \<mu> h \<alpha>) \<alpha> \<mu> = Step (r, \<mu>')"
  shows "expected n \<alpha> r"
proof -
  have h: "UNPARKING \<notin> val ` set (hist \<mu>)" "hist \<mu> \<noteq> []"
    using I views_okD(1) by (auto simp: channel_inv_def pre_def)
  then have "val (hist \<mu> ! i) \<noteq> UNPARKING" if "i < length (hist \<mu>)" for i
    using that nth_mem by (metis imageI)
  then show ?thesis
    using st h(2)
    by (cases \<alpha>) (auto simp: access_def with_index_def load_at_def store_last_def rmw_def Let_def visible_def
        compare_exchange_at_def msg_access_def wak_access_def put_message_def move_message_def
        borrow_message_def drop_message_in_place_def put_waker_def move_waker_def park_def
        drop_waker_in_place_def free_channel_def split: option.splits if_splits choice.splits)
qed

text \<open>One action while the sender is idle.\<close>

lemma patient_step:
  assumes I: "channel_inv \<mu> (TIdle k) h" "h \<noteq> RLeft" and S: "rx_proto_for c h \<alpha> = Some S" and c: "\<not> leaving c"
  obtains r \<mu>' h' where "act Rx (patient n \<mu> h \<alpha>) \<alpha> \<mu> = Step (r, \<mu>')" "(r, h') \<in> S"
    "channel_inv \<mu>' (TIdle k) h'" "h' \<noteq> RLeft" "expected n \<alpha> r"
proof -
  have ex: "explained S (\<lambda>\<mu>' h'. channel_inv \<mu>' (TIdle k) h') (act Rx (patient n \<mu> h \<alpha>) \<alpha> \<mu>)"
    by (rule rx_sound [OF I(1) S patient_not_racy [OF I S]])
  then obtain r \<mu>' where st: "act Rx (patient n \<mu> h \<alpha>) \<alpha> \<mu> = Step (r, \<mu>')"
    using patient_enabled [OF I(1)] by (cases "act Rx (patient n \<mu> h \<alpha>) \<alpha> \<mu>") auto
  then obtain h' where h': "(r, h') \<in> S" "channel_inv \<mu>' (TIdle k) h'"
    using ex by auto
  have "h' \<noteq> RLeft"
    using rx_moves_leave [of h h' c] S h'(1) I(2) c by (auto simp: moves_def)
  with st h' show thesis
    using patient_expected [OF I(1) st] by (rule that)
qed

lemma expires_finishes:
  assumes "channel_inv \<mu> (TIdle k) h" "h \<noteq> RLeft" "safe p (rx_proto_for c) L Q h" "expires n p" "\<not> leaving c"
  shows "finishes UNIV c (p, fr) \<mu>"
  using assms
proof (induction p arbitrary: \<mu> h L fr)
  case (Return r)
  show ?case by (rule finishes.returned)
next
  case (Loop b)
  then obtain L' where "safe b (rx_proto_for c) L' Q h"
    by auto
  then have "finishes UNIV c (b, Some b) \<mu>"
    using Loop.IH [OF Loop.prems(1,2)] Loop.prems by simp
  then show ?case
    by (rule finishes_Loop) simp
next
  case (Do \<alpha> f)
  from Do.prems(3) obtain S where S: "rx_proto_for c h \<alpha> = Some S"
    and f: "\<And>r h'. (r, h') \<in> S \<Longrightarrow> safe (f r) (rx_proto_for c) L Q h'"
    by (rule safe_DoE) blast
  obtain r \<mu>' h' where r: "act Rx (patient n \<mu> h \<alpha>) \<alpha> \<mu> = Step (r, \<mu>')" "(r, h') \<in> S"
    "channel_inv \<mu>' (TIdle k) h'" "h' \<noteq> RLeft" "expected n \<alpha> r"
    using patient_step [OF Do.prems(1,2) S Do.prems(5)] by metis
  have "finishes UNIV c (f r, fr) \<mu>'"
    by (rule Do.IH [OF _ r(3,4) f [OF r(2)]]) (use Do.prems r in auto)
  then show ?case
    by (rule finishes.stepped [where ch = "patient n \<mu> h \<alpha>", rotated 3])
      (use r patient_not_racy [OF Do.prems(1,2) S] in simp_all)
qed auto

section \<open>The result\<close>

text \<open>A sender that has neither sent nor been dropped, between two calls.\<close>

definition tx_waits :: "'m world \<Rightarrow> bool" where
  "tx_waits w \<longleftrightarrow> tx_run w = None \<and> (tx_handle w = TxSender \<or> tx_handle w = TxRaw)"

lemma tx_waits_idle:
  assumes "tx_waits w" "tx_ok w g"
  shows "\<exists>k. g = TIdle k"
proof -
  have "tx_trace (tx_log w) (tx_handle w) g"
    using tx_okE [OF assms(2)] assms(1) by (metis tx_waits_def)
  then have "tx_idle (tx_handle w) g"
    by (rule tx_trace_idle)
  then show ?thesis
    using assms(1) by (auto simp: tx_waits_def)
qed

lemma idle_message: "joint (TIdle k) h \<mu> \<Longrightarrow> rx_msg h = None"
  by (cases h) (auto simp: pre_def)

lemma waiting_result:
  assumes "world_inv w" "tx_waits w" "rx_run w = None" "rx_log w = l @ [(c, r)]" "kind_of c = Receiving"
  shows "receipt_of r = Not_Yet \<and> typed c r"
proof -
  obtain g h where inv: "channel_inv (mem w) g h" "tx_ok w g" "rx_ok w h"
    using assms(1) by (auto simp: world_inv_def)
  obtain k where "g = TIdle k"
    using tx_waits_idle [OF assms(2) inv(2)] by blast
  then have msg: "rx_msg h = None"
    using inv(1) idle_message by (auto simp: channel_inv_def)
  have "rx_trace (l @ [(c, r)]) (rx_handle w) h"
    using rx_okE [OF inv(3)] assms(3,4) by metis
  then obtain h0 where "rx_meets c h0 h r"
    by (cases rule: rx_trace.cases) auto
  then have "received_as (receipt_of r) (rx_msg h0) None" "typed c r"
    using assms(5) msg by (simp_all add: rx_meets_def rx_contract_def receives_def)
  then show ?thesis
    by (cases "receipt_of r") (auto split: if_splits)
qed

lemma timed_result: "timed c \<Longrightarrow> typed c r \<Longrightarrow> receipt_of r = Not_Yet \<Longrightarrow> r = RxTimeout (Err RecvTimeoutError_Timeout)"
  by (cases c; cases r rule: receipt_of.cases) auto

lemma timed_finishes:
  assumes "world_inv w" "tx_waits w" "rx_run w = None" "rx_handle w = RxReceiver"
    and "c = CRecvDeadline t i \<or> c = CRecvTimeout t d \<and> clock (mem w) + d \<le> li"
  shows "finishes UNIV c (start (rx_body li c)) (mem w)"
proof -
  obtain g h where inv: "channel_inv (mem w) g h" "tx_ok w g" "rx_ok w h"
    using assms(1) by (auto simp: world_inv_def)
  obtain k where g: "g = TIdle k"
    using tx_waits_idle [OF assms(2) inv(2)] by blast
  have h: "rx_idle RxReceiver h"
    using rx_okE [OF inv(3)] rx_trace_idle assms(3,4) by metis
  then have left: "h \<noteq> RLeft"
    by auto
  have fin: "finishes UNIV c (map_prog RxTimeout (receiver_recv_deadline t j), None) \<mu>"
    if "channel_inv \<mu> (TIdle k) h" for j \<mu>
  proof (rule expires_finishes [OF that left])
    show "safe (map_prog RxTimeout (receiver_recv_deadline t j)) (rx_proto_for c) {} (\<lambda>_ _. True) h"
      using safe_mono [OF safe_recv_deadline [of c h t j]] assms(5) h by auto
    show "expires (Suc j) (map_prog RxTimeout (receiver_recv_deadline t j))"
      by (simp add: expires_deadline)
  qed (use assms(5) in auto)
  show ?thesis
  proof (cases "c = CRecvDeadline t i")
    case True
    then show ?thesis
      using fin inv(1) g by (simp add: start_def)
  next
    case False
    then have c: "c = CRecvTimeout t d" "checked_add li (clock (mem w)) d = Some (clock (mem w) + d)"
      using assms(5) by (auto simp: checked_add_def)
    show ?thesis
      by (rule finishes.stepped [where ch = "Elapse 0", OF _ _ _ fin [of "mem w" "clock (mem w) + d"]])
        (use c inv(1) g in \<open>auto simp: start_def receiver_recv_timeout_def instant_now_def racy_def
          unsynchronised_wakeup_def\<close>)
  qed
qed

lemma timed_call_times_out:
  assumes "reachable li w" "tx_waits w" "rx_run w = None" "rx_handle w = RxReceiver"
    and "c = CRecvDeadline t i \<or> c = CRecvTimeout t d \<and> clock (mem w) + d \<le> li"
  shows "\<exists>chs w'. clean_run li (RxCall c # map RxRun chs @ [RxReturn]) w = Some w' \<and>
    rx_log w' = rx_log w @ [(c, RxTimeout (Err RecvTimeoutError_Timeout))]"
proof -
  let ?w = "w\<lparr>rx_run := Some (c, start (rx_body li c))\<rparr>"
  have call: "step li (RxCall c) w = Step ?w"
    using assms(3-5) by auto
  have "finishes UNIV c (start (rx_body li c)) (mem ?w)"
    using timed_finishes [OF reachable_inv [OF assms(1)] assms(2-5)] by simp
  then have "\<exists>chs w'. set chs \<subseteq> UNIV \<and> clean_run li (map RxRun chs @ [RxReturn]) ?w = Some w' \<and> ended_call c ?w w'"
    by (rule finishes_run) simp
  then obtain chs w' where run: "clean_run li (map RxRun chs @ [RxReturn]) ?w = Some w'" and e: "ended_call c ?w w'"
    by blast
  then have all: "clean_run li (RxCall c # map RxRun chs @ [RxReturn]) w = Some w'"
    using call by simp
  obtain r where r: "rx_log w' = rx_log w @ [(c, r)]"
    using e by (auto simp: ended_call_def)
  have "tx_waits w'" "rx_run w' = None"
    using e assms(2) by (auto simp: ended_call_def tx_waits_def)
  then have "receipt_of r = Not_Yet \<and> typed c r"
    using waiting_result [OF reachable_inv [OF clean_run_reachable [OF assms(1) all]] _ _ r] assms(5) by auto
  then have "r = RxTimeout (Err RecvTimeoutError_Timeout)"
    using timed_result [of c r] assms(5) by auto
  with all r show ?thesis
    by blast
qed

end
