(* ===== verification/Examples.thy ===== *)
theory Examples
  imports Outcomes
begin

text \<open>
  The example programs of the repository (\<open>examples/*.rs\<close>): one or two threads that call the
  methods in sequence and check the results.
\<close>

section \<open>Programs\<close>

type_synonym u128 = "128 word"

text \<open>
  A statement calls a method and checks its result (\<open>assert!\<close>, \<open>assert_eq!\<close>, \<open>unwrap\<close>,
  \<open>unwrap_err\<close>), or joins the spawned thread. The end of a scope drops the receiver that is still
  in hand; the sleep of a spawned thread is the freedom of the scheduler to run it late.
\<close>

datatype 'm stmt =
    OnTx "'m tx_call" "'m tx_ret \<Rightarrow> bool"
  | OnRx rx_call "'m rx_ret \<Rightarrow> bool"
  | Join

record 'm program =
  main_thread :: "'m stmt list"
  spawned :: "'m stmt list"

definition no_check :: "'a \<Rightarrow> bool" where
  "no_check r \<longleftrightarrow> True"

definition is_sent :: "'m tx_ret \<Rightarrow> bool" where
  "is_sent r \<longleftrightarrow> r = TxSent (Ok ())"

definition is_rejected :: "'m tx_ret \<Rightarrow> bool" where
  "is_rejected r \<longleftrightarrow> r = TxSent (Err SendError)"

definition gives_back :: "'m \<Rightarrow> 'm tx_ret \<Rightarrow> bool" where
  "gives_back m r \<longleftrightarrow> r = TxInner m"

definition is_message :: "'m \<Rightarrow> 'm rx_ret \<Rightarrow> bool" where
  "is_message m r \<longleftrightarrow> receipt_of r = Got m"

fun is_err :: "'m rx_ret \<Rightarrow> bool" where
  "is_err (RxRecv (Err e)) = True"
| "is_err (RxTimeout (Err e)) = True"
| "is_err r = False"

text \<open>\<open>t\<close> is the main thread; times are in milliseconds.\<close>

definition recv_before_send :: "tid \<Rightarrow> u128 program" where
  "recv_before_send t =
     \<lparr>main_thread = [OnRx (CRecv t) (is_message 9), Join],
      spawned = [OnTx (CSend 9) is_sent]\<rparr>"

definition recv_before_send_then_drop_sender :: "tid \<Rightarrow> u128 program" where
  "recv_before_send_then_drop_sender t =
     \<lparr>main_thread = [OnRx (CRecv t) is_err, Join],
      spawned = [OnTx CTxDrop no_check]\<rparr>"

definition recv_ref_before_send :: "tid \<Rightarrow> u128 program" where
  "recv_ref_before_send t =
     \<lparr>main_thread = [OnRx (CRecvRef t) (is_message 9), Join, OnRx CDrop no_check],
      spawned = [OnTx (CSend 9) is_sent]\<rparr>"

definition recv_ref_before_send_then_drop_sender :: "tid \<Rightarrow> u128 program" where
  "recv_ref_before_send_then_drop_sender t =
     \<lparr>main_thread = [OnRx (CRecvRef t) is_err, Join, OnRx CDrop no_check],
      spawned = [OnTx CTxDrop no_check]\<rparr>"

definition recv_timeout_before_send :: "tid \<Rightarrow> u128 program" where
  "recv_timeout_before_send t =
     \<lparr>main_thread = [OnRx (CRecvTimeout t 100) (is_message 9), Join, OnRx CDrop no_check],
      spawned = [OnTx (CSend 9) is_sent]\<rparr>"

definition recv_timeout_before_send_then_drop_sender :: "tid \<Rightarrow> u128 program" where
  "recv_timeout_before_send_then_drop_sender t =
     \<lparr>main_thread = [OnRx (CRecvTimeout t 100) is_err, Join, OnRx CDrop no_check],
      spawned = [OnTx CTxDrop no_check]\<rparr>"

definition recv_with_dropped_sender :: "tid \<Rightarrow> u128 program" where
  "recv_with_dropped_sender t =
     \<lparr>main_thread = [OnTx CTxDrop no_check, OnRx (CRecv t) is_err], spawned = []\<rparr>"

definition send_before_recv :: "tid \<Rightarrow> u128 program" where
  "send_before_recv t =
     \<lparr>main_thread = [OnTx (CSend 19) is_sent, OnRx (CRecv t) (is_message 19)], spawned = []\<rparr>"

definition send_then_drop_receiver :: "u128 program" where
  "send_then_drop_receiver =
     \<lparr>main_thread = [OnTx (CSend 19) is_sent, OnRx CDrop no_check], spawned = []\<rparr>"

definition send_with_dropped_receiver :: "u128 program" where
  "send_with_dropped_receiver =
     \<lparr>main_thread = [OnRx CDrop no_check, OnTx (CSend 5) is_rejected, OnTx CErrIntoInner (gives_back 5)],
      spawned = []\<rparr>"

section \<open>Executions\<close>

datatype move = Call | Act choice | Ret

fun label_of :: "move \<Rightarrow> 'm stmt \<Rightarrow> 'm label option" where
  "label_of Call (OnTx c P) = Some (TxCall c)"
| "label_of (Act ch) (OnTx c P) = Some (TxRun ch)"
| "label_of Ret (OnTx c P) = Some TxReturn"
| "label_of Call (OnRx c P) = Some (RxCall c)"
| "label_of (Act ch) (OnRx c P) = Some (RxRun ch)"
| "label_of Ret (OnRx c P) = Some RxReturn"
| "label_of mv Join = None"

fun check :: "'m stmt \<Rightarrow> 'm world \<Rightarrow> bool" where
  "check (OnTx c P) w = P (snd (last (tx_log w)))"
| "check (OnRx c P) w = P (snd (last (rx_log w)))"
| "check Join w = True"

text \<open>
  The next move of a thread that still has to execute \<open>ss\<close>: its remaining statements, the channel,
  and whether the check of a result has succeeded.
\<close>

definition advance ::
  "instant \<Rightarrow> move \<Rightarrow> bool \<Rightarrow> 'm stmt list \<Rightarrow> 'm world \<Rightarrow> ('m stmt list \<times> 'm world \<times> bool) outcome" where
  "advance li mv joinable ss w =
     (case ss of
        [] \<Rightarrow> Disabled
      | s # rest \<Rightarrow>
          (case label_of mv s of
             None \<Rightarrow> if joinable \<and> mv = Ret then Step (rest, w, True) else Disabled
           | Some l \<Rightarrow>
               (case step li l w of
                  Disabled \<Rightarrow> Disabled
                | Fault f \<Rightarrow> Fault f
                | Step w' \<Rightarrow> Step (if mv = Ret then (rest, w', check s w') else (ss, w', True)))))"

record 'm exec =
  ex_world :: "'m world"
  main_rest :: "'m stmt list"
  spawned_rest :: "'m stmt list"
  panicked :: bool

definition racing :: "move \<Rightarrow> 'm stmt list \<Rightarrow> 'm world \<Rightarrow> bool" where
  "racing mv ss w =
     (case ss of [] \<Rightarrow> False
      | s # rest \<Rightarrow> (case label_of mv s of None \<Rightarrow> False | Some l \<Rightarrow> in_race_window l w))"

definition launch :: "'m program \<Rightarrow> (tid \<Rightarrow> bool) \<Rightarrow> 'm exec" where
  "launch p parked = \<lparr>ex_world = channel parked, main_rest = main_thread p, spawned_rest = spawned p,
     panicked = False\<rparr>"

inductive executes :: "instant \<Rightarrow> 'm program \<Rightarrow> 'm exec \<Rightarrow> bool" for li p where
  launched: "executes li p (launch p parked)"
| by_main: "executes li p e \<Longrightarrow> \<not> panicked e \<Longrightarrow> \<not> racing mv (main_rest e) (ex_world e) \<Longrightarrow>
    advance li mv (spawned_rest e = []) (main_rest e) (ex_world e) = Step (ss, w, ok) \<Longrightarrow>
    executes li p (e\<lparr>main_rest := ss, ex_world := w, panicked := \<not> ok\<rparr>)"
| by_spawned: "executes li p e \<Longrightarrow> \<not> panicked e \<Longrightarrow> \<not> racing mv (spawned_rest e) (ex_world e) \<Longrightarrow>
    advance li mv False (spawned_rest e) (ex_world e) = Step (ss, w, ok) \<Longrightarrow>
    executes li p (e\<lparr>spawned_rest := ss, ex_world := w, panicked := \<not> ok\<rparr>)"

section \<open>Where an execution stands\<close>

fun tx_part :: "'m stmt list \<Rightarrow> 'm tx_call list" where
  "tx_part [] = []"
| "tx_part (OnTx c P # ss) = c # tx_part ss"
| "tx_part (s # ss) = tx_part ss"

fun rx_part :: "'m stmt list \<Rightarrow> rx_call list" where
  "rx_part [] = []"
| "rx_part (OnRx c P # ss) = c # rx_part ss"
| "rx_part (s # ss) = rx_part ss"

text \<open>The sender is used by one of the threads only, and the receiver by the main thread.\<close>

definition owned_well :: "'m program \<Rightarrow> bool" where
  "owned_well p \<longleftrightarrow> (tx_part (main_thread p) = [] \<or> tx_part (spawned p) = []) \<and> rx_part (spawned p) = []"

lemma tx_part_append [simp]: "tx_part (ss @ ss') = tx_part ss @ tx_part ss'"
  by (induction ss rule: tx_part.induct) simp_all

lemma rx_part_append [simp]: "rx_part (ss @ ss') = rx_part ss @ rx_part ss'"
  by (induction ss rule: rx_part.induct) simp_all

text \<open>The calls of an endpoint that a thread may be in: that of its next statement.\<close>

definition in_hand_tx :: "'m world \<Rightarrow> 'm stmt list \<Rightarrow> bool" where
  "in_hand_tx w ss \<longleftrightarrow> fst ` set_option (tx_run w) \<subseteq> set (tx_part (take 1 ss))"

definition in_hand_rx :: "'m world \<Rightarrow> 'm stmt list \<Rightarrow> bool" where
  "in_hand_rx w ss \<longleftrightarrow> fst ` set_option (rx_run w) \<subseteq> set (rx_part (take 1 ss))"

text \<open>\<open>dm\<close> and \<open>ds\<close> have been executed by the two threads.\<close>

definition stands :: "instant \<Rightarrow> 'm program \<Rightarrow> 'm stmt list \<Rightarrow> 'm stmt list \<Rightarrow> 'm exec \<Rightarrow> bool" where
  "stands li p dm ds e \<longleftrightarrow>
     reachable li (ex_world e) \<and>
     main_thread p = dm @ main_rest e \<and> spawned p = ds @ spawned_rest e \<and>
     map fst (tx_log (ex_world e)) = tx_part dm @ tx_part ds \<and>
     map fst (rx_log (ex_world e)) = rx_part dm \<and>
     (in_hand_tx (ex_world e) (main_rest e) \<or> in_hand_tx (ex_world e) (spawned_rest e)) \<and>
     in_hand_rx (ex_world e) (main_rest e)"

lemma stands_reachable: "stands li p dm ds e \<Longrightarrow> reachable li (ex_world e)"
  by (simp add: stands_def)

lemma stands_launch: "stands li p [] [] (launch p parked)"
  by (auto simp: stands_def launch_def in_hand_tx_def in_hand_rx_def channel_def intro: reachable.init [unfolded channel_def])

text \<open>What a statement's move does to the channel.\<close>

lemma advanceE:
  assumes "advance li mv joinable ss w = Step (ss', w', ok)" "reachable li w" "\<not> racing mv ss w"
  obtains (joined) "ss = Join # ss'" "w' = w" "ok" "joinable"
  | (moved) s rest l where "ss = s # rest" "label_of mv s = Some l" "step li l w = Step w'" "reachable li w'"
      "mv \<noteq> Ret" "ss' = ss" "ok"
  | (returned) s l where "ss = s # ss'" "label_of Ret s = Some l" "step li l w = Step w'" "reachable li w'"
      "mv = Ret" "ok = check s w'"
proof (cases ss)
  case (Cons s rest)
  show thesis
  proof (cases "label_of mv s")
    case None
    then have "s = Join"
      by (cases "(mv, s)" rule: label_of.cases) auto
    then show thesis
      using assms(1) Cons None by (intro joined) (auto simp: advance_def split: if_splits)
  next
    case (Some l)
    then have st: "step li l w = Step w'"
      using assms(1) Cons by (auto simp: advance_def split: outcome.splits if_splits)
    have "\<not> in_race_window l w"
      using assms(3) Cons Some by (simp add: racing_def)
    then have "reachable li w'"
      using assms(2) st by (blast intro: reachable.step)
    note r = this
    show thesis
    proof (cases "mv = Ret")
      case True
      then have "ss' = rest" "ok = check s w'"
        using assms(1) Cons Some st by (simp_all add: advance_def)
      then show thesis
        using returned [of s l] Cons Some st r True by simp
    next
      case False
      then have "ss' = ss" "ok"
        using assms(1) Cons Some st by (simp_all add: advance_def)
      then show thesis
        using moved [of s rest l] Cons Some st r False by blast
    qed
  qed
qed (use assms in \<open>simp add: advance_def\<close>)

lemma stmt_moves:
  assumes "label_of mv s = Some l" "step li l w = Step w'" "mv \<noteq> Ret"
  shows "tx_log w' = tx_log w" "rx_log w' = rx_log w"
    and "fst ` set_option (tx_run w') \<subseteq> fst ` set_option (tx_run w) \<union> set (tx_part [s])"
    and "fst ` set_option (rx_run w') \<subseteq> fst ` set_option (rx_run w) \<union> set (rx_part [s])"
    and "tx_part [s] = [] \<Longrightarrow> tx_run w' = tx_run w" "rx_part [s] = [] \<Longrightarrow> rx_run w' = rx_run w"
  using assms
  by (cases "(mv, s)" rule: label_of.cases;
      auto split: option.splits if_splits outcome.splits prod.splits prog.splits)+

lemma tx_returns:
  assumes "step li TxReturn w = Step w'"
  obtains c th r where "tx_run w = Some (c, th)" "tx_run w' = None" "tx_log w' = tx_log w @ [(c, r)]"
    "rx_run w' = rx_run w" "rx_log w' = rx_log w"
  using assms by (auto split: option.splits prog.splits)

lemma rx_returns:
  assumes "step li RxReturn w = Step w'"
  obtains c th r where "rx_run w = Some (c, th)" "rx_run w' = None" "rx_log w' = rx_log w @ [(c, r)]"
    "rx_handle w' = rx_after c" "tx_run w' = tx_run w" "tx_log w' = tx_log w"
  using assms by (auto split: option.splits prog.splits)

lemma in_hand_Cons:
  "in_hand_tx w (s # ss) \<longleftrightarrow> fst ` set_option (tx_run w) \<subseteq> set (tx_part [s])"
  "in_hand_rx w (s # ss) \<longleftrightarrow> fst ` set_option (rx_run w) \<subseteq> set (rx_part [s])"
  by (simp_all add: in_hand_tx_def in_hand_rx_def)

lemma in_hand_none: "tx_run w = None \<Longrightarrow> in_hand_tx w ss" "rx_run w = None \<Longrightarrow> in_hand_rx w ss"
  by (simp_all add: in_hand_tx_def in_hand_rx_def)

lemma in_hand_nothing:
  "in_hand_tx w ss \<Longrightarrow> tx_part ss = [] \<Longrightarrow> tx_run w = None"
  "in_hand_rx w ss \<Longrightarrow> rx_part ss = [] \<Longrightarrow> rx_run w = None"
  using tx_part_append [of "take 1 ss" "drop 1 ss"] rx_part_append [of "take 1 ss" "drop 1 ss"]
  by (simp_all add: in_hand_tx_def in_hand_rx_def)

text \<open>The sender's calls are in the hand of the thread that has them.\<close>

lemma stands_tx:
  assumes "stands li p dm ds e" "owned_well p"
  shows "tx_part (main_rest e) \<noteq> [] \<Longrightarrow> in_hand_tx (ex_world e) (main_rest e)"
    and "tx_part (spawned_rest e) \<noteq> [] \<Longrightarrow> in_hand_tx (ex_world e) (spawned_rest e)"
  using assms in_hand_nothing(1) [of "ex_world e"] in_hand_none(1) [of "ex_world e"]
  by (auto simp: stands_def owned_well_def)

lemma stands_main:
  assumes S: "stands li p dm ds e" and p: "owned_well p" and "\<not> racing mv (main_rest e) (ex_world e)"
    and "advance li mv joinable (main_rest e) (ex_world e) = Step (ss, w, ok)"
  shows "\<exists>dm'. stands li p dm' ds (e\<lparr>main_rest := ss, ex_world := w, panicked := x\<rparr>) \<and>
    (Join \<in> set dm' \<longrightarrow> Join \<in> set dm \<or> joinable) \<and>
    (\<not> ok \<longrightarrow> (\<exists>s. dm' = dm @ [s] \<and> \<not> check s w \<and> rx_run w = None))"
  using assms(4) stands_reachable [OF S] assms(3)
proof (cases rule: advanceE)
  case joined
  then show ?thesis
    using S by (intro exI [of _ "dm @ [Join]"]) (auto simp: stands_def in_hand_tx_def in_hand_rx_def)
next
  case (moved s rest l)
  note m = stmt_moves [OF moved(2,3,5)]
  have "in_hand_tx w ss \<or> in_hand_tx w (spawned_rest e)"
  proof (cases "tx_part [s] = []")
    case True
    then have "tx_run w = tx_run (ex_world e)"
      using m(5) by blast
    then show ?thesis
      using S moved(6) by (simp add: stands_def in_hand_tx_def)
  next
    case False
    then have "in_hand_tx (ex_world e) (main_rest e)"
      using stands_tx(1) [OF S p] moved(1) by (cases s) auto
    then show ?thesis
      using m(3) moved(1,6) by (auto simp: in_hand_Cons)
  qed
  moreover have "in_hand_rx w ss"
    using S m(4) moved(1,6) by (auto simp: stands_def in_hand_Cons)
  ultimately show ?thesis
    using S moved m(1,2) by (intro exI [of _ dm]) (auto simp: stands_def)
next
  case (returned s l)
  show ?thesis
  proof (cases s)
    case (OnTx c P)
    then have "step li TxReturn (ex_world e) = Step w"
      using returned by simp
    then obtain c' th r where r: "tx_run (ex_world e) = Some (c', th)" "tx_run w = None"
      "tx_log w = tx_log (ex_world e) @ [(c', r)]" "rx_run w = rx_run (ex_world e)" "rx_log w = rx_log (ex_world e)"
      by (rule tx_returns)
    have "in_hand_tx (ex_world e) (main_rest e)"
      using stands_tx(1) [OF S p] returned(1) OnTx by simp
    then have "c' = c"
      using r(1) returned(1) OnTx by (simp add: in_hand_Cons)
    moreover have "rx_run w = None"
      using S r(4) returned(1) OnTx by (auto simp: stands_def in_hand_Cons)
    moreover have "tx_part ds = []"
      using S p returned(1) OnTx by (auto simp: stands_def owned_well_def)
    ultimately show ?thesis
      using S r returned OnTx by (intro exI [of _ "dm @ [s]"]) (auto simp: stands_def in_hand_none)
  next
    case (OnRx c P)
    then have "step li RxReturn (ex_world e) = Step w"
      using returned by simp
    then obtain c' th r where r: "rx_run (ex_world e) = Some (c', th)" "rx_run w = None"
      "rx_log w = rx_log (ex_world e) @ [(c', r)]" "tx_run w = tx_run (ex_world e)" "tx_log w = tx_log (ex_world e)"
      by (rule rx_returns)
    have "c' = c"
      using S r(1) returned(1) OnRx by (simp add: stands_def in_hand_Cons)
    moreover have "in_hand_tx w ss \<or> in_hand_tx w (spawned_rest e)"
      using S r(4) returned(1) OnRx by (auto simp: stands_def in_hand_Cons in_hand_tx_def)
    ultimately show ?thesis
      using S r returned OnRx by (intro exI [of _ "dm @ [s]"]) (auto simp: stands_def in_hand_none)
  qed (use returned in simp)
qed

lemma stands_spawned:
  assumes S: "stands li p dm ds e" and p: "owned_well p" and "\<not> racing mv (spawned_rest e) (ex_world e)"
    and "advance li mv False (spawned_rest e) (ex_world e) = Step (ss, w, ok)"
  shows "\<exists>ds'. stands li p dm ds' (e\<lparr>spawned_rest := ss, ex_world := w, panicked := x\<rparr>) \<and>
    (\<not> ok \<longrightarrow> (\<exists>s. ds' = ds @ [s] \<and> \<not> check s w))"
  using assms(4) stands_reachable [OF S] assms(3)
proof (cases rule: advanceE)
  case (moved s rest l)
  note m = stmt_moves [OF moved(2,3,5)]
  have nr: "rx_part [s] = []"
    using S p moved(1) by (cases s) (auto simp: stands_def owned_well_def)
  have "in_hand_tx w (main_rest e) \<or> in_hand_tx w ss"
  proof (cases "tx_part [s] = []")
    case True
    then have "tx_run w = tx_run (ex_world e)"
      using m(5) by blast
    then show ?thesis
      using S moved(6) by (simp add: stands_def in_hand_tx_def)
  next
    case False
    then have "in_hand_tx (ex_world e) (spawned_rest e)"
      using stands_tx(2) [OF S p] moved(1) by (cases s) auto
    then show ?thesis
      using m(3) moved(1,6) by (auto simp: in_hand_Cons)
  qed
  moreover have "in_hand_rx w (main_rest e)"
    using S m(6) [OF nr] by (simp add: stands_def in_hand_rx_def)
  ultimately show ?thesis
    using S moved m(1,2) by (intro exI [of _ ds]) (auto simp: stands_def)
next
  case (returned s l)
  show ?thesis
  proof (cases s)
    case (OnTx c P)
    then have "step li TxReturn (ex_world e) = Step w"
      using returned by simp
    then obtain c' th r where r: "tx_run (ex_world e) = Some (c', th)" "tx_run w = None"
      "tx_log w = tx_log (ex_world e) @ [(c', r)]" "rx_run w = rx_run (ex_world e)" "rx_log w = rx_log (ex_world e)"
      by (rule tx_returns)
    have "in_hand_tx (ex_world e) (spawned_rest e)"
      using stands_tx(2) [OF S p] returned(1) OnTx by simp
    then have "c' = c"
      using r(1) returned(1) OnTx by (simp add: in_hand_Cons)
    moreover have "in_hand_rx w (main_rest e)"
      using S r(4) by (simp add: stands_def in_hand_rx_def)
    ultimately show ?thesis
      using S r returned OnTx by (intro exI [of _ "ds @ [s]"]) (auto simp: stands_def in_hand_none)
  next
    case (OnRx c P)
    then show ?thesis
      using S p returned(1) by (auto simp: stands_def owned_well_def)
  qed (use returned in simp)
qed (use assms in simp)

text \<open>A failed check is the one of the statement just executed.\<close>

definition failed_main :: "'m stmt list \<Rightarrow> 'm world \<Rightarrow> bool" where
  "failed_main dm w \<longleftrightarrow> dm \<noteq> [] \<and> \<not> check (last dm) w \<and> rx_run w = None"

definition failed_spawned :: "'m stmt list \<Rightarrow> 'm stmt list \<Rightarrow> 'm world \<Rightarrow> bool" where
  "failed_spawned dm ds w \<longleftrightarrow> ds \<noteq> [] \<and> \<not> check (last ds) w \<and> Join \<notin> set dm"

lemma executes_stands:
  assumes "executes li p e" "owned_well p"
  shows "\<exists>dm ds. stands li p dm ds e \<and> (Join \<in> set dm \<longrightarrow> spawned_rest e = []) \<and>
    (panicked e \<longrightarrow> failed_main dm (ex_world e) \<or> failed_spawned dm ds (ex_world e))"
  using assms(1)
proof (induction rule: executes.induct)
  case (launched parked)
  show ?case
    using stands_launch [of li p parked] by (intro exI [of _ "[]"]) (auto simp: launch_def)
next
  case (by_main e mv ss w ok)
  then obtain dm ds where S: "stands li p dm ds e" "Join \<in> set dm \<longrightarrow> spawned_rest e = []"
    by blast
  then show ?case
    using stands_main [OF S(1) assms(2) by_main(3,4), of "\<not> ok"] by (fastforce simp: failed_main_def)
next
  case (by_spawned e mv ss w ok)
  then obtain dm ds where S: "stands li p dm ds e" "Join \<in> set dm \<longrightarrow> spawned_rest e = []"
    by blast
  moreover have "spawned_rest e \<noteq> []"
    using by_spawned(4) by (auto simp: advance_def)
  ultimately show ?case
    using stands_spawned [OF S(1) assms(2) by_spawned(3,4), of "\<not> ok"] by (fastforce simp: failed_spawned_def)
qed

text \<open>The calls made so far.\<close>

definition tx_script :: "'m program \<Rightarrow> 'm tx_call set" where
  "tx_script p = set (tx_part (main_thread p)) \<union> set (tx_part (spawned p))"

lemma stands_tx_calls:
  assumes "stands li p dm ds e"
  shows "tx_calls (ex_world e) \<subseteq> tx_script p"
proof -
  have "fst ` set (tx_log (ex_world e)) = set (tx_part dm) \<union> set (tx_part ds)"
    using assms by (metis list.set_map set_append stands_def)
  then show ?thesis
    using assms tx_part_append [of "take 1 (main_rest e)" "drop 1 (main_rest e)"]
      tx_part_append [of "take 1 (spawned_rest e)" "drop 1 (spawned_rest e)"]
    by (auto simp: stands_def tx_script_def tx_calls_def in_hand_tx_def)
qed

lemma stands_rx_calls:
  assumes "stands li p dm ds e"
  shows "rx_calls (ex_world e) \<subseteq> set (rx_part dm) \<union> set (rx_part (take 1 (main_rest e)))"
    and "rx_run (ex_world e) = None \<Longrightarrow> rx_calls (ex_world e) = set (rx_part dm)"
proof -
  have "fst ` set (rx_log (ex_world e)) = set (rx_part dm)"
    using assms by (metis list.set_map stands_def)
  then show "rx_calls (ex_world e) \<subseteq> set (rx_part dm) \<union> set (rx_part (take 1 (main_rest e)))"
    and "rx_run (ex_world e) = None \<Longrightarrow> rx_calls (ex_world e) = set (rx_part dm)"
    using assms by (auto simp: stands_def rx_calls_def in_hand_rx_def)
qed

section \<open>The checks\<close>

text \<open>The sender's side of the examples in which the receiver waits.\<close>

lemma sent_unless_left:
  assumes "stands li p dm ds e" "\<forall>c\<in>rx_calls (ex_world e). \<not> leaving c" "tx_log (ex_world e) = l @ [(CSend m, r)]"
  shows "is_sent r"
  using send_result [OF stands_reachable [OF assms(1)], of m r] assms(2,3) by (auto simp: is_sent_def)

lemma blocking_check:
  assumes "stands li p dm ds e" "rx_log (ex_world e) = [(c, r)]" "blocking_call c"
  shows "tx_script p = {CSend m} \<Longrightarrow> is_message m r"
    and "tx_script p = {CTxDrop} \<Longrightarrow> is_err r"
  using recv_result [OF stands_reachable [OF assms(1)] assms(2,3)] stands_tx_calls [OF assms(1)]
  by (auto simp: is_message_def)

lemma timeout_check:
  assumes "stands li p dm ds e" "rx_log (ex_world e) = [(CRecvTimeout t d, r)]"
  shows "tx_script p = {CSend m} \<Longrightarrow>
      is_message m r \<or> d < clock (mem (ex_world e))"
    and "tx_script p = {CTxDrop} \<Longrightarrow> is_err r"
proof -
  have re: "reachable li (ex_world e)"
    by (rule stands_reachable [OF assms(1)])
  obtain x where x: "r = RxTimeout x"
    using typed_result [OF re, of "CRecvTimeout t d" r] assms(2) by auto
  note fr = first_result [OF re assms(2)] stands_tx_calls [OF assms(1)]
  have "d < clock (mem (ex_world e))" if "timed_out r"
    using timeout_result [OF re _ that, of "CRecvTimeout t d"] assms(2) by simp
  then show "is_message m r \<or> d < clock (mem (ex_world e))"
    if "tx_script p = {CSend m}"
    using fr that x by (cases x; cases "receipt_of r") (auto simp: is_message_def timed_out_def elim: receipt_of.elims)
  show "is_err r" if "tx_script p = {CTxDrop}"
    using fr that x by (cases x) auto
qed

section \<open>The examples\<close>

text \<open>
  A receiver that waits in the main thread while the spawned thread uses the sender: which check
  can fail.
\<close>

lemma two_threads_panic:
  assumes "executes li p e" "panicked e"
    and p: "main_thread p = OnRx c P # Join # rest" "rest \<in> {[], [OnRx CDrop no_check]}" "spawned p = [OnTx d Q]"
      "\<not> leaving c"
  obtains (main) dm ds r where "stands li p dm ds e" "rx_log (ex_world e) = [(c, r)]" "\<not> P r"
  | (spawned) dm ds r where "stands li p dm ds e" "tx_log (ex_world e) = [(d, r)]" "\<not> Q r"
      "\<forall>c\<in>rx_calls (ex_world e). \<not> leaving c"
proof -
  have "owned_well p"
    using p by (auto simp: owned_well_def)
  then obtain dm ds where S: "stands li p dm ds e"
    and f: "failed_main dm (ex_world e) \<or> failed_spawned dm ds (ex_world e)"
    using executes_stands [OF assms(1)] assms(2) by blast
  have eq: "OnRx c P # Join # rest = dm @ main_rest e" "[OnTx d Q] = ds @ spawned_rest e"
    using S p by (simp_all add: stands_def)
  have logs: "map fst (tx_log (ex_world e)) = tx_part dm @ tx_part ds" "map fst (rx_log (ex_world e)) = rx_part dm"
    using S by (simp_all add: stands_def)
  from f show thesis
  proof
    assume fm: "failed_main dm (ex_world e)"
    then have "dm = [OnRx c P]"
      using eq(1) p(2) by (auto simp: failed_main_def Cons_eq_append_conv no_check_def)
    then obtain r where "rx_log (ex_world e) = [(c, r)]" "\<not> P r"
      using fm logs(2) by (auto simp: failed_main_def)
    with S show thesis
      by (rule main)
  next
    assume fs: "failed_spawned dm ds (ex_world e)"
    then have ds: "ds = [OnTx d Q]" and dm: "dm = [] \<or> dm = [OnRx c P]"
      using eq by (auto simp: failed_spawned_def Cons_eq_append_conv)
    have "tx_part dm = []"
      using dm by auto
    then obtain r where r: "tx_log (ex_world e) = [(d, r)]" "\<not> Q r"
      using fs ds logs(1) by (auto simp: failed_spawned_def)
    have "\<forall>c\<in>rx_calls (ex_world e). \<not> leaving c"
      using stands_rx_calls(1) [OF S] dm eq(1) [symmetric] p(4) by auto
    with S r show thesis
      by (rule spawned)
  qed
qed

lemma waits_for_message:
  assumes "executes li p e" "main_thread p = OnRx c (is_message m) # Join # rest" "rest \<in> {[], [OnRx CDrop no_check]}"
    "spawned p = [OnTx (CSend m) is_sent]" "blocking_call c"
  shows "\<not> panicked e"
proof
  assume pan: "panicked e"
  have nl: "\<not> leaving c" and sc: "tx_script p = {CSend m}"
    using assms(2-5) by (auto simp: blocking_call_def tx_script_def)
  from assms(1) pan assms(2-4) nl show False
  proof (cases rule: two_threads_panic)
    case (main dm ds r)
    then show False
      using blocking_check(1) [OF main(1,2) assms(5) sc] by simp
  next
    case (spawned dm ds r)
    then show False
      using sent_unless_left [OF spawned(1,4), of "[]" m r] by simp
  qed
qed

lemma waits_for_drop:
  assumes "executes li p e" "main_thread p = OnRx c is_err # Join # rest" "rest \<in> {[], [OnRx CDrop no_check]}"
    "spawned p = [OnTx CTxDrop no_check]" "blocking_call c \<or> c = CRecvTimeout t d"
  shows "\<not> panicked e"
proof
  assume pan: "panicked e"
  have nl: "\<not> leaving c" and sc: "tx_script p = {CTxDrop}"
    using assms(2-5) by (auto simp: blocking_call_def tx_script_def)
  from assms(1) pan assms(2-4) nl show False
  proof (cases rule: two_threads_panic)
    case (main dm ds r)
    then show False
      using blocking_check(2) [OF main(1,2) _ sc] timeout_check(2) [OF main(1) _ sc, of t d] assms(5) by auto
  qed (simp add: no_check_def)
qed

lemma waits_with_timeout:
  assumes "executes li p e" "main_thread p = OnRx (CRecvTimeout t d) (is_message m) # Join # rest"
    "rest \<in> {[], [OnRx CDrop no_check]}" "spawned p = [OnTx (CSend m) is_sent]" "panicked e"
  shows "d < clock (mem (ex_world e))"
proof -
  have sc: "tx_script p = {CSend m}"
    using assms(2-4) by (auto simp: tx_script_def)
  have nl: "\<not> leaving (CRecvTimeout t d)"
    by simp
  from assms(1,5) assms(2-4) nl show ?thesis
  proof (cases rule: two_threads_panic)
    case (main dm ds r)
    then show ?thesis
      using timeout_check(1) [OF main(1,2) sc] by simp
  next
    case (spawned dm ds r)
    then show ?thesis
      using sent_unless_left [OF spawned(1,4), of "[]" m r] by simp
  qed
qed

text \<open>One thread that uses both endpoints.\<close>

lemma one_thread_panic:
  assumes "executes li p e" "panicked e" "spawned p = []"
  obtains dm where "stands li p dm [] e" "failed_main dm (ex_world e)" "main_thread p = dm @ main_rest e"
    "map fst (tx_log (ex_world e)) = tx_part dm" "map fst (rx_log (ex_world e)) = rx_part dm"
    "rx_calls (ex_world e) = set (rx_part dm)"
proof -
  have "owned_well p"
    using assms(3) by (simp add: owned_well_def)
  then obtain dm ds where S: "stands li p dm ds e"
    and f: "failed_main dm (ex_world e) \<or> failed_spawned dm ds (ex_world e)"
    using executes_stands [OF assms(1)] assms(2) by blast
  moreover have "ds = []"
    using S assms(3) by (simp add: stands_def)
  ultimately show thesis
    using that [of dm] stands_rx_calls(2) [OF S] by (auto simp: stands_def failed_spawned_def failed_main_def)
qed

lemma recv_with_dropped_sender_passes:
  assumes "executes li (recv_with_dropped_sender t) e"
  shows "\<not> panicked e"
proof
  assume "panicked e"
  then obtain dm where dm: "stands li (recv_with_dropped_sender t) dm [] e" "failed_main dm (ex_world e)"
    "main_thread (recv_with_dropped_sender t) = dm @ main_rest e" "map fst (rx_log (ex_world e)) = rx_part dm"
    using one_thread_panic [OF assms] by (auto simp: recv_with_dropped_sender_def)
  then have "dm = [OnTx CTxDrop no_check, OnRx (CRecv t) is_err]"
    by (auto simp: recv_with_dropped_sender_def failed_main_def Cons_eq_append_conv no_check_def)
  then obtain r where "rx_log (ex_world e) = [(CRecv t, r)]" "\<not> is_err r"
    using dm(2,4) by (auto simp: failed_main_def)
  then show False
    using blocking_check(2) [OF dm(1)] by (auto simp: blocking_call_def tx_script_def recv_with_dropped_sender_def)
qed

lemma send_before_recv_passes:
  assumes "executes li (send_before_recv t) e"
  shows "\<not> panicked e"
proof
  assume "panicked e"
  then obtain dm where dm: "stands li (send_before_recv t) dm [] e" "failed_main dm (ex_world e)"
    "main_thread (send_before_recv t) = dm @ main_rest e" "map fst (tx_log (ex_world e)) = tx_part dm"
    "map fst (rx_log (ex_world e)) = rx_part dm" "rx_calls (ex_world e) = set (rx_part dm)"
    using one_thread_panic [OF assms] by (auto simp: send_before_recv_def)
  then consider "dm = [OnTx (CSend 19) is_sent]" | "dm = [OnTx (CSend 19) is_sent, OnRx (CRecv t) (is_message 19)]"
    by (auto simp: send_before_recv_def failed_main_def Cons_eq_append_conv)
  then show False
  proof cases
    case 1
    then obtain r where "tx_log (ex_world e) = [] @ [(CSend 19, r)]" "\<not> is_sent r"
      using dm(2,4) by (auto simp: failed_main_def)
    then show False
      using sent_unless_left [OF dm(1)] dm(6) 1 by auto
  next
    case 2
    then obtain r where "rx_log (ex_world e) = [(CRecv t, r)]" "\<not> is_message 19 r"
      using dm(2,5) by (auto simp: failed_main_def)
    then show False
      using blocking_check(1) [OF dm(1)] by (auto simp: blocking_call_def tx_script_def send_before_recv_def)
  qed
qed

lemma send_then_drop_receiver_passes:
  assumes "executes li send_then_drop_receiver e"
  shows "\<not> panicked e"
proof
  assume "panicked e"
  then obtain dm where dm: "stands li send_then_drop_receiver dm [] e" "failed_main dm (ex_world e)"
    "main_thread send_then_drop_receiver = dm @ main_rest e" "map fst (tx_log (ex_world e)) = tx_part dm"
    "rx_calls (ex_world e) = set (rx_part dm)"
    using one_thread_panic [OF assms] by (auto simp: send_then_drop_receiver_def)
  then have 1: "dm = [OnTx (CSend 19) is_sent]"
    by (auto simp: send_then_drop_receiver_def failed_main_def Cons_eq_append_conv no_check_def)
  then obtain r where "tx_log (ex_world e) = [] @ [(CSend 19, r)]" "\<not> is_sent r"
    using dm(2,4) by (auto simp: failed_main_def)
  then show False
    using sent_unless_left [OF dm(1)] dm(5) 1 by auto
qed

text \<open>When the receiver is dropped first, every later state has it gone.\<close>

lemma executes_forsaken:
  assumes "executes li p e" "main_thread p = OnRx CDrop P # ss0" "spawned p = []"
  shows "main_rest e = main_thread p \<or> forsaken (ex_world e)"
  using assms(1)
proof (induction rule: executes.induct)
  case (launched parked)
  show ?case by (simp add: launch_def)
next
  case (by_main e mv ss w ok)
  have "owned_well p"
    using assms(3) by (simp add: owned_well_def)
  then obtain dm ds where S: "stands li p dm ds e"
    using executes_stands [OF by_main(1)] by blast
  show ?case
    using by_main(4) stands_reachable [OF S] by_main(3)
  proof (cases rule: advanceE)
    case joined
    then show ?thesis
      using by_main.IH assms(2) by auto
  next
    case (moved s rest l)
    then show ?thesis
      using by_main.IH by (auto intro: forsaken_step)
  next
    case (returned s l)
    show ?thesis
    proof (cases "forsaken (ex_world e)")
      case True
      then show ?thesis
        using returned(3) by (simp add: forsaken_step)
    next
      case False
      then have eq: "main_rest e = main_thread p" "s = OnRx CDrop P"
        using by_main.IH returned(1) assms(2) by auto
      then have "step li RxReturn (ex_world e) = Step w"
        using returned by simp
      then obtain c th r where r: "rx_run (ex_world e) = Some (c, th)" "rx_run w = None"
        "rx_handle w = rx_after c" "tx_run w = tx_run (ex_world e)" "tx_log w = tx_log (ex_world e)"
        by (rule rx_returns)
      have "dm = []" "ds = []"
        using S eq(1) assms(3) by (simp_all add: stands_def)
      moreover have "c = CDrop"
        using S r(1) returned(1) eq(2) by (simp add: stands_def in_hand_Cons)
      moreover have "tx_run (ex_world e) = None"
        using S returned(1) eq(2) assms(3) by (auto simp: stands_def in_hand_Cons in_hand_tx_def)
      ultimately have "rx_handle w = RxGone" "tx_calls w = {}"
        using S r(3-5) by (simp_all add: stands_def tx_calls_def)
      then show ?thesis
        using dropped_first [OF returned(4)] r(2) by simp
    qed
  qed
next
  case (by_spawned e mv ss w ok)
  have "owned_well p"
    using assms(3) by (simp add: owned_well_def)
  then obtain dm ds where "stands li p dm ds e"
    using executes_stands [OF by_spawned(1)] by blast
  then show ?case
    using assms(3) by_spawned(4) by (simp add: stands_def advance_def)
qed

lemma send_with_dropped_receiver_passes:
  assumes "executes li send_with_dropped_receiver e"
  shows "\<not> panicked e"
proof
  let ?w = "ex_world e"
  assume "panicked e"
  then obtain dm where dm: "stands li send_with_dropped_receiver dm [] e" "failed_main dm ?w"
    "main_thread send_with_dropped_receiver = dm @ main_rest e" "map fst (tx_log ?w) = tx_part dm"
    using one_thread_panic [OF assms] by (auto simp: send_with_dropped_receiver_def)
  have left: "main_rest e = main_thread send_with_dropped_receiver \<or> forsaken ?w"
    by (rule executes_forsaken [OF assms]) (simp_all add: send_with_dropped_receiver_def)
  have sent: "r = TxSent (Err SendError)" if "(CSend 5, r) \<in> set (tx_log ?w)" "dm \<noteq> []" for r
    using forsaken_send [OF _ that(1)] left dm(3) that(2) by auto
  from dm consider "dm = [OnRx CDrop no_check, OnTx (CSend 5) is_rejected]"
    | "dm = [OnRx CDrop no_check, OnTx (CSend 5) is_rejected, OnTx CErrIntoInner (gives_back 5)]"
    by (auto simp: send_with_dropped_receiver_def failed_main_def Cons_eq_append_conv no_check_def)
  then show False
  proof cases
    case 1
    then obtain r where "tx_log ?w = [(CSend 5, r)]" "\<not> is_rejected r"
      using dm(2,4) by (auto simp: failed_main_def)
    then show False
      using sent [of r] 1 by (auto simp: is_rejected_def)
  next
    case 2
    then obtain r r' where r: "tx_log ?w = [(CSend 5, r), (CErrIntoInner, r')]" "\<not> gives_back 5 r'"
      using dm(2,4) by (auto simp: failed_main_def)
    then have "r = TxSent (Err SendError)"
      using sent [of r] 2 by auto
    moreover obtain g where "tx_trace (tx_log ?w) (tx_handle ?w) g"
      using reachable_tx_trace [OF stands_reachable [OF dm(1)]] .
    ultimately show False
      using r tx_trace_refines [of "tx_log ?w" "tx_handle ?w" g]
      by (auto simp: open_next_def rejected_next_def gives_back_def split: if_splits)
  qed
qed

text \<open>The examples whose checks hold under every schedule; \<open>t\<close> is the main thread.\<close>

definition examples :: "tid \<Rightarrow> u128 program list" where
  "examples t =
     [recv_before_send t, recv_before_send_then_drop_sender t, recv_ref_before_send t,
      recv_ref_before_send_then_drop_sender t, recv_timeout_before_send_then_drop_sender t,
      recv_with_dropped_sender t, send_before_recv t, send_then_drop_receiver,
      send_with_dropped_receiver]"

lemma example_passes:
  assumes "executes li p e" "p \<in> set (examples t)"
  shows "\<not> panicked e"
proof -
  consider "p = recv_before_send t" | "p = recv_before_send_then_drop_sender t" | "p = recv_ref_before_send t"
    | "p = recv_ref_before_send_then_drop_sender t" | "p = recv_timeout_before_send_then_drop_sender t"
    | "p = recv_with_dropped_sender t" | "p = send_before_recv t" | "p = send_then_drop_receiver"
    | "p = send_with_dropped_receiver"
    using assms(2) by (auto simp: examples_def)
  then show ?thesis
  proof cases
    case 1
    then show ?thesis
      using waits_for_message [OF assms(1), of "CRecv t" 9 "[]"] by (simp add: recv_before_send_def blocking_call_def)
  next
    case 2
    then show ?thesis
      using waits_for_drop [OF assms(1), of "CRecv t" "[]"]
      by (simp add: recv_before_send_then_drop_sender_def blocking_call_def)
  next
    case 3
    then show ?thesis
      using waits_for_message [OF assms(1), of "CRecvRef t" 9 "[OnRx CDrop no_check]"]
      by (simp add: recv_ref_before_send_def blocking_call_def)
  next
    case 4
    then show ?thesis
      using waits_for_drop [OF assms(1), of "CRecvRef t" "[OnRx CDrop no_check]"]
      by (simp add: recv_ref_before_send_then_drop_sender_def blocking_call_def)
  next
    case 5
    then show ?thesis
      using waits_for_drop [OF assms(1), of "CRecvTimeout t 100" "[OnRx CDrop no_check]" t 100]
      by (simp add: recv_timeout_before_send_then_drop_sender_def)
  qed (use assms(1) recv_with_dropped_sender_passes send_before_recv_passes send_then_drop_receiver_passes
      send_with_dropped_receiver_passes in blast)+
qed

lemma recv_timeout_before_send_panics:
  assumes "executes li (recv_timeout_before_send t) e" "panicked e"
  shows "100 < clock (mem (ex_world e))"
  using waits_with_timeout [OF assms(1), of t 100 9 "[OnRx CDrop no_check]"] assms(2)
  by (simp add: recv_timeout_before_send_def)

text \<open>A schedule of an example, for evaluation.\<close>

fun play :: "instant \<Rightarrow> (bool \<times> move) list \<Rightarrow> 'm exec \<Rightarrow> 'm exec option" where
  "play li [] e = Some e"
| "play li ((b, mv) # ms) e =
     (if panicked e \<or> racing mv (if b then main_rest e else spawned_rest e) (ex_world e) then None
      else case advance li mv (b \<and> length (spawned_rest e) = 0) (if b then main_rest e else spawned_rest e) (ex_world e) of
        Step (ss, w, ok) \<Rightarrow>
          play li ms (if b then e\<lparr>main_rest := ss, ex_world := w, panicked := \<not> ok\<rparr>
                      else e\<lparr>spawned_rest := ss, ex_world := w, panicked := \<not> ok\<rparr>)
      | _ \<Rightarrow> None)"

lemma play_executes: "executes li p e \<Longrightarrow> play li ms e = Some e' \<Longrightarrow> executes li p e'"
proof (induction li ms e rule: play.induct)
  case (2 li b mv ms e)
  then obtain ss w ok where "\<not> panicked e" "\<not> racing mv (if b then main_rest e else spawned_rest e) (ex_world e)"
    and st: "advance li mv (b \<and> length (spawned_rest e) = 0) (if b then main_rest e else spawned_rest e) (ex_world e) = Step (ss, w, ok)"
    by (auto split: if_splits outcome.splits)
  moreover from this 2(2) have "executes li p (if b then e\<lparr>main_rest := ss, ex_world := w, panicked := \<not> ok\<rparr>
      else e\<lparr>spawned_rest := ss, ex_world := w, panicked := \<not> ok\<rparr>)"
    by (cases b) (auto intro: executes.intros)
  ultimately show ?case
    using 2 by (cases b) auto
qed simp

end
