(* ===== verification/Example_Runs.thy ===== *)
theory Example_Runs
  imports Completion Examples
begin

text \<open>
  The example programs do not get stuck: from every point of every execution they can be run to
  their end, and then the channel is freed.
\<close>

section \<open>Scripts that can be run\<close>

text \<open>
  Whether statements can be executed one after the other with the given values in hand: the values
  have the methods, a receive operation that blocks comes after the sender is gone, and at the end
  both values are gone.
\<close>

fun runnable :: "tx_handle \<Rightarrow> rx_handle \<Rightarrow> 'm stmt list \<Rightarrow> bool" where
  "runnable tv rv [] \<longleftrightarrow> tv = TxGone \<and> rv = RxGone"
| "runnable tv rv (OnTx c P # ss) \<longleftrightarrow> tx_owns tv c \<and> (\<forall>r. P r \<longrightarrow> runnable (tx_after c r) rv ss)"
| "runnable tv rv (OnRx c P # ss) \<longleftrightarrow> rx_owns rv c \<and> (tv = TxGone \<or> wait_free c) \<and> runnable tv (rx_after c) ss"
| "runnable tv rv (Join # ss) \<longleftrightarrow> runnable tv rv ss"

fun on_tx :: "'m stmt \<Rightarrow> bool" where
  "on_tx (OnTx c P) = True"
| "on_tx s = False"

text \<open>The spawned thread, if there is one, uses the sender, and the main thread the receiver.\<close>

definition parted :: "'m program \<Rightarrow> bool" where
  "parted p \<longleftrightarrow> list_all on_tx (spawned p) \<and> (spawned p = [] \<or> tx_part (main_thread p) = [])"

lemma parted_owned: "parted p \<Longrightarrow> owned_well p"
proof -
  have "list_all on_tx ss \<Longrightarrow> rx_part ss = []" for ss :: "'a stmt list"
    by (induction ss rule: rx_part.induct) auto
  then show "parted p \<Longrightarrow> owned_well p"
    by (auto simp: parted_def owned_well_def)
qed

lemma runnable_receive:
  "list_all on_tx sp \<Longrightarrow> runnable tv rv (sp @ OnRx c P # ss) \<Longrightarrow> runnable tv (rx_after c) (sp @ ss)"
proof (induction sp arbitrary: tv)
  case (Cons s sp)
  then show ?case
    by (cases s) auto
qed simp

lemma stmt_keeps_handles:
  assumes "label_of mv s = Some l" "step li l w = Step w'" "mv \<noteq> Ret"
  shows "tx_handle w' = tx_handle w" "rx_handle w' = rx_handle w"
  using assms
  by (cases "(mv, s)" rule: label_of.cases;
      auto split: option.splits if_splits outcome.splits prod.splits prog.splits)+

lemma tx_returned:
  assumes "step li TxReturn w = Step w'" "in_hand_tx w (OnTx c P # ss)"
  shows "\<exists>r. tx_log w' = tx_log w @ [(c, r)] \<and> tx_handle w' = tx_after c r \<and> rx_handle w' = rx_handle w"
  using assms by (auto simp: in_hand_Cons split: option.splits prog.splits)

lemma rx_returned:
  assumes "step li RxReturn w = Step w'" "in_hand_rx w (OnRx c P # ss)"
  shows "rx_handle w' = rx_after c \<and> tx_handle w' = tx_handle w"
  using assms by (auto simp: in_hand_Cons split: option.splits prog.splits)

definition ready :: "'m exec \<Rightarrow> bool" where
  "ready e \<longleftrightarrow> runnable (tx_handle (ex_world e)) (rx_handle (ex_world e)) (spawned_rest e @ main_rest e)"

lemma ready_main:
  assumes S: "stands li p dm ds e" and p: "parted p" and R: "ready e"
    and "\<not> racing mv (main_rest e) (ex_world e)"
    and "advance li mv (spawned_rest e = []) (main_rest e) (ex_world e) = Step (ss, w, ok)" "ok"
  shows "ready (e\<lparr>main_rest := ss, ex_world := w, panicked := x\<rparr>)"
  using assms(5) stands_reachable [OF S] assms(4)
proof (cases rule: advanceE)
  case joined
  then show ?thesis
    using R by (simp add: ready_def)
next
  case (moved s rest l)
  then show ?thesis
    using R stmt_keeps_handles [OF moved(2,3,5)] by (simp add: ready_def)
next
  case (returned s l)
  show ?thesis
  proof (cases s)
    case (OnTx c P)
    have "tx_part (main_thread p) \<noteq> []"
      using S returned(1) OnTx by (simp add: stands_def)
    then have sp: "spawned_rest e = []"
      using S p by (auto simp: stands_def parted_def)
    have "in_hand_tx (ex_world e) (OnTx c P # ss)"
      using stands_tx(1) [OF S parted_owned [OF p]] returned(1) OnTx by simp
    then obtain r where "tx_log w = tx_log (ex_world e) @ [(c, r)]" "tx_handle w = tx_after c r" "rx_handle w = rx_handle (ex_world e)"
      using tx_returned [of li "ex_world e" w c P ss] returned(2,3) OnTx by auto
    then show ?thesis
      using R returned(1,6) OnTx sp assms(6) by (simp add: ready_def)
  next
    case (OnRx c P)
    have "in_hand_rx (ex_world e) (OnRx c P # ss)"
      using S returned(1) OnRx by (simp add: stands_def)
    then have "rx_handle w = rx_after c \<and> tx_handle w = tx_handle (ex_world e)"
      using rx_returned [of li "ex_world e" w c P ss] returned(2,3) OnRx by simp
    moreover have "list_all on_tx (spawned_rest e)"
      using S p by (simp add: stands_def parted_def)
    ultimately show ?thesis
      using R runnable_receive returned(1) OnRx by (simp add: ready_def)
  qed (use returned in simp)
qed

lemma ready_spawned:
  assumes S: "stands li p dm ds e" and p: "parted p" and R: "ready e"
    and "\<not> racing mv (spawned_rest e) (ex_world e)"
    and "advance li mv False (spawned_rest e) (ex_world e) = Step (ss, w, ok)" "ok"
  shows "ready (e\<lparr>spawned_rest := ss, ex_world := w, panicked := x\<rparr>)"
  using assms(5) stands_reachable [OF S] assms(4)
proof (cases rule: advanceE)
  case (moved s rest l)
  then show ?thesis
    using R stmt_keeps_handles [OF moved(2,3,5)] by (simp add: ready_def)
next
  case (returned s l)
  have "list_all on_tx (spawned_rest e)"
    using S p by (simp add: stands_def parted_def)
  then obtain c P where s: "s = OnTx c P"
    using returned(1) by (cases s) auto
  then have "in_hand_tx (ex_world e) (OnTx c P # ss)"
    using stands_tx(2) [OF S parted_owned [OF p]] returned(1) by simp
  then obtain r where "tx_log w = tx_log (ex_world e) @ [(c, r)]" "tx_handle w = tx_after c r" "rx_handle w = rx_handle (ex_world e)"
    using tx_returned [of li "ex_world e" w c P ss] returned(2,3) s by auto
  then show ?thesis
    using R returned(1,6) s assms(6) by (simp add: ready_def)
qed simp

lemma executes_ready:
  assumes "executes li p e" "parted p" "runnable TxSender RxReceiver (spawned p @ main_thread p)"
  shows "panicked e \<or> ready e"
  using assms(1)
proof (induction rule: executes.induct)
  case (launched parked)
  then show ?case
    using assms(3) by (simp add: ready_def launch_def channel_def)
next
  case (by_main e mv ss w ok)
  then obtain dm ds where "stands li p dm ds e"
    using executes_stands [OF by_main(1) parted_owned [OF assms(2)]] by blast
  then show ?case
    using ready_main [OF _ assms(2) _ by_main(3,4)] by_main(2,5) by simp
next
  case (by_spawned e mv ss w ok)
  then obtain dm ds where "stands li p dm ds e"
    using executes_stands [OF by_spawned(1) parted_owned [OF assms(2)]] by blast
  then show ?case
    using ready_spawned [OF _ assms(2) _ by_spawned(3,4)] by_spawned(2,5) by simp
qed

section \<open>Completing a statement\<close>

definition label_in :: "'m stmt \<Rightarrow> move \<Rightarrow> 'm label" where
  "label_in s mv = the (label_of mv s)"

lemma label_in_simps [simp]:
  "label_in (OnTx c P) Call = TxCall c" "label_in (OnTx c P) (Act ch) = TxRun ch" "label_in (OnTx c P) Ret = TxReturn"
  "label_in (OnRx d Q) Call = RxCall d" "label_in (OnRx d Q) (Act ch) = RxRun ch" "label_in (OnRx d Q) Ret = RxReturn"
  by (simp_all add: label_in_def)

lemma tx_run_clean: "run li (map TxRun chs @ [TxReturn]) w = Step w' \<Longrightarrow> clean_run li (map TxRun chs @ [TxReturn]) w = Some w'"
  by (induction chs arbitrary: w) (auto split: outcome.splits)

lemma rx_run_clean:
  "rx_nonblocking w \<Longrightarrow> run li (map RxRun chs @ [RxReturn]) w = Step w' \<Longrightarrow> clean_run li (map RxRun chs @ [RxReturn]) w = Some w'"
proof (induction chs arbitrary: w)
  case (Cons ch chs)
  then obtain v where v: "step li (RxRun ch) w = Step v" "run li (map RxRun chs @ [RxReturn]) v = Step w'"
    by (auto split: outcome.splits)
  have "rx_nonblocking v"
    using Cons.prems(1) v(1) by (auto simp: rx_nonblocking_def split: option.splits outcome.splits prod.splits)
  moreover have "\<not> in_race_window (RxRun ch) w"
    using Cons.prems(1)
    by (auto simp: rx_nonblocking_def racy_def split: option.splits prod.splits prog.splits elim: timed.elims wait_free.elims)
  ultimately show ?case
    using Cons.IH v by simp
qed (auto split: outcome.splits)

text \<open>What a statement needs to be completed.\<close>

fun completable :: "'m world \<Rightarrow> 'm stmt \<Rightarrow> bool" where
  "completable w (OnTx c P) \<longleftrightarrow> tx_owns (tx_handle w) c"
| "completable w (OnRx c P) \<longleftrightarrow> rx_owns (rx_handle w) c \<and> (tx_handle w = TxGone \<or> wait_free c)"
| "completable w Join \<longleftrightarrow> False"

lemma gone_not_running: "reachable li w \<Longrightarrow> tx_handle w = TxGone \<Longrightarrow> tx_run w = None"
  using reachable_inv [of li w] by (cases "tx_run w") (auto simp: world_inv_def tx_ok_def)

lemma tx_running_completes:
  assumes "reachable li w" "tx_run w \<noteq> None"
  shows "\<exists>mvs w'. Ret \<notin> set mvs \<and> clean_run li (map (label_in (OnTx c P)) (mvs @ [Ret])) w = Some w'"
proof -
  obtain chs w' where "run li (map TxRun chs @ [TxReturn]) w = Step w'"
    using tx_call_completes [OF assms] by blast
  then show ?thesis
    using tx_run_clean by (intro exI [of _ "map Act chs"] exI [of _ w']) (auto simp: o_def)
qed

lemma rx_running_completes:
  assumes "reachable li w" "rx_run w = Some (c, th)" "tx_handle w = TxGone \<or> wait_free c"
  shows "\<exists>mvs w'. Ret \<notin> set mvs \<and> clean_run li (map (label_in (OnRx c P)) (mvs @ [Ret])) w = Some w'"
proof -
  have "\<exists>chs w'. clean_run li (map RxRun chs @ [RxReturn]) w = Some w'"
    using assms(3)
  proof
    assume "tx_handle w = TxGone"
    then show ?thesis
      using receiver_finishes [OF assms(1) _ gone_not_running [OF assms(1)] assms(2)] by blast
  next
    assume "wait_free c"
    then have "rx_nonblocking w"
      using assms(2) by (simp add: rx_nonblocking_def)
    then show ?thesis
      using rx_call_completes [OF assms(1)] rx_run_clean by blast
  qed
  then obtain chs w' where "clean_run li (map RxRun chs @ [RxReturn]) w = Some w'"
    by blast
  then show ?thesis
    by (intro exI [of _ "map Act chs"] exI [of _ w']) (auto simp: o_def)
qed

lemma called_first:
  assumes "step li (label_in s Call) w = Step v" "\<not> in_race_window (label_in s Call) w"
    and "\<exists>mvs w'. Ret \<notin> set mvs \<and> clean_run li (map (label_in s) (mvs @ [Ret])) v = Some w'"
  shows "\<exists>mvs w'. Ret \<notin> set mvs \<and> clean_run li (map (label_in s) (mvs @ [Ret])) w = Some w'"
proof -
  obtain mvs w' where "Ret \<notin> set mvs" "clean_run li (map (label_in s) (mvs @ [Ret])) v = Some w'"
    using assms(3) by blast
  then show ?thesis
    using assms(1,2) by (intro exI [of _ "Call # mvs"] exI [of _ w']) simp
qed

lemma stmt_completes:
  assumes "reachable li w" "completable w s" "in_hand_rx w (s # ss) \<or> on_tx s"
  shows "\<exists>mvs w'. Ret \<notin> set mvs \<and> clean_run li (map (label_in s) (mvs @ [Ret])) w = Some w'"
proof (cases s)
  case (OnTx c P)
  show ?thesis
  proof (cases "tx_run w")
    case None
    then have st: "step li (label_in s Call) w = Step (w\<lparr>tx_run := Some (c, start (tx_body c))\<rparr>)"
      using assms(2) OnTx by simp
    have "reachable li (w\<lparr>tx_run := Some (c, start (tx_body c))\<rparr>)"
      by (rule reachable.step [OF assms(1) _ st]) (simp add: OnTx)
    then have "\<exists>mvs w'. Ret \<notin> set mvs \<and>
        clean_run li (map (label_in (OnTx c P)) (mvs @ [Ret])) (w\<lparr>tx_run := Some (c, start (tx_body c))\<rparr>) = Some w'"
      by (rule tx_running_completes) simp
    then show ?thesis
      by (intro called_first [OF st]) (simp_all add: OnTx)
  next
    case (Some x)
    then show ?thesis
      using OnTx tx_running_completes [OF assms(1)] by simp
  qed
next
  case (OnRx c P)
  show ?thesis
  proof (cases "rx_run w")
    case None
    then have st: "step li (label_in s Call) w = Step (w\<lparr>rx_run := Some (c, start (rx_body li c))\<rparr>)"
      using assms(2) OnRx by simp
    have "reachable li (w\<lparr>rx_run := Some (c, start (rx_body li c))\<rparr>)"
      by (rule reachable.step [OF assms(1) _ st]) (simp add: OnRx)
    then have "\<exists>mvs w'. Ret \<notin> set mvs \<and>
        clean_run li (map (label_in (OnRx c P)) (mvs @ [Ret])) (w\<lparr>rx_run := Some (c, start (rx_body li c))\<rparr>) = Some w'"
      by (rule rx_running_completes) (use assms(2) OnRx in simp_all)
    then show ?thesis
      by (intro called_first [OF st]) (simp_all add: OnRx)
  next
    case (Some x)
    then obtain th where "rx_run w = Some (c, th)"
      using assms(3) OnRx by (cases x) (simp add: in_hand_Cons)
    then show ?thesis
      using rx_running_completes [OF assms(1)] assms(2) OnRx by simp
  qed
qed (use assms in simp)

section \<open>Running an example to its end\<close>

definition rest_of :: "bool \<Rightarrow> 'm exec \<Rightarrow> 'm stmt list" where
  "rest_of b e = (if b then main_rest e else spawned_rest e)"

lemma rest_of_update [simp]: "rest_of b (e\<lparr>ex_world := v, panicked := x\<rparr>) = rest_of b e"
  by (simp add: rest_of_def)

lemma label_of_in: "s \<noteq> Join \<Longrightarrow> label_of mv s = Some (label_in s mv)"
  by (cases "(mv, s)" rule: label_of.cases) (auto simp: label_in_def)

lemma play_move:
  assumes "rest_of b e = s # ss" "s \<noteq> Join" "\<not> panicked e" "mv \<noteq> Ret"
    and "\<not> in_race_window (label_in s mv) (ex_world e)" "step li (label_in s mv) (ex_world e) = Step v"
  shows "play li ((b, mv) # ms) e = play li ms (e\<lparr>ex_world := v, panicked := False\<rparr>)"
  using assms
  by (cases b; cases e) (simp_all add: rest_of_def racing_def advance_def label_of_in)

lemma play_stmt:
  assumes "rest_of b e = s # ss" "s \<noteq> Join" "\<not> panicked e" "Ret \<notin> set mvs"
    and "clean_run li (map (label_in s) (mvs @ [Ret])) (ex_world e) = Some w'"
  shows "\<exists>e'. play li (map (Pair b) (mvs @ [Ret])) e = Some e' \<and> rest_of b e' = ss \<and> rest_of (\<not> b) e' = rest_of (\<not> b) e"
  using assms
proof (induction mvs arbitrary: e)
  case Nil
  then show ?case
    by (cases b) (auto simp: rest_of_def racing_def advance_def label_of_in split: if_splits outcome.splits)
next
  case (Cons mv mvs)
  then obtain v where v: "\<not> in_race_window (label_in s mv) (ex_world e)" "step li (label_in s mv) (ex_world e) = Step v"
    "clean_run li (map (label_in s) (mvs @ [Ret])) v = Some w'"
    by (auto split: if_splits outcome.splits)
  obtain e' where "play li (map (Pair b) (mvs @ [Ret])) (e\<lparr>ex_world := v, panicked := False\<rparr>) = Some e'"
    "rest_of b e' = ss" "rest_of (\<not> b) e' = rest_of (\<not> b) e"
    using Cons.IH [of "e\<lparr>ex_world := v, panicked := False\<rparr>"] Cons.prems(1-4) v(3) by auto
  then show ?case
    using play_move [OF Cons.prems(1-3) _ v(1,2)] Cons.prems(4) by auto
qed

lemma play_append: "play li (ms @ ns) e = (case play li ms e of None \<Rightarrow> None | Some e' \<Rightarrow> play li ns e')"
  by (induction li ms e rule: play.induct) (auto split: outcome.splits if_splits)

definition concluded :: "'m exec \<Rightarrow> bool" where
  "concluded e \<longleftrightarrow> main_rest e = [] \<and> spawned_rest e = [] \<and> \<not> panicked e \<and> freed (mem (ex_world e))"

lemma ready_concluded:
  assumes "stands li p dm ds e" "ready e" "\<not> panicked e" "spawned_rest e = []" "main_rest e = []"
  shows "concluded e"
proof -
  let ?w = "ex_world e"
  have re: "reachable li ?w"
    by (rule stands_reachable [OF assms(1)])
  have gone: "tx_handle ?w = TxGone" "rx_handle ?w = RxGone"
    using assms(2,4,5) by (simp_all add: ready_def)
  have "rx_run ?w = None"
    using assms(1,5) in_hand_nothing(2) [of ?w "main_rest e"] by (simp add: stands_def)
  then have "freed (mem ?w)"
    using gone_accounts(1) [OF reachable_inv [OF re]] gone gone_not_running [OF re] by simp
  with assms show ?thesis
    by (simp add: concluded_def)
qed

text \<open>The next statement to run: that of the spawned thread as long as there is one.\<close>

lemma next_statement:
  assumes S: "stands li p dm ds e" and p: "parted p" and R: "ready e" "\<not> panicked e"
    and r: "rest_of b e = s # ss" "b \<longrightarrow> spawned_rest e = []"
  shows "\<exists>ms e'. play li ms e = Some e' \<and> rest_of b e' = ss \<and> rest_of (\<not> b) e' = rest_of (\<not> b) e"
proof (cases "s = Join")
  case True
  have "list_all on_tx (spawned_rest e)"
    using S p by (simp add: stands_def parted_def)
  then have b
    using True r by (auto simp: rest_of_def split: if_splits)
  then show ?thesis
    using True r R(2) by (intro exI [of _ "[(b, Ret)]"]) (auto simp: rest_of_def racing_def advance_def)
next
  case False
  have "completable (ex_world e) s"
    using R(1) r False by (cases s; cases b) (auto simp: ready_def rest_of_def)
  moreover have "in_hand_rx (ex_world e) (s # ss) \<or> on_tx s"
    using S p r by (cases b) (auto simp: rest_of_def stands_def parted_def)
  ultimately obtain mvs w' where "Ret \<notin> set mvs" "clean_run li (map (label_in s) (mvs @ [Ret])) (ex_world e) = Some w'"
    using stmt_completes [OF stands_reachable [OF S]] by blast
  then show ?thesis
    using play_stmt [OF r(1) False R(2)] by blast
qed

lemma program_concludes:
  assumes p: "parted p" "runnable TxSender RxReceiver (spawned p @ main_thread p)"
    and ok: "\<And>e. executes li p e \<Longrightarrow> \<not> panicked e"
  shows "executes li p e \<Longrightarrow> \<exists>ms e'. play li ms e = Some e' \<and> concluded e'"
proof (induction "length (spawned_rest e @ main_rest e)" arbitrary: e rule: less_induct)
  case less
  have np: "\<not> panicked e" and R: "ready e"
    using ok [OF less(2)] executes_ready [OF less(2) p] by auto
  obtain dm ds where S: "stands li p dm ds e"
    using executes_stands [OF less(2) parted_owned [OF p(1)]] by blast
  show ?case
  proof (cases "spawned_rest e = [] \<and> main_rest e = []")
    case True
    then show ?thesis
      using ready_concluded [OF S R np] by (intro exI [of _ "[]"]) simp
  next
    case False
    define b where "b = (spawned_rest e = [])"
    obtain s ss where r: "rest_of b e = s # ss" "b \<longrightarrow> spawned_rest e = []"
      using False by (cases "rest_of b e") (auto simp: b_def rest_of_def split: if_splits)
    obtain ms e' where e': "play li ms e = Some e'" "rest_of b e' = ss" "rest_of (\<not> b) e' = rest_of (\<not> b) e"
      using next_statement [OF S p(1) R np r] by blast
    have "length (spawned_rest e' @ main_rest e') < length (spawned_rest e @ main_rest e)"
      using r(1) e'(2,3) by (cases b) (auto simp: rest_of_def)
    then obtain ns e'' where "play li ns e' = Some e''" "concluded e''"
      using less(1) play_executes [OF less(2) e'(1)] by blast
    then show ?thesis
      using e'(1) by (intro exI [of _ "ms @ ns"]) (auto simp: play_append)
  qed
qed

lemma examples_runnable:
  assumes "p \<in> set (examples t)"
  shows "parted p" "runnable TxSender RxReceiver (spawned p @ main_thread p)"
  using assms
  by (auto simp: examples_def parted_def recv_before_send_def recv_before_send_then_drop_sender_def
      recv_ref_before_send_def recv_ref_before_send_then_drop_sender_def
      recv_timeout_before_send_then_drop_sender_def recv_with_dropped_sender_def send_before_recv_def
      send_then_drop_receiver_def send_with_dropped_receiver_def is_sent_def is_rejected_def)

lemma example_concludes:
  assumes "executes li p e" "p \<in> set (examples t)"
  shows "\<exists>ms e'. play li ms e = Some e' \<and> concluded e'"
  by (rule program_concludes [OF examples_runnable [OF assms(2)] _ assms(1)]) (rule example_passes [OF _ assms(2)])

end
