(* ===== verification/Loom_Box.thy ===== *)
theory Loom_Box
  imports Oneshot_Prelude "HOL-Library.Multiset"
begin

unbundle bit_operations_syntax

text \<open>
  The owning pointer \<open>Box\<close> that replaces \<open>alloc::boxed::Box\<close> when the crate is tested under \<open>loom\<close>
  (\<open>src/loombox.rs\<close>): the allocation a channel lives in, its leak and its reclamation.

  The allocator (\<open>loom::alloc\<close>) is not part of the crate: it is an argument of the operations, and
  \<open>allocator_ok\<close> states what the documentation of \<open>alloc\<close> and \<open>dealloc\<close> promises.
\<close>

section \<open>Memory\<close>

type_synonym addr = nat
type_synonym usize = "64 word"

record layout =
  l_size :: usize
  l_align :: usize

text \<open>
  An allocator, with its state of type \<open>'h\<close>: \<open>alloc\<close>, which returns a null pointer (0) when it
  fails, \<open>dealloc\<close>, and the blocks that are allocated with their layouts.
\<close>

record 'h allocator =
  a_alloc :: "layout \<Rightarrow> 'h \<Rightarrow> addr \<times> 'h"
  a_dealloc :: "addr \<Rightarrow> layout \<Rightarrow> 'h \<Rightarrow> 'h"
  a_blocks :: "'h \<Rightarrow> addr \<Rightarrow> layout option"

definition allocator_ok :: "'h allocator \<Rightarrow> bool" where
  "allocator_ok A \<longleftrightarrow>
     (\<forall>l h p h'. a_alloc A l h = (p, h') \<longrightarrow> 0 < l_size l \<longrightarrow>
        (if p = 0 then a_blocks A h' = a_blocks A h
         else a_blocks A h p = None \<and> a_blocks A h' = (a_blocks A h)(p \<mapsto> l))) \<and>
     (\<forall>l h p. a_blocks A h p = Some l \<longrightarrow> a_blocks A (a_dealloc A p l h) = (a_blocks A h)(p := None))"

text \<open>What the allocated blocks contain, and the values dropped so far, in order.\<close>

record ('h, 'v) heap =
  arena :: 'h
  contents :: "addr \<Rightarrow> 'v option"
  drops :: "'v list"

text \<open>Undefined behaviour and panics of the operations.\<close>

datatype box_fault =
    Zero_Sized_Alloc
  | Dangling
  | Uninitialised
  | Bad_Dealloc
  | Allocation_Failed
  | Layout_Unwrap

definition and_then :: "('a, 'e) result \<Rightarrow> ('a \<Rightarrow> ('b, 'e) result) \<Rightarrow> ('b, 'e) result" where
  "and_then r k = (case r of Ok a \<Rightarrow> k a | Err e \<Rightarrow> Err e)"

lemma and_then_simps [simp]:
  "and_then (Ok a) k = k a"
  "and_then (Err e) k = Err e"
  by (simp_all add: and_then_def)

text \<open>
  \<open>Layout::from_size_align\<close>: the alignment is a power of two, and the size, rounded up to a multiple of
  it, does not exceed \<open>isize::MAX\<close>.
\<close>

definition isize_max :: usize where
  "isize_max = 0x7FFFFFFFFFFFFFFF"

definition from_size_align :: "usize \<Rightarrow> usize \<Rightarrow> (layout, box_fault) result" where
  "from_size_align sz al =
     (if al \<noteq> 0 \<and> al AND (al - 1) = 0 \<and> sz \<le> isize_max + 1 - al
      then Ok \<lparr>l_size = sz, l_align = al\<rparr> else Err Layout_Unwrap)"

text \<open>The layout of a type whose values can be allocated.\<close>

definition layout_ok :: "layout \<Rightarrow> bool" where
  "layout_ok T \<longleftrightarrow> 0 < l_size T \<and> from_size_align (l_size T) (l_align T) = Ok T"

text \<open>\<open>&*ptr\<close>, \<open>ptr::write\<close>, \<open>ptr::drop_in_place\<close> and the calls of the allocator.\<close>

definition ptr_ref :: "'h allocator \<Rightarrow> addr \<Rightarrow> ('h, 'v) heap \<Rightarrow> ('v, box_fault) result" where
  "ptr_ref A p h =
     (case a_blocks A (arena h) p of
        None \<Rightarrow> Err Dangling
      | Some _ \<Rightarrow> (case contents h p of None \<Rightarrow> Err Uninitialised | Some v \<Rightarrow> Ok v))"

definition ptr_write :: "'h allocator \<Rightarrow> addr \<Rightarrow> 'v \<Rightarrow> ('h, 'v) heap \<Rightarrow> (('h, 'v) heap, box_fault) result" where
  "ptr_write A p v h =
     (case a_blocks A (arena h) p of
        None \<Rightarrow> Err Dangling
      | Some _ \<Rightarrow> Ok (h\<lparr>contents := (contents h)(p \<mapsto> v)\<rparr>))"

definition ptr_drop_in_place :: "'h allocator \<Rightarrow> addr \<Rightarrow> ('h, 'v) heap \<Rightarrow> (('h, 'v) heap, box_fault) result" where
  "ptr_drop_in_place A p h =
     and_then (ptr_ref A p h) (\<lambda>v.
     Ok (h\<lparr>contents := (contents h)(p := None), drops := drops h @ [v]\<rparr>))"

definition alloc_alloc :: "'h allocator \<Rightarrow> layout \<Rightarrow> ('h, 'v) heap \<Rightarrow> (addr \<times> ('h, 'v) heap, box_fault) result" where
  "alloc_alloc A l h =
     (if l_size l = 0 then Err Zero_Sized_Alloc
      else let (p, a) = a_alloc A l (arena h)
           in Ok (p, h\<lparr>arena := a, contents := (contents h)(p := None)\<rparr>))"

definition alloc_dealloc :: "'h allocator \<Rightarrow> addr \<Rightarrow> layout \<Rightarrow> ('h, 'v) heap \<Rightarrow> (('h, 'v) heap, box_fault) result" where
  "alloc_dealloc A p l h =
     (if a_blocks A (arena h) p = Some l
      then Ok (h\<lparr>arena := a_dealloc A p l (arena h), contents := (contents h)(p := None)\<rparr>)
      else Err Bad_Dealloc)"

section \<open>The operations\<close>

record box =
  ptr :: addr

text \<open>\<open>T\<close> is the layout of the type in the box.\<close>

definition box_new :: "'h allocator \<Rightarrow> layout \<Rightarrow> 'v \<Rightarrow> ('h, 'v) heap \<Rightarrow> (box \<times> ('h, 'v) heap, box_fault) result" where
  "box_new A T value h =
     and_then (alloc_alloc A T h) (\<lambda>(p, h).
     if p = 0 then Err Allocation_Failed
     else and_then (ptr_write A p value h) (\<lambda>h.
     Ok (\<lparr>ptr = p\<rparr>, h)))"

definition box_into_raw :: "box \<Rightarrow> addr" where
  "box_into_raw b = ptr b"

definition box_from_raw :: "addr \<Rightarrow> box" where
  "box_from_raw p = \<lparr>ptr = p\<rparr>"

definition box_leak :: "'h allocator \<Rightarrow> box \<Rightarrow> ('h, 'v) heap \<Rightarrow> (addr, box_fault) result" where
  "box_leak A b h =
     (let p = box_into_raw b
      in and_then (ptr_ref A p h) (\<lambda>_. Ok p))"

definition box_drop :: "'h allocator \<Rightarrow> layout \<Rightarrow> box \<Rightarrow> ('h, 'v) heap \<Rightarrow> (('h, 'v) heap, box_fault) result" where
  "box_drop A T b h =
     and_then (ptr_ref A (ptr b) h) (\<lambda>_.
     and_then (from_size_align (l_size T) (l_align T)) (\<lambda>layout.
     and_then (ptr_drop_in_place A (ptr b) h) (\<lambda>h.
     alloc_dealloc A (ptr b) layout h)))"

definition box_deref :: "'h allocator \<Rightarrow> box \<Rightarrow> ('h, 'v) heap \<Rightarrow> ('v, box_fault) result" where
  "box_deref A b h = ptr_ref A (ptr b) h"

text \<open>Assigning through \<open>deref_mut\<close> drops the old value.\<close>

definition box_deref_mut ::
  "'h allocator \<Rightarrow> box \<Rightarrow> 'v \<Rightarrow> ('h, 'v) heap \<Rightarrow> (('h, 'v) heap, box_fault) result" where
  "box_deref_mut A b v h =
     and_then (ptr_drop_in_place A (ptr b) h) (ptr_write A (ptr b) v)"

definition box_borrow :: "'h allocator \<Rightarrow> box \<Rightarrow> ('h, 'v) heap \<Rightarrow> ('v, box_fault) result" where
  "box_borrow A b h = box_deref A b h"

definition box_borrow_mut ::
  "'h allocator \<Rightarrow> box \<Rightarrow> 'v \<Rightarrow> ('h, 'v) heap \<Rightarrow> (('h, 'v) heap, box_fault) result" where
  "box_borrow_mut A b v h = box_deref_mut A b v h"

definition box_as_mut ::
  "'h allocator \<Rightarrow> box \<Rightarrow> 'v \<Rightarrow> ('h, 'v) heap \<Rightarrow> (('h, 'v) heap, box_fault) result" where
  "box_as_mut A b v h = box_deref_mut A b v h"

definition box_as_ref :: "'h allocator \<Rightarrow> box \<Rightarrow> ('h, 'v) heap \<Rightarrow> ('v, box_fault) result" where
  "box_as_ref A b h = box_deref A b h"

text \<open>\<open>Display\<close>, \<open>Debug\<close> and \<open>Hash\<close> hand over to the value.\<close>

definition box_fmt :: "('v \<Rightarrow> string) \<Rightarrow> 'h allocator \<Rightarrow> box \<Rightarrow> ('h, 'v) heap \<Rightarrow> (string, box_fault) result" where
  "box_fmt fmt A b h = and_then (box_deref A b h) (\<lambda>v. Ok (fmt v))"

definition box_hash :: "('v \<Rightarrow> 's \<Rightarrow> 's) \<Rightarrow> 'h allocator \<Rightarrow> box \<Rightarrow> ('h, 'v) heap \<Rightarrow> 's \<Rightarrow> ('s, box_fault) result" where
  "box_hash hash A b h state = and_then (box_deref A b h) (\<lambda>v. Ok (hash v state))"

definition box_clone ::
  "('v \<Rightarrow> 'v) \<Rightarrow> 'h allocator \<Rightarrow> layout \<Rightarrow> box \<Rightarrow> ('h, 'v) heap \<Rightarrow> (box \<times> ('h, 'v) heap, box_fault) result" where
  "box_clone clone A T b h = and_then (box_as_ref A b h) (\<lambda>v. box_new A T (clone v) h)"

text \<open>A comparison of two boxes compares the values; \<open>f\<close> is the method of the value's type.\<close>

definition box_compare ::
  "('v \<Rightarrow> 'v \<Rightarrow> 'c) \<Rightarrow> 'h allocator \<Rightarrow> box \<Rightarrow> box \<Rightarrow> ('h, 'v) heap \<Rightarrow> ('c, box_fault) result" where
  "box_compare f A b other h =
     and_then (box_deref A b h) (\<lambda>v. and_then (box_deref A other h) (\<lambda>v'. Ok (f v v')))"

section \<open>The laws of the operations\<close>

text \<open>A box is good when its block has the layout of the type and holds a value.\<close>

definition holds :: "'h allocator \<Rightarrow> layout \<Rightarrow> ('h, 'v) heap \<Rightarrow> addr \<Rightarrow> 'v \<Rightarrow> bool" where
  "holds A T h p v \<longleftrightarrow> a_blocks A (arena h) p = Some T \<and> contents h p = Some v"

lemmas heap_defs = ptr_ref_def ptr_write_def ptr_drop_in_place_def alloc_alloc_def alloc_dealloc_def

lemma allocD:
  assumes "allocator_ok A" "a_alloc A l h = (p, h')" "0 < l_size l"
  shows "p = 0 \<Longrightarrow> a_blocks A h' = a_blocks A h"
    and "p \<noteq> 0 \<Longrightarrow> a_blocks A h p = None \<and> a_blocks A h' = (a_blocks A h)(p \<mapsto> l)"
  using assms unfolding allocator_ok_def by (metis (full_types))+

lemma deallocD:
  assumes "allocator_ok A" "a_blocks A h p = Some l"
  shows "a_blocks A (a_dealloc A p l h) = (a_blocks A h)(p := None)"
  using assms unfolding allocator_ok_def by blast

lemma box_new_cases:
  assumes "allocator_ok A" "layout_ok T"
  obtains "box_new A T v h = Err Allocation_Failed"
  | p h' where "box_new A T v h = Ok (\<lparr>ptr = p\<rparr>, h')" "a_blocks A (arena h) p = None"
      "a_blocks A (arena h') = (a_blocks A (arena h))(p \<mapsto> T)"
      "contents h' = (contents h)(p \<mapsto> v)" "drops h' = drops h"
proof -
  obtain p a where pa: "a_alloc A T (arena h) = (p, a)"
    by fastforce
  have pos: "0 < l_size T"
    using assms(2) by (simp add: layout_ok_def)
  show thesis
  proof (cases "p = 0")
    case True
    then show thesis
      using pa pos by (intro that(1)) (simp add: box_new_def heap_defs)
  next
    case False
    then show thesis
      using pa pos allocD(2) [OF assms(1) pa pos]
      by (intro that(2) [of p "h\<lparr>arena := a, contents := (contents h)(p \<mapsto> v)\<rparr>"])
        (simp_all add: box_new_def heap_defs)
  qed
qed

lemma box_drop_holds:
  assumes "allocator_ok A" "layout_ok T" "holds A T h p v"
  obtains h' where "box_drop A T \<lparr>ptr = p\<rparr> h = Ok h'"
    "a_blocks A (arena h') = (a_blocks A (arena h))(p := None)"
    "contents h' = (contents h)(p := None)" "drops h' = drops h @ [v]"
  using assms(2,3) deallocD [OF assms(1), of "arena h" p T]
  by (intro that [of "h\<lparr>arena := a_dealloc A p T (arena h), contents := (contents h)(p := None), drops := drops h @ [v]\<rparr>"])
    (simp_all add: box_drop_def heap_defs holds_def layout_ok_def)

lemma box_deref_holds: "holds A T h p v \<Longrightarrow> box_deref A \<lparr>ptr = p\<rparr> h = Ok v"
  by (simp add: box_deref_def ptr_ref_def holds_def)

lemma box_leak_holds: "holds A T h p v \<Longrightarrow> box_leak A \<lparr>ptr = p\<rparr> h = Ok p"
  by (simp add: box_leak_def box_into_raw_def ptr_ref_def holds_def)

lemma box_deref_mut_holds:
  "holds A T h p u \<Longrightarrow> box_deref_mut A \<lparr>ptr = p\<rparr> v h =
     Ok (h\<lparr>contents := (contents h)(p \<mapsto> v), drops := drops h @ [u]\<rparr>)"
  by (simp add: box_deref_mut_def heap_defs holds_def)

section \<open>Clients\<close>

text \<open>
  A client owns boxes and has turned others into raw pointers; \<open>made\<close> lists the values it has put
  into boxes. It can use what it holds only, as the ownership rules have it (an index out of range
  is not a program), and calls \<open>from_raw\<close> on pointers from \<open>into_raw\<close> or \<open>leak\<close> only, once.
\<close>

record ('h, 'v) client =
  heap :: "('h, 'v) heap"
  owned :: "box list"
  raws :: "addr list"
  made :: "'v list"

datatype 'v box_op =
  BNew 'v | BClone nat | BDrop nat | BIntoRaw nat | BLeak nat | BFromRaw nat | BAssign nat 'v | BDeref nat

definition without :: "nat \<Rightarrow> 'a list \<Rightarrow> 'a list" where
  "without i xs = take i xs @ drop (Suc i) xs"

fun box_step ::
  "('v \<Rightarrow> 'v) \<Rightarrow> 'h allocator \<Rightarrow> layout \<Rightarrow> 'v box_op \<Rightarrow> ('h, 'v) client \<Rightarrow> (('h, 'v) client, box_fault) result" where
  "box_step clone A T (BNew v) c =
     and_then (box_new A T v (heap c)) (\<lambda>(b, h).
     Ok (c\<lparr>heap := h, owned := owned c @ [b], made := made c @ [v]\<rparr>))"
| "box_step clone A T (BClone i) c =
     (if i < length (owned c)
      then and_then (box_deref A (owned c ! i) (heap c)) (\<lambda>v.
           and_then (box_clone clone A T (owned c ! i) (heap c)) (\<lambda>(b, h).
           Ok (c\<lparr>heap := h, owned := owned c @ [b], made := made c @ [clone v]\<rparr>)))
      else Ok c)"
| "box_step clone A T (BDrop i) c =
     (if i < length (owned c)
      then and_then (box_drop A T (owned c ! i) (heap c)) (\<lambda>h.
           Ok (c\<lparr>heap := h, owned := without i (owned c)\<rparr>))
      else Ok c)"
| "box_step clone A T (BIntoRaw i) c =
     (if i < length (owned c)
      then Ok (c\<lparr>owned := without i (owned c), raws := raws c @ [box_into_raw (owned c ! i)]\<rparr>)
      else Ok c)"
| "box_step clone A T (BLeak i) c =
     (if i < length (owned c)
      then and_then (box_leak A (owned c ! i) (heap c)) (\<lambda>p.
           Ok (c\<lparr>owned := without i (owned c), raws := raws c @ [p]\<rparr>))
      else Ok c)"
| "box_step clone A T (BFromRaw i) c =
     (if i < length (raws c)
      then Ok (c\<lparr>raws := without i (raws c), owned := owned c @ [box_from_raw (raws c ! i)]\<rparr>)
      else Ok c)"
| "box_step clone A T (BAssign i v) c =
     (if i < length (owned c)
      then and_then (box_deref_mut A (owned c ! i) v (heap c)) (\<lambda>h.
           Ok (c\<lparr>heap := h, made := made c @ [v]\<rparr>))
      else Ok c)"
| "box_step clone A T (BDeref i) c =
     (if i < length (owned c)
      then and_then (box_deref A (owned c ! i) (heap c)) (\<lambda>_. Ok c)
      else Ok c)"

fun box_run ::
  "('v \<Rightarrow> 'v) \<Rightarrow> 'h allocator \<Rightarrow> layout \<Rightarrow> 'v box_op list \<Rightarrow> ('h, 'v) client \<Rightarrow> (('h, 'v) client, box_fault) result" where
  "box_run clone A T [] c = Ok c"
| "box_run clone A T (x # xs) c = and_then (box_step clone A T x c) (box_run clone A T xs)"

definition fresh_client :: "'h \<Rightarrow> ('h, 'v) client" where
  "fresh_client a = \<lparr>heap = \<lparr>arena = a, contents = (\<lambda>_. None), drops = []\<rparr>, owned = [], raws = [], made = []\<rparr>"

text \<open>
  The invariant: the pointers \<open>ps\<close> are held once each and are the allocated blocks, each has a value,
  and every value made is in a block or has been dropped.
\<close>

definition box_inv :: "'h allocator \<Rightarrow> layout \<Rightarrow> addr list \<Rightarrow> ('h, 'v) heap \<Rightarrow> 'v list \<Rightarrow> bool" where
  "box_inv A T ps h ms \<longleftrightarrow>
     distinct ps \<and>
     (\<forall>p. a_blocks A (arena h) p = (if p \<in> set ps then Some T else None)) \<and>
     (\<forall>p\<in>set ps. contents h p \<noteq> None) \<and>
     mset ms = mset (drops h) + image_mset (\<lambda>p. the (contents h p)) (mset ps)"

definition held :: "('h, 'v) client \<Rightarrow> addr list" where
  "held c = map ptr (owned c) @ raws c"

definition client_inv :: "'h allocator \<Rightarrow> layout \<Rightarrow> ('h, 'v) client \<Rightarrow> bool" where
  "client_inv A T c \<longleftrightarrow> box_inv A T (held c) (heap c) (made c)"

lemma box_inv_perm: "mset ps = mset qs \<Longrightarrow> box_inv A T ps h ms \<longleftrightarrow> box_inv A T qs h ms"
  using mset_eq_imp_distinct_iff [of ps qs] mset_eq_setD [of ps qs] by (simp add: box_inv_def)

lemma box_inv_permI: "box_inv A T ps h ms \<Longrightarrow> mset ps = mset qs \<Longrightarrow> box_inv A T qs h ms"
  using box_inv_perm by blast

lemma box_inv_holds:
  assumes "box_inv A T ps h ms" "p \<in> set ps"
  obtains v where "holds A T h p v"
  using assms unfolding box_inv_def holds_def by fastforce

lemma box_inv_new:
  assumes "box_inv A T ps h ms" "a_blocks A (arena h) p = None"
    "a_blocks A (arena h') = (a_blocks A (arena h))(p \<mapsto> T)"
    "contents h' = (contents h)(p \<mapsto> v)" "drops h' = drops h"
  shows "box_inv A T (p # ps) h' (ms @ [v])"
proof -
  have "p \<notin> set ps"
    using assms(1,2) by (auto simp: box_inv_def split: if_splits)
  moreover from this have "image_mset (\<lambda>q. the (contents h' q)) (mset ps) = image_mset (\<lambda>q. the (contents h q)) (mset ps)"
    by (intro image_mset_cong) (auto simp: assms(4))
  ultimately show ?thesis
    using assms unfolding box_inv_def by auto
qed

lemma box_inv_drop:
  assumes "box_inv A T (p # ps) h ms" "holds A T h p v"
    "a_blocks A (arena h') = (a_blocks A (arena h))(p := None)"
    "contents h' = (contents h)(p := None)" "drops h' = drops h @ [v]"
  shows "box_inv A T ps h' ms"
proof -
  have "p \<notin> set ps"
    using assms(1) by (auto simp: box_inv_def)
  moreover from this have "image_mset (\<lambda>q. the (contents h' q)) (mset ps) = image_mset (\<lambda>q. the (contents h q)) (mset ps)"
    by (intro image_mset_cong) (auto simp: assms(4))
  ultimately show ?thesis
    using assms unfolding box_inv_def holds_def by auto
qed

lemma box_inv_assign:
  assumes "box_inv A T (p # ps) h ms" "holds A T h p u"
  shows "box_inv A T (p # ps) (h\<lparr>contents := (contents h)(p \<mapsto> v), drops := drops h @ [u]\<rparr>) (ms @ [v])"
proof -
  have "p \<notin> set ps"
    using assms(1) by (auto simp: box_inv_def)
  then have "image_mset (\<lambda>q. the (((contents h)(p \<mapsto> v)) q)) (mset ps) = image_mset (\<lambda>q. the (contents h q)) (mset ps)"
    by (intro image_mset_cong) auto
  then show ?thesis
    using assms unfolding box_inv_def holds_def by auto
qed

lemma mset_without: "i < length xs \<Longrightarrow> mset xs = add_mset (xs ! i) (mset (without i xs))"
  by (subst id_take_nth_drop [of i]) (simp_all add: without_def)

lemma mset_held:
  "i < length (owned c) \<Longrightarrow> mset (held c) = mset (ptr (owned c ! i) # map ptr (without i (owned c)) @ raws c)"
  "i < length (raws c) \<Longrightarrow> mset (held c) = mset (raws c ! i # map ptr (owned c) @ without i (raws c))"
  by (simp_all add: held_def mset_without)

lemma client_inv_owned:
  "i < length (owned c) \<Longrightarrow> client_inv A T c \<longleftrightarrow>
     box_inv A T (ptr (owned c ! i) # map ptr (without i (owned c)) @ raws c) (heap c) (made c)"
  unfolding client_inv_def by (rule box_inv_perm) (rule mset_held(1))

text \<open>An operation fails only when the allocator has no memory left, and keeps the invariant.\<close>

definition box_ok :: "'h allocator \<Rightarrow> layout \<Rightarrow> (('h, 'v) client, box_fault) result \<Rightarrow> bool" where
  "box_ok A T r \<longleftrightarrow> (case r of Ok c \<Rightarrow> client_inv A T c | Err f \<Rightarrow> f = Allocation_Failed)"

lemma box_ok_simps [simp]:
  "box_ok A T (Ok c) = client_inv A T c"
  "box_ok A T (Err f) \<longleftrightarrow> f = Allocation_Failed"
  by (simp_all add: box_ok_def)

lemma box_new_ok:
  assumes "allocator_ok A" "layout_ok T" "client_inv A T c"
  shows "box_ok A T (and_then (box_new A T v (heap c)) (\<lambda>(b, h).
     Ok (c\<lparr>heap := h, owned := owned c @ [b], made := made c @ [v]\<rparr>)))"
proof (cases rule: box_new_cases [OF assms(1,2), of v "heap c"])
  case (2 p h')
  have "box_inv A T (p # held c) h' (made c @ [v])"
    by (rule box_inv_new [OF _ 2(2-5)]) (use assms(3) in \<open>simp add: client_inv_def\<close>)
  then show ?thesis
    using 2(1) by (auto simp: client_inv_def held_def elim!: box_inv_permI)
qed simp

lemma box_eta [simp]: "\<lparr>ptr = ptr b\<rparr> = b"
  by simp

lemma box_step_ok:
  assumes "allocator_ok A" "layout_ok T" "client_inv A T c"
  shows "box_ok A T (box_step clone A T x c)"
proof -
  have own: "\<exists>v. holds A T (heap c) (ptr (owned c ! i)) v" if "i < length (owned c)" for i
    using assms(3) that box_inv_holds [of A T "held c" "heap c" "made c" "ptr (owned c ! i)"]
    by (auto simp: client_inv_def held_def)
  show ?thesis
  proof (cases x)
    case (BNew v)
    then show ?thesis
      using box_new_ok [OF assms] by simp
  next
    case (BClone i)
    show ?thesis
    proof (cases "i < length (owned c)")
      case True
      then obtain v where "holds A T (heap c) (ptr (owned c ! i)) v"
        using own by blast
      then show ?thesis
        using BClone True box_deref_holds [of A T "heap c" "ptr (owned c ! i)" v] box_new_ok [OF assms, of "clone v"]
        by (simp add: box_clone_def box_as_ref_def)
    qed (simp add: BClone assms(3))
  next
    case (BDrop i)
    show ?thesis
    proof (cases "i < length (owned c)")
      case True
      then obtain v where v: "holds A T (heap c) (ptr (owned c ! i)) v"
        using own by blast
      obtain h' where h': "box_drop A T (owned c ! i) (heap c) = Ok h'"
        "a_blocks A (arena h') = (a_blocks A (arena (heap c)))(ptr (owned c ! i) := None)"
        "contents h' = (contents (heap c))(ptr (owned c ! i) := None)" "drops h' = drops (heap c) @ [v]"
        using box_drop_holds [OF assms(1,2) v] by auto
      have "box_inv A T (map ptr (without i (owned c)) @ raws c) h' (made c)"
        by (rule box_inv_drop [OF _ v h'(2-4)]) (use assms(3) client_inv_owned [OF True] in blast)
      then show ?thesis
        using BDrop True h'(1) by (simp add: client_inv_def held_def)
    qed (simp add: BDrop assms(3))
  next
    case (BIntoRaw i)
    then show ?thesis
      using assms(3) mset_held(1) [of i c]
      by (auto simp: client_inv_def held_def box_into_raw_def elim!: box_inv_permI)
  next
    case (BLeak i)
    then show ?thesis
      using assms(3) mset_held(1) [of i c] own [of i] box_leak_holds [of A T "heap c" "ptr (owned c ! i)"]
      by (auto simp: client_inv_def held_def elim!: box_inv_permI)
  next
    case (BFromRaw i)
    then show ?thesis
      using assms(3) mset_held(2) [of i c]
      by (auto simp: client_inv_def held_def box_from_raw_def elim!: box_inv_permI)
  next
    case (BAssign i v)
    show ?thesis
    proof (cases "i < length (owned c)")
      case True
      then obtain u where u: "holds A T (heap c) (ptr (owned c ! i)) u"
        using own by blast
      show ?thesis
        using BAssign True box_deref_mut_holds [OF u, of v] box_inv_assign [OF _ u, of _ "made c" v]
          assms(3) client_inv_owned [OF True, of A T] client_inv_owned [of i "c\<lparr>heap := _, made := _\<rparr>" A T]
        by simp
    qed (simp add: BAssign assms(3))
  next
    case (BDeref i)
    then show ?thesis
      using assms(3) own [of i] box_deref_holds [of A T "heap c" "ptr (owned c ! i)"] by auto
  qed
qed

lemma box_run_ok:
  assumes "allocator_ok A" "layout_ok T" "client_inv A T c"
  shows "box_ok A T (box_run clone A T xs c)"
  using assms(3)
proof (induction xs arbitrary: c)
  case (Cons x xs)
  then show ?case
    using box_step_ok [OF assms(1,2) Cons.prems, of clone x]
    by (cases "box_step clone A T x c") simp_all
qed simp

lemma client_inv_init:
  assumes "a_blocks A a = (\<lambda>_. None)"
  shows "client_inv A T (fresh_client a)"
  using assms by (simp add: client_inv_def box_inv_def held_def fresh_client_def)

section \<open>An allocator\<close>

text \<open>
  A first-fit allocator of at most \<open>n\<close> blocks behaves as \<open>allocator_ok\<close> demands.
\<close>

definition bounded_allocator :: "nat \<Rightarrow> (addr \<times> layout) list allocator" where
  "bounded_allocator n =
     \<lparr>a_alloc = (\<lambda>l h. if length h < n then let p = Suc (foldr max (map fst h) 0) in (p, (p, l) # h) else (0, h)),
      a_dealloc = (\<lambda>p l h. filter (\<lambda>x. fst x \<noteq> p) h),
      a_blocks = map_of\<rparr>"

lemma foldr_max: "x \<in> set xs \<Longrightarrow> x \<le> foldr max xs (0 :: nat)"
  by (induction xs) auto

lemma map_of_removed: "map_of (filter (\<lambda>x. fst x \<noteq> p) h) = (map_of h)(p := None)"
  by (induction h) (auto simp: fun_eq_iff)

lemma bounded_allocator_ok: "allocator_ok (bounded_allocator n)"
proof -
  have "map_of h (Suc (foldr max (map fst h) 0)) = None" for h :: "(addr \<times> layout) list"
    using foldr_max [of _ "map fst h"] by (force simp: map_of_eq_None_iff)
  then show ?thesis
    by (auto simp: allocator_ok_def bounded_allocator_def map_of_removed Let_def)
qed

lemma bounded_allocator_empty: "a_blocks (bounded_allocator n) [] = (\<lambda>_. None)"
  by (simp add: bounded_allocator_def)

end
