(* ===== verification/Shared_Heap.thy ===== *)
theory Shared_Heap
  imports Loom_Box Histories
begin

text \<open>
  Any number of channels on one heap: \<open>channel()\<close> allocates through the \<open>Box\<close> of \<open>Loom_Box\<close>, the two
  endpoints reach the allocation through their pointers, and \<open>dealloc\<close> gives it back.
\<close>

section \<open>Pointers to channels\<close>

text \<open>What the allocation holds: the fields of \<open>Channel\<close>. Dropping it drops neither of the last two.\<close>

record 'm cell =
  c_state :: u8
  c_message :: "'m option"
  c_waker :: "waker option"

definition cell_of :: "'m mem \<Rightarrow> 'm cell" where
  "cell_of \<mu> = \<lparr>c_state = val (last (hist \<mu>)), c_message = message \<mu>, c_waker = waker_slot \<mu>\<rparr>"

definition cell_new :: "'m cell" where
  "cell_new = \<lparr>c_state = EMPTY, c_message = None, c_waker = None\<rparr>"

text \<open>Nothing is lost when the cell is freed.\<close>

definition spent :: "'m cell \<Rightarrow> bool" where
  "spent x \<longleftrightarrow> Option.is_none (c_message x) \<and> Option.is_none (c_waker x)"

text \<open>The endpoints and the error are pointers to the allocation.\<close>

record sender =
  s_channel_ptr :: addr

record receiver =
  r_channel_ptr :: addr

record async_receiver =
  a_channel_ptr :: addr

record send_error =
  e_channel_ptr :: addr

definition sender_new :: "addr \<Rightarrow> sender" where
  "sender_new channel_ptr = \<lparr>s_channel_ptr = channel_ptr\<rparr>"

definition receiver_new :: "addr \<Rightarrow> receiver" where
  "receiver_new channel_ptr = \<lparr>r_channel_ptr = channel_ptr\<rparr>"

definition send_error_new :: "addr \<Rightarrow> send_error" where
  "send_error_new channel_ptr = \<lparr>e_channel_ptr = channel_ptr\<rparr>"

definition sender_to_pointer :: "sender \<Rightarrow> addr" where
  "sender_to_pointer s = s_channel_ptr s"

definition sender_of_pointer :: "addr \<Rightarrow> sender" where
  "sender_of_pointer raw = sender_new raw"

definition receiver_to_pointer :: "receiver \<Rightarrow> addr" where
  "receiver_to_pointer r = r_channel_ptr r"

definition receiver_of_pointer :: "addr \<Rightarrow> receiver" where
  "receiver_of_pointer raw = \<lparr>r_channel_ptr = raw\<rparr>"

definition receiver_to_future :: "receiver \<Rightarrow> async_receiver" where
  "receiver_to_future r = \<lparr>a_channel_ptr = r_channel_ptr r\<rparr>"

lemmas pointer_defs =
  sender_new_def receiver_new_def send_error_new_def sender_to_pointer_def sender_of_pointer_def
  receiver_to_pointer_def receiver_of_pointer_def receiver_to_future_def

text \<open>The value a client has in hand, and what a call makes of it.\<close>

datatype tx_value = Tx_Sender sender | Tx_Pointer addr | Tx_Error send_error

datatype rx_value = Rx_Receiver receiver | Rx_Pointer addr | Rx_Async async_receiver

fun tx_ptr :: "tx_value \<Rightarrow> addr" where
  "tx_ptr (Tx_Sender s) = s_channel_ptr s"
| "tx_ptr (Tx_Pointer p) = p"
| "tx_ptr (Tx_Error e) = e_channel_ptr e"

fun rx_ptr :: "rx_value \<Rightarrow> addr" where
  "rx_ptr (Rx_Receiver r) = r_channel_ptr r"
| "rx_ptr (Rx_Pointer p) = p"
| "rx_ptr (Rx_Async a) = a_channel_ptr a"

definition tx_value_after :: "'m tx_call \<times> 'm tx_ret \<Rightarrow> tx_value \<Rightarrow> tx_value" where
  "tx_value_after x v =
     (case v of
        Tx_Sender s \<Rightarrow>
          (case x of
             (CSend m, r) \<Rightarrow> if tx_after (CSend m) r = TxGone then v else Tx_Error (send_error_new (s_channel_ptr s))
           | (CTxIntoRaw, r) \<Rightarrow> Tx_Pointer (sender_to_pointer s)
           | _ \<Rightarrow> v)
      | Tx_Pointer p \<Rightarrow> (case x of (CTxFromRaw, r) \<Rightarrow> Tx_Sender (sender_of_pointer p) | _ \<Rightarrow> v)
      | Tx_Error e \<Rightarrow> v)"

definition rx_value_after :: "rx_call \<Rightarrow> rx_value \<Rightarrow> rx_value" where
  "rx_value_after c v =
     (case v of
        Rx_Receiver r \<Rightarrow>
          (case c of
             CIntoRaw \<Rightarrow> Rx_Pointer (receiver_to_pointer r)
           | CIntoFuture \<Rightarrow> Rx_Async (receiver_to_future r)
           | _ \<Rightarrow> v)
      | Rx_Pointer p \<Rightarrow> (case c of CFromRaw \<Rightarrow> Rx_Receiver (receiver_of_pointer p) | _ \<Rightarrow> v)
      | Rx_Async a \<Rightarrow> v)"

lemma value_after_ptr [simp]:
  "tx_ptr (tx_value_after x v) = tx_ptr v" "rx_ptr (rx_value_after c u) = rx_ptr u"
  by (simp_all add: tx_value_after_def rx_value_after_def pointer_defs
      split: tx_value.split rx_value.split prod.split tx_call.split tx_ret.split result.split rx_call.split)

text \<open>The value that the ownership rules of \<open>System\<close> speak of.\<close>

fun tx_fits :: "tx_handle \<Rightarrow> tx_value \<Rightarrow> bool" where
  "tx_fits TxSender (Tx_Sender s) = True"
| "tx_fits TxRaw (Tx_Pointer p) = True"
| "tx_fits TxSendError (Tx_Error e) = True"
| "tx_fits TxGone v = True"
| "tx_fits _ _ = False"

fun rx_fits :: "rx_handle \<Rightarrow> rx_value \<Rightarrow> bool" where
  "rx_fits RxReceiver (Rx_Receiver r) = True"
| "rx_fits RxRaw (Rx_Pointer p) = True"
| "rx_fits RxAsync (Rx_Async a) = True"
| "rx_fits RxGone v = True"
| "rx_fits _ _ = False"

lemma tx_fits_after:
  "tx_fits h v \<Longrightarrow> tx_owns h c \<Longrightarrow> tx_fits (tx_after c r) (tx_value_after (c, r) v)"
  by (cases c; cases h; cases v) (auto simp: tx_value_after_def split: tx_ret.split result.split)

lemma rx_fits_after:
  "rx_fits h v \<Longrightarrow> rx_owns h c \<Longrightarrow> rx_fits (rx_after c) (rx_value_after c v)"
  by (cases c; cases h; cases v) (auto simp: rx_value_after_def)

section \<open>Allocation\<close>

definition new_channel ::
  "'h allocator \<Rightarrow> layout \<Rightarrow> ('h, 'm cell) heap \<Rightarrow> ((sender \<times> receiver) \<times> ('h, 'm cell) heap, box_fault) result" where
  "new_channel A T h =
     and_then (box_new A T cell_new h) (\<lambda>(b, h).
     and_then (box_leak A b h) (\<lambda>channel_ptr.
     Ok ((sender_new channel_ptr, receiver_new channel_ptr), h)))"

definition new_async_channel ::
  "'h allocator \<Rightarrow> layout \<Rightarrow> ('h, 'm cell) heap \<Rightarrow> ((sender \<times> async_receiver) \<times> ('h, 'm cell) heap, box_fault) result" where
  "new_async_channel A T h =
     and_then (new_channel A T h) (\<lambda>((sender, receiver), h).
     let async_receiver = receiver_to_future receiver in Ok ((sender, async_receiver), h))"

definition release ::
  "'h allocator \<Rightarrow> layout \<Rightarrow> addr \<Rightarrow> ('h, 'm cell) heap \<Rightarrow> (('h, 'm cell) heap, box_fault) result" where
  "release A T channel_ptr h = box_drop A T (box_from_raw channel_ptr) h"

section \<open>Channels in use\<close>

record 'm conn =
  c_tx :: tx_value
  c_rx :: rx_value
  c_world :: "'m world"

record ('h, 'm) hub =
  hub_heap :: "('h, 'm cell) heap"
  conns :: "'m conn list"

datatype hub_fault = Heap_Fault box_fault | Channel_Fault fault

text \<open>The action that a step performs, and the pointer it goes through.\<close>

fun acting :: "'m label \<Rightarrow> 'm world \<Rightarrow> 'm action option" where
  "acting (TxRun ch) w = (case tx_run w of None \<Rightarrow> None | Some (c, th) \<Rightarrow> next_action th)"
| "acting (RxRun ch) w = (case rx_run w of None \<Rightarrow> None | Some (c, th) \<Rightarrow> next_action th)"
| "acting l w = None"

definition via :: "'m label \<Rightarrow> 'm conn \<Rightarrow> addr" where
  "via l c = (if by_tx l then tx_ptr (c_tx c) else rx_ptr (c_rx c))"

definition conn_after :: "'m label \<Rightarrow> 'm world \<Rightarrow> 'm conn \<Rightarrow> 'm conn" where
  "conn_after l w' c =
     (case l of
        TxReturn \<Rightarrow> c\<lparr>c_world := w', c_tx := tx_value_after (last (tx_log w')) (c_tx c)\<rparr>
      | RxReturn \<Rightarrow> c\<lparr>c_world := w', c_rx := rx_value_after (fst (last (rx_log w'))) (c_rx c)\<rparr>
      | _ \<Rightarrow> c\<lparr>c_world := w'\<rparr>)"

text \<open>The actions that do not access the allocation.\<close>

fun detached :: "'m action \<Rightarrow> bool" where
  "detached AFenceAcquire = True"
| "detached (APark t) = True"
| "detached (AParkTimeout t d) = True"
| "detached (AUnpark t) = True"
| "detached (AWake i) = True"
| "detached (AWakeByRef i) = True"
| "detached AInstantNow = True"
| "detached ASpinLoop = True"
| "detached \<alpha> = False"

text \<open>
  The effect of a step that leads to \<open>w'\<close> on the heap: \<open>dealloc\<close> returns the allocation, any other
  access goes through \<open>channel_ptr.as_ref()\<close> and may change the cell.
\<close>

definition on_heap ::
  "'h allocator \<Rightarrow> layout \<Rightarrow> addr \<Rightarrow> 'm action option \<Rightarrow> 'm world \<Rightarrow> ('h, 'm cell) heap \<Rightarrow> (('h, 'm cell) heap, box_fault) result"
where
  "on_heap A T p x w' h =
     (case x of
        None \<Rightarrow> Ok h
      | Some \<alpha> \<Rightarrow>
          (case \<alpha> of
             ADealloc \<Rightarrow> release A T p h
           | _ \<Rightarrow> if detached \<alpha> then Ok h
               else and_then (ptr_ref A p h) (\<lambda>_. ptr_write A p (cell_of (mem w')) h)))"

datatype 'm hub_op = HNew bool "tid \<Rightarrow> bool" | HStep nat "'m label"

definition lift_heap :: "('a, box_fault) result \<Rightarrow> ('a \<Rightarrow> ('b, hub_fault) result) \<Rightarrow> ('b, hub_fault) result" where
  "lift_heap r k = (case r of Ok a \<Rightarrow> k a | Err e \<Rightarrow> Err (Heap_Fault e))"

lemma lift_heap_simps [simp]:
  "lift_heap (Ok a) k = k a"
  "lift_heap (Err e) k = Err (Heap_Fault e)"
  by (simp_all add: lift_heap_def)

text \<open>
  A new channel, for a future if \<open>future\<close> is set, or a step of the \<open>i\<close>-th one outside the race windows.
\<close>

fun hub_step ::
  "'h allocator \<Rightarrow> layout \<Rightarrow> instant \<Rightarrow> 'm hub_op \<Rightarrow> ('h, 'm) hub \<Rightarrow> (('h, 'm) hub, hub_fault) result" where
  "hub_step A T li (HNew False parked) s =
     lift_heap (new_channel A T (hub_heap s)) (\<lambda>((tx, rx), h).
     Ok (s\<lparr>hub_heap := h, conns := conns s @
       [\<lparr>c_tx = Tx_Sender tx, c_rx = Rx_Receiver rx, c_world = channel parked\<rparr>]\<rparr>))"
| "hub_step A T li (HNew True parked) s =
     lift_heap (new_async_channel A T (hub_heap s)) (\<lambda>((tx, rx), h).
     Ok (s\<lparr>hub_heap := h, conns := conns s @
       [\<lparr>c_tx = Tx_Sender tx, c_rx = Rx_Async rx, c_world = async_channel parked\<rparr>]\<rparr>))"
| "hub_step A T li (HStep i l) s =
     (if i < length (conns s) \<and> \<not> in_race_window l (c_world (conns s ! i)) then
        let c = conns s ! i in
        case step li l (c_world c) of
          Disabled \<Rightarrow> Ok s
        | Fault f \<Rightarrow> Err (Channel_Fault f)
        | Step w' \<Rightarrow>
            lift_heap (on_heap A T (via l c) (acting l (c_world c)) w' (hub_heap s)) (\<lambda>h.
            Ok (s\<lparr>hub_heap := h, conns := (conns s)[i := conn_after l w' c]\<rparr>))
      else Ok s)"

fun hub_run ::
  "'h allocator \<Rightarrow> layout \<Rightarrow> instant \<Rightarrow> 'm hub_op list \<Rightarrow> ('h, 'm) hub \<Rightarrow> (('h, 'm) hub, hub_fault) result" where
  "hub_run A T li [] s = Ok s"
| "hub_run A T li (x # xs) s = (case hub_step A T li x s of Ok s' \<Rightarrow> hub_run A T li xs s' | Err f \<Rightarrow> Err f)"

definition hub_start :: "'h \<Rightarrow> ('h, 'm) hub" where
  "hub_start a = \<lparr>hub_heap = \<lparr>arena = a, contents = (\<lambda>_. None), drops = []\<rparr>, conns = []\<rparr>"

section \<open>Steps and the memory of a channel\<close>

lemma acting_step:
  assumes "step li l w = Step w'"
  shows "case acting l w of None \<Rightarrow> mem w' = mem w
    | Some \<alpha> \<Rightarrow> \<exists>a ch r. act a ch \<alpha> (mem w) = Step (r, mem w')"
proof -
  have "case next_action th of None \<Rightarrow> \<mu>' = \<mu> | Some \<alpha> \<Rightarrow> \<exists>a ch r. act a ch \<alpha> \<mu> = Step (r, \<mu>')"
    if "run_thread b d th \<mu> = Step (th', \<mu>')" for b d and th th' :: "('a, 'r) thread" and \<mu> \<mu>'
    using that by (cases "(b, d, th, \<mu>)" rule: run_thread.cases) (auto split: outcome.splits option.splits)
  note t = this
  show ?thesis
  proof (cases l)
    case (TxRun ch)
    then obtain c th th' where "tx_run w = Some (c, th)" "run_thread Tx ch th (mem w) = Step (th', mem w')"
      using assms by (auto split: option.splits outcome.splits)
    then show ?thesis
      using t [of Tx ch th "mem w" th' "mem w'"] TxRun by simp
  next
    case (RxRun ch)
    then obtain c th th' where "rx_run w = Some (c, th)" "run_thread Rx ch th (mem w) = Step (th', mem w')"
      using assms by (auto split: option.splits outcome.splits)
    then show ?thesis
      using t [of Rx ch th "mem w" th' "mem w'"] RxRun by simp
  qed (use assms in \<open>auto split: option.splits if_splits prog.splits\<close>)
qed

lemma act_dealloc:
  assumes "act a ch ADealloc \<mu> = Step (r, \<mu>')"
  shows "\<not> freed \<mu>" "freed \<mu>'" "\<not> leaked \<mu>' \<Longrightarrow> spent (cell_of \<mu>)"
  using assms by (auto simp: access_def free_channel_def ticked_def spent_def cell_of_def split: if_splits)

lemma act_access:
  assumes "act a ch \<alpha> \<mu> = Step (r, \<mu>')" "\<alpha> \<noteq> ADealloc" "\<not> detached \<alpha>"
  shows "\<not> freed \<mu>" "\<not> freed \<mu>'"
  using assms
  by (cases \<alpha>; auto simp: access_def with_index_def load_at_def store_last_def rmw_def
      compare_exchange_at_def msg_access_def wak_access_def put_message_def move_message_def
      borrow_message_def drop_message_in_place_def put_waker_def move_waker_def
      drop_waker_in_place_def ticked_def observe_def emit_def Let_def
      split: if_splits option.splits choice.splits)+

lemma act_detached:
  assumes "act a ch \<alpha> \<mu> = Step (r, \<mu>')" "detached \<alpha>"
  shows "freed \<mu>' = freed \<mu>" "cell_of \<mu>' = cell_of \<mu>"
  using assms
  by (cases \<alpha>; auto simp: park_def unpark_thread_def fence_acquire_def cell_of_def
      split: option.splits choice.splits)+

section \<open>The invariant of the heap\<close>

definition conn_ptr :: "'m conn \<Rightarrow> addr" where
  "conn_ptr c = tx_ptr (c_tx c)"

definition live :: "'m conn \<Rightarrow> bool" where
  "live c \<longleftrightarrow> \<not> freed (mem (c_world c))"

text \<open>
  The live channels have different addresses, which are the allocated blocks, and hold the current
  values of the fields; each of the others has been dropped once, with nothing left in it.
\<close>

definition heap_inv :: "'h allocator \<Rightarrow> layout \<Rightarrow> ('h, 'm cell) heap \<Rightarrow> 'm conn list \<Rightarrow> bool" where
  "heap_inv A T h cs \<longleftrightarrow>
     distinct (map conn_ptr (filter live cs)) \<and>
     a_blocks A (arena h) = (\<lambda>p. if p \<in> conn_ptr ` set (filter live cs) then Some T else None) \<and>
     (\<forall>c\<in>set (filter live cs). contents h (conn_ptr c) = Some (cell_of (mem (c_world c)))) \<and>
     list_all spent (drops h) \<and> length (drops h) + length (filter live cs) = length cs"

lemma heap_inv_permI:
  assumes "heap_inv A T h cs" "mset cs = mset ds"
  shows "heap_inv A T h ds"
proof -
  have "mset (filter live cs) = mset (filter live ds)"
    using assms(2) by simp
  then show ?thesis
    using assms mset_eq_setD [of "filter live cs" "filter live ds"] mset_eq_setD [OF assms(2)]
      mset_eq_imp_distinct_iff [of "map conn_ptr (filter live cs)" "map conn_ptr (filter live ds)"]
      size_mset [of "filter live cs"] size_mset [of "filter live ds"] size_mset [of cs] size_mset [of ds]
    by (simp add: heap_inv_def)
qed

lemma heap_inv_holds: "heap_inv A T h (c # cs) \<Longrightarrow> live c \<Longrightarrow> holds A T h (conn_ptr c) (cell_of (mem (c_world c)))"
  by (simp add: heap_inv_def holds_def)

lemma heap_inv_new:
  assumes "heap_inv A T h cs" "live c" "a_blocks A (arena h) (conn_ptr c) = None"
    "a_blocks A (arena h') = (a_blocks A (arena h))(conn_ptr c \<mapsto> T)"
    "contents h' = (contents h)(conn_ptr c \<mapsto> cell_of (mem (c_world c)))" "drops h' = drops h"
  shows "heap_inv A T h' (c # cs)"
proof -
  have "conn_ptr c \<notin> conn_ptr ` set (filter live cs)"
    using assms(1,3) by (auto simp: heap_inv_def split: if_splits)
  then show ?thesis
    using assms unfolding heap_inv_def by (auto simp: fun_eq_iff image_iff)
qed

lemma heap_inv_same:
  assumes "heap_inv A T h (c # cs)" "conn_ptr c' = conn_ptr c"
    "freed (mem (c_world c')) = freed (mem (c_world c))" "cell_of (mem (c_world c')) = cell_of (mem (c_world c))"
  shows "heap_inv A T h (c' # cs)"
  using assms by (auto simp: heap_inv_def live_def)

lemma heap_inv_write:
  assumes "heap_inv A T h (c # cs)" "conn_ptr c' = conn_ptr c" "live c" "live c'"
  shows "heap_inv A T (h\<lparr>contents := (contents h)(conn_ptr c \<mapsto> cell_of (mem (c_world c')))\<rparr>) (c' # cs)"
  using assms by (auto simp: heap_inv_def image_iff)

lemma heap_inv_free:
  assumes "heap_inv A T h (c # cs)" "live c" "\<not> live c'" "spent (cell_of (mem (c_world c)))"
    "a_blocks A (arena h') = (a_blocks A (arena h))(conn_ptr c := None)"
    "contents h' = (contents h)(conn_ptr c := None)" "drops h' = drops h @ [cell_of (mem (c_world c))]"
  shows "heap_inv A T h' (c' # cs)"
  using assms by (auto simp: heap_inv_def fun_eq_iff image_iff)

section \<open>Every step keeps it\<close>

lemma conn_after_simps [simp]:
  "c_world (conn_after l w c) = w" "conn_ptr (conn_after l w c) = conn_ptr c"
  "tx_ptr (c_tx (conn_after l w c)) = tx_ptr (c_tx c)" "rx_ptr (c_rx (conn_after l w c)) = rx_ptr (c_rx c)"
  by (simp_all add: conn_after_def conn_ptr_def split: label.split)

lemma on_heap_other:
  "\<alpha> \<noteq> ADealloc \<Longrightarrow> on_heap A T p (Some \<alpha>) w' h =
     (if detached \<alpha> then Ok h else and_then (ptr_ref A p h) (\<lambda>_. ptr_write A p (cell_of (mem w')) h))"
  by (cases \<alpha>) (simp_all add: on_heap_def)

lemma on_heap_ok:
  assumes A: "allocator_ok A" "layout_ok T" and H: "heap_inv A T h (c # cs)"
    and st: "step li l (c_world c) = Step w'" and ok: "\<not> leaked (mem w')"
  shows "\<exists>h'. on_heap A T (conn_ptr c) (acting l (c_world c)) w' h = Ok h' \<and> heap_inv A T h' (conn_after l w' c # cs)"
proof (cases "acting l (c_world c)")
  case None
  then show ?thesis
    using acting_step [OF st] heap_inv_same [OF H] by (auto simp: on_heap_def)
next
  case (Some \<alpha>)
  then obtain a ch r where act: "act a ch \<alpha> (mem (c_world c)) = Step (r, mem w')"
    using acting_step [OF st] by auto
  show ?thesis
  proof (cases "\<alpha> = ADealloc")
    case True
    then have f: "live c" "\<not> live (conn_after l w' c)" "spent (cell_of (mem (c_world c)))"
      using act_dealloc [OF act [unfolded True]] ok by (simp_all add: live_def)
    obtain h' where h': "box_drop A T \<lparr>ptr = conn_ptr c\<rparr> h = Ok h'"
      "a_blocks A (arena h') = (a_blocks A (arena h))(conn_ptr c := None)"
      "contents h' = (contents h)(conn_ptr c := None)" "drops h' = drops h @ [cell_of (mem (c_world c))]"
      using box_drop_holds [OF A heap_inv_holds [OF H f(1)]] by blast
    then show ?thesis
      using heap_inv_free [OF H f h'(2-4)] Some True by (simp add: on_heap_def release_def box_from_raw_def)
  next
    case False
    show ?thesis
    proof (cases "detached \<alpha>")
      case True
      then show ?thesis
        using heap_inv_same [OF H, of "conn_after l w' c"] act_detached [OF act] Some False by (simp add: on_heap_other)
    next
      case at: False
      then have l: "live c" "live (conn_after l w' c)"
        using act_access [OF act False] by (simp_all add: live_def)
      then have "on_heap A T (conn_ptr c) (acting l (c_world c)) w' h =
          Ok (h\<lparr>contents := (contents h)(conn_ptr c \<mapsto> cell_of (mem w'))\<rparr>)"
        using heap_inv_holds [OF H l(1)] at Some False by (simp add: on_heap_other ptr_ref_def ptr_write_def holds_def)
      then show ?thesis
        using heap_inv_write [OF H _ l] by simp
    qed
  qed
qed

text \<open>The two endpoints point to the same channel and are what their clients have in hand.\<close>

definition conn_fits :: "'m conn \<Rightarrow> bool" where
  "conn_fits c \<longleftrightarrow> rx_ptr (c_rx c) = tx_ptr (c_tx c) \<and>
     tx_fits (tx_handle (c_world c)) (c_tx c) \<and> rx_fits (rx_handle (c_world c)) (c_rx c)"

lemma conn_fits_step:
  assumes "conn_fits c" "reachable li (c_world c)" "step li l (c_world c) = Step w'"
  shows "conn_fits (conn_after l w' c)"
proof -
  let ?w = "c_world c"
  have inv: "world_inv ?w"
    by (rule reachable_inv [OF assms(2)])
  show ?thesis
  proof (cases l)
    case TxReturn
    then obtain d r fr where run: "tx_run ?w = Some (d, Return r, fr)"
      "w' = ?w\<lparr>tx_run := None, tx_handle := tx_after d r, tx_log := tx_log ?w @ [(d, r)]\<rparr>"
      using assms(3) by (auto split: option.splits prog.splits)
    then have "tx_owns (tx_handle ?w) d"
      using inv by (auto simp: world_inv_def tx_ok_def)
    then show ?thesis
      using assms(1) run TxReturn tx_fits_after [of "tx_handle ?w" "c_tx c" d r] by (simp add: conn_fits_def conn_after_def)
  next
    case RxReturn
    then obtain d r fr where run: "rx_run ?w = Some (d, Return r, fr)"
      "w' = ?w\<lparr>rx_run := None, rx_handle := rx_after d, rx_log := rx_log ?w @ [(d, r)]\<rparr>"
      using assms(3) by (auto split: option.splits prog.splits)
    then have "rx_owns (rx_handle ?w) d"
      using inv by (auto simp: world_inv_def rx_ok_def)
    then show ?thesis
      using assms(1) run RxReturn rx_fits_after [of "rx_handle ?w" "c_rx c" d] by (simp add: conn_fits_def conn_after_def)
  qed (use assms(1,3) in \<open>auto simp: conn_fits_def conn_after_def split: option.splits if_splits outcome.splits prod.splits\<close>)
qed

definition conn_ok :: "instant \<Rightarrow> 'm conn \<Rightarrow> bool" where
  "conn_ok li c \<longleftrightarrow> reachable li (c_world c) \<and> conn_fits c"

definition hub_inv :: "'h allocator \<Rightarrow> layout \<Rightarrow> instant \<Rightarrow> ('h, 'm) hub \<Rightarrow> bool" where
  "hub_inv A T li s \<longleftrightarrow> heap_inv A T (hub_heap s) (conns s) \<and> list_all (conn_ok li) (conns s)"

definition hub_ok :: "'h allocator \<Rightarrow> layout \<Rightarrow> instant \<Rightarrow> (('h, 'm) hub, hub_fault) result \<Rightarrow> bool" where
  "hub_ok A T li r \<longleftrightarrow> (case r of Ok s \<Rightarrow> hub_inv A T li s | Err f \<Rightarrow> f = Heap_Fault Allocation_Failed)"

lemma hub_ok_simps [simp]:
  "hub_ok A T li (Ok s) = hub_inv A T li s"
  "hub_ok A T li (Err f) \<longleftrightarrow> f = Heap_Fault Allocation_Failed"
  by (simp_all add: hub_ok_def)

lemma new_channel_cases:
  assumes "allocator_ok A" "layout_ok T"
  obtains "new_channel A T h = Err Allocation_Failed"
  | p h' where "new_channel A T h = Ok ((sender_new p, receiver_new p), h')" "a_blocks A (arena h) p = None"
      "a_blocks A (arena h') = (a_blocks A (arena h))(p \<mapsto> T)"
      "contents h' = (contents h)(p \<mapsto> cell_new)" "drops h' = drops h"
proof (cases rule: box_new_cases [OF assms, of cell_new h])
  case 1
  then show thesis
    using that(1) by (simp add: new_channel_def)
next
  case (2 p h')
  then have "holds A T h' p cell_new"
    by (simp add: holds_def)
  note leak = box_leak_holds [OF this]
  show thesis
    by (rule that(2) [of p h']) (use 2 leak in \<open>simp_all add: new_channel_def\<close>)
qed

lemma cell_fresh [simp]:
  "cell_of (mem (channel parked)) = cell_new" "cell_of (mem (async_channel parked)) = cell_new"
  "\<not> freed (mem (channel parked))" "\<not> freed (mem (async_channel parked))"
  by (simp_all add: cell_of_def cell_new_def channel_def async_channel_def channel_new_def)

lemma handles_fresh [simp]:
  "tx_handle (channel parked) = TxSender" "rx_handle (channel parked) = RxReceiver"
  "tx_handle (async_channel parked) = TxSender" "rx_handle (async_channel parked) = RxAsync"
  by (simp_all add: channel_def async_channel_def)

lemma hub_new_ok:
  assumes "allocator_ok A" "layout_ok T" "hub_inv A T li s"
  shows "hub_ok A T li (hub_step A T li (HNew future parked) s)"
proof (cases rule: new_channel_cases [OF assms(1,2), of "hub_heap s"])
  case (2 p h')
  define c where "c = (if future
    then \<lparr>c_tx = Tx_Sender (sender_new p), c_rx = Rx_Async (receiver_to_future (receiver_new p)), c_world = async_channel parked\<rparr>
    else \<lparr>c_tx = Tx_Sender (sender_new p), c_rx = Rx_Receiver (receiver_new p), c_world = (channel parked :: 'b world)\<rparr>)"
  have p: "conn_ptr c = p" "live c" "cell_of (mem (c_world c)) = cell_new" "conn_ok li c"
    by (simp_all add: c_def conn_ptr_def pointer_defs live_def conn_ok_def conn_fits_def
        reachable.init reachable.init_async)
  have "heap_inv A T h' (c # conns s)"
    by (rule heap_inv_new [where h = "hub_heap s"]) (use 2 p assms(3) in \<open>simp_all add: hub_inv_def\<close>)
  then have "heap_inv A T h' (conns s @ [c])"
    by (rule heap_inv_permI) simp
  moreover have "hub_step A T li (HNew future parked) s = Ok (s\<lparr>hub_heap := h', conns := conns s @ [c]\<rparr>)"
    using 2(1) by (cases future) (simp_all add: c_def new_async_channel_def)
  ultimately show ?thesis
    using assms(3) p(4) by (simp add: hub_inv_def)
qed (cases future; simp add: new_async_channel_def)

lemma hub_step_ok:
  assumes "allocator_ok A" "layout_ok T" "hub_inv A T li s"
  shows "hub_ok A T li (hub_step A T li x s)"
proof (cases x)
  case (HNew future parked)
  then show ?thesis
    using hub_new_ok [OF assms] by simp
next
  case (HStep i l)
  show ?thesis
  proof (cases "i < length (conns s) \<and> \<not> in_race_window l (c_world (conns s ! i))")
    case True
    define c where "c = conns s ! i"
    have c: "conn_ok li c"
      using assms(3) True by (simp add: hub_inv_def list_all_length c_def)
    then have re: "reachable li (c_world c)" and via: "via l c = conn_ptr c"
      by (simp_all add: conn_ok_def conn_fits_def via_def conn_ptr_def)
    have nf: "step li l (c_world c) \<noteq> Fault f" for f
      using step_no_fault [OF reachable_inv [OF re]] True by (metis c_def fault_of.simps(1) option.distinct(1))
    show ?thesis
    proof (cases "step li l (c_world c)")
      case (Step w')
      then have re': "reachable li w'"
        using True by (intro reachable.step [OF re]) (simp_all add: c_def)
      then have "\<not> leaked (mem w')"
        using reachable_inv by (auto simp: world_inv_def channel_inv_def)
      moreover have "heap_inv A T (hub_heap s) (c # without i (conns s))"
        using assms(3) True mset_without [of i "conns s"] by (auto simp: hub_inv_def c_def elim!: heap_inv_permI)
      ultimately obtain h' where h': "on_heap A T (conn_ptr c) (acting l (c_world c)) w' (hub_heap s) = Ok h'"
        "heap_inv A T h' (conn_after l w' c # without i (conns s))"
        using on_heap_ok [OF assms(1,2) _ Step] by blast
      have "heap_inv A T h' ((conns s)[i := conn_after l w' c])"
        by (rule heap_inv_permI [OF h'(2)]) (use True mset_without [of i "conns s"] in \<open>simp add: mset_update\<close>)
      moreover have "list_all (conn_ok li) ((conns s)[i := conn_after l w' c])"
        using assms(3) conn_fits_step [OF _ re Step] c re' True
        by (auto simp: hub_inv_def list_all_length conn_ok_def nth_list_update)
      ultimately show ?thesis
        using HStep True Step via h'(1) by (simp add: c_def [symmetric] hub_inv_def)
    qed (use HStep True nf assms(3) in \<open>simp_all add: c_def [symmetric]\<close>)
  qed (use HStep assms(3) in auto)
qed

lemma hub_run_ok:
  assumes "allocator_ok A" "layout_ok T" "hub_inv A T li s"
  shows "hub_ok A T li (hub_run A T li xs s)"
  using assms(3)
proof (induction xs arbitrary: s)
  case (Cons x xs)
  then show ?case
    using hub_step_ok [OF assms(1,2) Cons.prems, of x] by (cases "hub_step A T li x s") simp_all
qed simp

lemma hub_inv_start: "a_blocks A a = (\<lambda>_. None) \<Longrightarrow> hub_inv A T li (hub_start a)"
  by (simp add: hub_inv_def heap_inv_def hub_start_def)

section \<open>What is left on the heap\<close>

text \<open>Both endpoints of the channel are gone.\<close>

definition relinquished :: "'m conn \<Rightarrow> bool" where
  "relinquished c \<longleftrightarrow> tx_handle (c_world c) = TxGone \<and> tx_run (c_world c) = None \<and>
     rx_handle (c_world c) = RxGone \<and> rx_run (c_world c) = None"

lemma relinquished_freed: "conn_ok li c \<Longrightarrow> relinquished c \<Longrightarrow> \<not> live c"
  using gone_accounts(1) [OF reachable_inv] by (auto simp: conn_ok_def relinquished_def live_def)

lemma hub_used:
  assumes "hub_inv A T li s"
  shows "list_all (\<lambda>c. \<not> relinquished c) (filter live (conns s))"
  using assms relinquished_freed by (auto simp: hub_inv_def list_all_iff)

end
