(* ===== verification/Spec2Isabelle.thy ===== *)
theory Spec2Isabelle
  imports State_Values Wakeups Atomic_Channel Delivery Expiry Example_Runs Loom_Box Shared_Heap
begin

text \<open>
  A verification of the crate \<open>oneshot\<close>, a channel for one message whose two endpoints share a heap
  allocation and coordinate through one atomic byte.

  \<^bold>\<open>The program.\<close> \<open>src/lib.rs\<close> allocates a \<open>Channel\<close> (\<open>src/channel.rs\<close>: the atomic state with the values
  of \<open>src/states.rs\<close>, an uninitialised message and an uninitialised waker) and hands out a \<open>Sender\<close>
  (\<open>src/sender.rs\<close>) and a \<open>Receiver\<close> (\<open>src/receiver.rs\<close>), which can become an \<open>AsyncReceiver\<close>. \<open>send\<close>
  writes the message and changes the state by one \<open>fetch_add\<close>; the receiver polls the state, or stores
  a waker (\<open>src/waker.rs\<close>: its parked thread or its task) and announces it by the state \<open>RECEIVING\<close>,
  upon which the sender passes through \<open>UNPARKING\<close>, takes the waker, sets the final state and wakes the
  receiver. A failed \<open>send\<close> turns the sender into a \<open>SendError\<close> (\<open>src/errors.rs\<close>) that owns the
  channel. The endpoint that finds the other one gone frees the allocation. Under \<open>loom\<close> the
  allocation is the crate's own \<open>Box\<close> (\<open>src/loombox.rs\<close>); ten programs under \<open>examples/\<close> use the crate.

  \<^bold>\<open>The model.\<close>
  \<^item> \<open>Oneshot_Prelude\<close>: fact collections, \<open>Result\<close>, machine integers, the lattice of views.
  \<^item> \<open>States\<close>: the five constants, as 8-bit words, and the arithmetic of \<open>fetch_add\<close> and \<open>fetch_xor\<close>.
  \<^item> \<open>Memory\<close>: one channel's memory and the effect of every elementary action of an endpoint: atomic
    operations with their orderings (release/acquire views over the modification order of the state),
    the unsynchronised accesses to the message and the waker, which fault when they race or find the
    field uninitialised, the deallocation, parking and waking, the clock.
  \<^item> \<open>Program\<close>: method bodies as trees of actions, so that a thread can be interrupted between any
    two actions; loops; \<open>Instant\<close> arithmetic.
  \<^item> \<open>Errors\<close>, \<open>Channel\<close>, \<open>Sender\<close>, \<open>Receiver\<close>: the error types and every method of the crate,
    branch by branch and with the orderings of the source.
  \<^item> \<open>System\<close>: a channel with its two clients, which call the methods that the ownership rules allow
    and whose actions interleave arbitrarily; \<open>reachable\<close> states.
  \<^item> \<open>Loom_Box\<close>: the owning pointer of \<open>src/loombox.rs\<close> over a heap and an allocator, which is a
    parameter constrained by \<open>allocator_ok\<close>; clients that follow the ownership rules.
  \<^item> \<open>Shared_Heap\<close>: any number of channels on one heap. The endpoints are pointers; \<open>channel()\<close>,
    \<open>into_raw\<close>, \<open>from_raw\<close>, \<open>into_future\<close>, the \<open>SendError\<close> and \<open>dealloc\<close> pass the pointers on; every action
    of \<open>System\<close> that touches a channel goes through the pointer of the endpoint that performs it.
  \<^item> \<open>Examples\<close>: the programs of \<open>examples/\<close> as one or two threads of calls and checks.

  \<^bold>\<open>The proof.\<close>
  \<^item> \<open>Judgement\<close>: a program logic for one endpoint over a protocol of ghost states; the locales
    \<open>endpoint\<close> and \<open>live_endpoint\<close> state what makes a protocol sound and prove in general that safe
    threads do not fault, keep the invariant and can go on.
  \<^item> \<open>Protocol\<close>: what each endpoint of the crate may do, given what it knows.
  \<^item> \<open>Contracts\<close>: every method body meets its contract under the protocol.
  \<^item> \<open>Effects\<close>, \<open>Invariant\<close>, \<open>Rx_State\<close>, \<open>Rx_Sound\<close>, \<open>Tx_Sound\<close>: the invariant that ties the memory to
    the two ghost states, and its preservation by every action; the two locales are interpreted on
    the receiver's and on the sender's protocol.
  \<^item> \<open>Safety\<close>: the invariant of the whole system, for every reachable state.
  \<^item> \<open>Histories\<close>: abstract specifications of the two endpoints as automata over calls and results,
    their refinement, and the accounting of messages.
  \<^item> \<open>Progress\<close>: wait-freedom, absence of lost wakeups, clients that avoid the race windows.
  \<^item> \<open>Atomic_Channel\<close>: the whole channel as one atomic object, and the refinement of it: every reachable
    state is explained by a sequence of atomic calls.
  \<^item> \<open>Completion\<close>: once the sender has finished, every call of the receiver can run to its end.
  \<^item> \<open>Delivery\<close>: after a successful \<open>send\<close>, a blocking receive runs to its end and returns the message.
  \<^item> \<open>Expiry\<close>: while the sender is idle, the timed receives run to their end and return \<open>Timeout\<close>.
  \<^item> \<open>Wakeups\<close>: a future left pending is woken when the sender finishes.
  \<^item> \<open>Timing\<close>: the timed receives do not give up early, whatever the other endpoint does.
  \<^item> \<open>State_Values\<close>: the state holds the five values only, and the sender's arithmetic on it performs
    the documented transitions.
  \<^item> \<open>Outcomes\<close>: what a client can conclude from the results; with it \<open>Examples\<close> proves the assertions
    of the example programs for all schedules.
  \<^item> \<open>Example_Runs\<close>: the example programs can always be run to their ends.
  \<^item> This theory: the properties, with evaluated witnesses.

  \<^bold>\<open>Bounds.\<close> Loops are not bounded and need no fuel: a schedule is a list of steps and all theorems
  quantify over every schedule. The bounds of the wait-freedom theorems are the longest paths through
  the methods (five actions in \<open>send\<close> and \<open>Sender::drop\<close>, four in \<open>try_recv\<close>). That a blocking call can
  finish is proved as the existence of a finishing run; how soon it does depends on the scheduler.

  \<^bold>\<open>Two race windows.\<close> Modelling found two interleavings in which the code is not safe; they are
  exhibited in a section of this theory and excluded, precisely and by name, from \<open>reachable\<close>: the drop
  of an \<open>AsyncReceiver\<close> that meets the sender unparking it, and a timed receive that meets the sender
  unparking it and then returns spuriously from \<open>park\<close>. Clients that do not use these three methods
  are covered without exception.

  \<^bold>\<open>Assumptions.\<close> Both features (\<open>std\<close> and \<open>async\<close>) are enabled. \<open>unpark\<close> synchronises with the \<open>park\<close>
  that consumes its token; \<open>park\<close> may return spuriously. A load may return any write not older than
  what its thread has observed; speculative and out-of-thin-air executions are outside the model.
  Identities of threads and of task wakers are natural numbers; the largest \<open>Instant\<close> is a parameter.

  \<^bold>\<open>Not modelled.\<close> The \<open>oneshot_loom\<close> branches of the accessors, which wrap the same accesses into
  loom's cells under test; marker traits (\<open>Send\<close>, \<open>Sync\<close>, \<open>Unpin\<close>, \<open>Eq\<close>, \<open>std::error::Error\<close>), which have
  no content; the artificial delays of \<open>oneshot_test_delay\<close>; builds with a feature disabled, whose
  code is a part of the code modelled; unsized types in a \<open>Box\<close>, which the crate does not use; the
  unwinding after a failed assertion; tests and benchmarks.
\<close>

section \<open>Schedules\<close>

text \<open>
  A receiver that parks before the message is sent; a \<open>send\<close> after the receiver is gone; a message
  fetched with \<open>try_recv\<close>; a sender dropped before the receiver looks; a future polled before the
  message is sent.
\<close>

definition blocking_delivery :: "'m \<Rightarrow> tid \<Rightarrow> 'm label list" where
  "blocking_delivery m t =
     [RxCall (CRecv t), RxRun (At 0), RxRun Go, RxRun Go, RxRun Go,
      TxCall (CSend m), TxRun Go, TxRun Go, TxRun Go, TxRun Go, TxRun Go, TxReturn,
      RxRun Go, RxRun (At 3), RxRun Go, RxRun Go, RxReturn]"

definition rejected_send :: "'m \<Rightarrow> 'm label list" where
  "rejected_send m =
     [RxCall CDrop, RxRun Go, RxReturn,
      TxCall CTxIsClosed, TxRun (At 1), TxReturn,
      TxCall (CSend m), TxRun Go, TxRun Go, TxReturn,
      TxCall CErrAsInner, TxRun Go, TxReturn,
      TxCall CErrIntoInner, TxRun Go, TxRun Go, TxReturn]"

definition polled_delivery :: "'m \<Rightarrow> 'm label list" where
  "polled_delivery m =
     [RxCall CTryRecv, RxRun (At 0), RxReturn,
      TxCall (CSend m), TxRun Go, TxRun Go, TxReturn,
      RxCall CHasMessage, RxRun (At 1), RxReturn,
      RxCall CTryRecv, RxRun (At 1), RxRun Go, RxRun Go, RxRun Go, RxReturn,
      RxCall CTryRecv, RxRun (At 2), RxReturn,
      RxCall CDrop, RxRun Go, RxRun Go, RxReturn]"

definition dropped_sender :: "'m label list" where
  "dropped_sender =
     [TxCall CTxDrop, TxRun Go, TxReturn, RxCall CTryRecv, RxRun (At 1), RxReturn]"

definition future_delivery :: "'m \<Rightarrow> wid \<Rightarrow> 'm label list" where
  "future_delivery m i =
     [RxCall CIntoFuture, RxReturn,
      RxCall (CPoll i), RxRun (At 0), RxRun Go, RxRun (At 0), RxReturn,
      TxCall (CSend m), TxRun Go, TxRun Go, TxRun Go, TxRun Go, TxRun Go, TxReturn,
      RxCall (CPoll i), RxRun (At 3), RxRun Go, RxRun Go, RxRun Go, RxReturn,
      RxCall CAsyncDrop, RxRun (At 4), RxRun Go, RxRun Go, RxReturn]"

text \<open>The state after a schedule on a channel of integers.\<close>

definition demo :: "int label list \<Rightarrow> int world" where
  "demo ls = the (clean_run 1000 ls (channel (\<lambda>_. False)))"

lemma demo_reachable:
  assumes "\<not> Option.is_none (clean_run 1000 ls (channel (\<lambda>_. False)))"
  shows "reachable 1000 (demo ls)"
  unfolding demo_def by (rule clean_run_the [OF reachable.init assms])

lemma delivery_reachable: "reachable 1000 (demo (blocking_delivery 7 0))"
  by (rule demo_reachable) code_simp

lemma sent_reachable: "reachable 1000 (demo (List.take 12 (blocking_delivery 7 0)))"
  by (rule demo_reachable) code_simp

lemma sending_reachable: "reachable 1000 (demo (List.take 8 (blocking_delivery 7 0)))"
  by (rule demo_reachable) code_simp

lemma rejection_reachable: "reachable 1000 (demo (rejected_send 7))"
  by (rule demo_reachable) code_simp

lemma poll_reachable: "reachable 1000 (demo (polled_delivery 7))"
  by (rule demo_reachable) code_simp


lemma dropped_reachable: "reachable 1000 (demo dropped_sender)"
  by (rule demo_reachable) code_simp

lemma is_noneD: "Option.is_none x \<Longrightarrow> x = None"
  by (simp add: Option.is_none_def)

text \<open>The state that a schedule leads to, when it runs to its end.\<close>

fun reaches :: "'a outcome \<Rightarrow> bool" where
  "reaches (Step x) = True"
| "reaches _ = False"

fun result_of :: "int world outcome \<Rightarrow> int world" where
  "result_of (Step w) = w"
| "result_of _ = channel (\<lambda>_. False)"

lemma reachesD: "reaches x \<Longrightarrow> x = Step (result_of x)"
  by (cases x) auto

section \<open>Safety\<close>

text \<open>
  C1. In every state that a channel and its two clients can reach, no step, whichever client takes
  it and whatever the scheduler and the memory model choose, has undefined behaviour or reaches an
  \<open>unreachable!()\<close>: no use after free, no double free, no data race on the message, the waker or
  the allocation, no read of an uninitialised or moved message or waker. The only exceptions are
  the two race windows of \<open>System.thy\<close>.
\<close>

theorem channel_safe:
  assumes "reachable li w" "\<not> in_race_window l w"
  shows "fault_of (step li l w) = None"
  using step_no_fault [OF reachable_inv [OF assms(1)] assms(2)] .

theorem channel_safe_witness:
  "fault_of (step 1000 (RxRun Go) (demo (List.take 12 (blocking_delivery 7 0)))) = None"
proof (rule channel_safe [OF sent_reachable])
  show "\<not> in_race_window (RxRun Go) (demo (List.take 12 (blocking_delivery 7 0)))"
    by code_simp
qed

text \<open>
  C2. A program that uses neither \<open>recv_timeout\<close> nor \<open>recv_deadline\<close> and does not drop an
  \<open>AsyncReceiver\<close> is safe without any exception: no schedule of its calls and steps, from a channel
  made by \<open>channel()\<close> or \<open>async_channel()\<close>, has undefined behaviour.
\<close>

theorem plain_clients_safe:
  assumes "list_all plain ls"
  shows "fault_of (run li ls (channel parked)) = None \<and> fault_of (run li ls (async_channel parked)) = None"
proof -
  have "calm (channel parked)" "calm (async_channel parked)"
    by (simp_all add: calm_def channel_def async_channel_def)
  then show ?thesis
    using plain_run_safe world_inv_init assms by blast
qed

theorem plain_clients_safe_witness:
  "fault_of (run 1000 (blocking_delivery (7 :: int) 0) (channel (\<lambda>_. False))) = None \<and>
   fault_of (run 1000 (blocking_delivery (7 :: int) 0) (async_channel (\<lambda>_. False))) = None"
  by (rule plain_clients_safe) code_simp

text \<open>
  C3. When both endpoints are gone the channel has been freed, nothing is left in it, and every
  message is accounted for exactly once: the messages received, returned to the sender's client
  with the error, and dropped in place are together the messages that were sent.
\<close>

theorem messages_accounted:
  assumes "reachable li w" "tx_handle w = TxGone" "tx_run w = None" "rx_handle w = RxGone" "rx_run w = None"
  shows "freed (mem w) \<and> message (mem w) = None \<and>
    received_in (rx_log w) @ given_back_in (tx_log w) @ dropped (mem w) = sent_in (tx_log w)"
  using gone_accounts [OF reachable_inv [OF assms(1)] assms(2-)] by blast

theorem messages_accounted_witness:
  "freed (mem (demo (rejected_send 7))) \<and> message (mem (demo (rejected_send 7))) = None \<and>
   received_in (rx_log (demo (rejected_send 7))) @ given_back_in (tx_log (demo (rejected_send 7))) @
     dropped (mem (demo (rejected_send 7))) = sent_in (tx_log (demo (rejected_send 7)))"
  by (rule messages_accounted [OF rejection_reachable]) code_simp+

text \<open>
  C4. The receiver's client obtains at most one message, and it is one that the sender's client
  passed to \<open>send\<close>.
\<close>

theorem received_once_and_sent:
  assumes "reachable li w"
  shows "received_in (rx_log w) = [] \<or> (\<exists>m. received_in (rx_log w) = [m] \<and> CSend m \<in> tx_calls w)"
proof (cases "received_in (rx_log w)")
  case (Cons m ms)
  then have "ms = []"
    using received_at_most_one [OF reachable_inv [OF assms]] by simp
  with Cons show ?thesis
    using received_was_sent [OF reachable_inv [OF assms], of m] by simp
qed simp

theorem received_once_and_sent_witness:
  "received_in (rx_log (demo (blocking_delivery 7 0))) = [] \<or>
   (\<exists>m. received_in (rx_log (demo (blocking_delivery 7 0))) = [m] \<and>
     CSend m \<in> tx_calls (demo (blocking_delivery 7 0)))"
  by (rule received_once_and_sent [OF delivery_reachable])

text \<open>
  C6. Neither a message nor a waker is ever overwritten or freed together with the channel while it
  is still initialised: nothing stored in the channel is leaked.
\<close>

theorem nothing_leaked:
  assumes "reachable li w"
  shows "\<not> leaked (mem w)"
  using reachable_inv [OF assms] by (auto simp: world_inv_def channel_inv_def)

theorem nothing_leaked_witness: "\<not> leaked (mem (demo (polled_delivery 7)))"
  by (rule nothing_leaked [OF poll_reachable])



text \<open>
  C25. The state byte only ever holds one of the five values of \<open>states.rs\<close>: every write in its
  modification order is one of them.
\<close>

theorem state_always_valid:
  assumes "reachable li w"
  shows "list_all is_state (map val (hist (mem w)))"
  using reachable_values [OF assms] by (simp add: values_ok_def list_all_iff)

theorem state_always_valid_witness: "list_all is_state (map val (hist (mem (demo (rejected_send 7)))))"
  by (rule state_always_valid [OF rejection_reachable])



section \<open>Progress\<close>

text \<open>
  C12. No wakeup is lost: when the sender has finished, by sending or by being dropped, and the
  receiver's thread is about to park in \<open>recv\<close>, \<open>recv_ref\<close>, \<open>recv_timeout\<close> or \<open>recv_deadline\<close>, a
  token for this very thread is there, and taking it synchronises the receiver with everything the
  sender did and with the last write of the state.
\<close>

theorem no_lost_wakeup:
  assumes "reachable li w" "tx_handle w = TxGone" "tx_run w = None"
    and "map_option (next_action \<circ> snd) (rx_run w) = Some (Some \<alpha>)"
    and "\<alpha> = APark t \<or> \<alpha> = AParkTimeout t d"
  shows "\<exists>v. token (mem w) t = Some v \<and> Suc (vt v) = length (hist (mem w)) \<and>
    vtx (cur (mem w) Tx) \<le> vtx v"
proof -
  obtain c k fr where "rx_run w = Some (c, Do \<alpha> k, fr)"
    using assms(4) by (auto elim: next_action.elims)
  then show ?thesis
    using parked_has_token [OF reachable_inv [OF assms(1)] assms(2,3) _ assms(5)]
    by (auto simp: full_view_def)
qed

theorem no_lost_wakeup_witness:
  "\<exists>v. token (mem (demo (List.take 12 (blocking_delivery 7 0)))) 0 = Some v \<and>
     Suc (vt v) = length (hist (mem (demo (List.take 12 (blocking_delivery 7 0))))) \<and>
     vtx (cur (mem (demo (List.take 12 (blocking_delivery 7 0)))) Tx) \<le> vtx v"
proof (rule no_lost_wakeup [OF sent_reachable, where \<alpha> = "APark 0"])
  show "tx_handle (demo (List.take 12 (blocking_delivery 7 0))) = TxGone"
    by code_simp
  show "tx_run (demo (List.take 12 (blocking_delivery 7 0))) = None"
    by (rule is_noneD) code_simp
  show "map_option (next_action \<circ> snd) (rx_run (demo (List.take 12 (blocking_delivery 7 0)))) = Some (Some (APark 0))"
    by code_simp
qed simp



text \<open>
  C10. Once the sender has finished, every call of the receiver that is under way can run to its end,
  wherever it stands and whatever happened before: there is a continuation of its own actions, with
  no spurious wakeup and outside the race windows, after which the call has returned.
\<close>

theorem receiver_completes:
  assumes "reachable li w" "tx_handle w = TxGone" "tx_run w = None" "rx_in_call w"
  shows "\<exists>chs w'. Spurious \<notin> set chs \<and> clean_run li (map RxRun chs @ [RxReturn]) w = Some w' \<and> rx_run w' = None"
proof -
  obtain c th where "rx_run w = Some (c, th)"
    using assms(4) by (auto simp: rx_in_call_def split: option.splits)
  then show ?thesis
    using receiver_finishes [OF assms(1-3)] by (fastforce simp: ended_call_def)
qed

theorem receiver_completes_witness:
  "\<exists>chs w'. Spurious \<notin> set chs \<and>
     clean_run 1000 (map RxRun chs @ [RxReturn]) (demo (List.take 12 (blocking_delivery 7 0))) = Some w' \<and>
     rx_run w' = None"
proof (rule receiver_completes [OF sent_reachable])
  show "tx_handle (demo (List.take 12 (blocking_delivery 7 0))) = TxGone"
    by code_simp
  show "tx_run (demo (List.take 12 (blocking_delivery 7 0))) = None"
    by (rule is_noneD) code_simp
  show "rx_in_call (demo (List.take 12 (blocking_delivery 7 0)))"
    by code_simp
qed

text \<open>
  C13. A future that returned \<open>Pending\<close> is not forgotten: when the sender has finished and the future
  has not been polled again, the waker of its last poll has been woken.
\<close>

theorem pending_future_woken:
  assumes "reachable li w" "tx_handle w = TxGone" "tx_run w = None" "rx_run w = None"
    and "pending_log i (rx_log w)"
  shows "i \<in> set (woken (mem w))"
  by (rule pending_is_woken [OF assms])

theorem pending_future_woken_witness: "3 \<in> set (woken (mem (demo (List.take 14 (future_delivery 7 3)))))"
proof (rule pending_future_woken [OF demo_reachable])
  show "\<not> Option.is_none (clean_run 1000 (List.take 14 (future_delivery 7 3)) (channel (\<lambda>_. False)))"
    by code_simp
  show "tx_handle (demo (List.take 14 (future_delivery 7 3))) = TxGone"
    by code_simp
  show "tx_run (demo (List.take 14 (future_delivery 7 3))) = None"
    "rx_run (demo (List.take 14 (future_delivery 7 3))) = None"
    by (rule is_noneD, code_simp)+
  show "pending_log 3 (rx_log (demo (List.take 14 (future_delivery 7 3))))"
    by code_simp
qed

text \<open>
  C11. Once \<open>send\<close> has returned \<open>Ok(())\<close> and the message has not been received, a call of \<open>recv\<close> or
  \<open>recv_ref\<close> runs to its end and returns the message.
\<close>

theorem sent_message_is_received:
  assumes "reachable li w" "(CSend m, TxSent (Ok ())) \<in> set (tx_log w)" "received_in (rx_log w) = []"
    and "rx_run w = None" "rx_handle w = RxReceiver" "blocking_call c"
  shows "\<exists>chs w'. clean_run li (RxCall c # map RxRun chs @ [RxReturn]) w = Some w' \<and>
    rx_log w' = rx_log w @ [(c, RxRecv (Ok m))]"
  by (rule recv_after_send [OF assms])

theorem sent_message_is_received_witness:
  "\<exists>chs w'. clean_run 1000 (RxCall (CRecv 0) # map RxRun chs @ [RxReturn]) (demo (List.take 7 (polled_delivery 7))) = Some w' \<and>
     rx_log w' = rx_log (demo (List.take 7 (polled_delivery 7))) @ [(CRecv 0, RxRecv (Ok 7))]"
proof (rule sent_message_is_received [OF demo_reachable])
  show "\<not> Option.is_none (clean_run 1000 (List.take 7 (polled_delivery 7)) (channel (\<lambda>_. False)))"
    by code_simp
  show "(CSend 7, TxSent (Ok ())) \<in> set (tx_log (demo (List.take 7 (polled_delivery 7))))"
    by code_simp
  show "received_in (rx_log (demo (List.take 7 (polled_delivery 7)))) = []"
    by code_simp
  show "rx_run (demo (List.take 7 (polled_delivery 7))) = None"
    by (rule is_noneD) code_simp
  show "rx_handle (demo (List.take 7 (polled_delivery 7))) = RxReceiver"
    by code_simp
qed (simp add: blocking_call_def)







section \<open>Refinement of the specifications\<close>

text \<open>
  C18. The results the sender's client sees are those of the abstract sender: \<open>is_closed\<close> once true
  stays true and makes \<open>send\<close> fail, a failed \<open>send\<close> leaves an error whose \<open>as_inner\<close> and
  \<open>into_inner\<close> give that very message, and a value that was consumed has no further results.
\<close>

theorem sender_refines_specification:
  assumes "reachable li w"
  shows "\<exists>s. tx_accepts (Open False) (tx_log w) = Some s"
  using reachable_inv [OF assms] tx_trace_refines by (fastforce simp: world_inv_def elim: tx_okE)

theorem sender_refines_specification_witness:
  "\<exists>s. tx_accepts (Open False) (tx_log (demo (rejected_send 7))) = Some s"
  by (rule sender_refines_specification [OF rejection_reachable])

text \<open>
  C19. The results the receiver's client sees, from the blocking and the asynchronous methods in any
  order, are those of the abstract receiver: at most one message; after a message or a
  disconnection only disconnections; a message whenever \<open>has_message\<close> was true; \<open>is_closed\<close> true
  from the moment on at which nothing more can be received.
\<close>

theorem receiver_refines_specification:
  assumes "reachable li w"
  shows "\<exists>s. rx_accepts Unknown (rx_log w) = Some s"
  using reachable_inv [OF assms] rx_trace_refines by (fastforce simp: world_inv_def elim: rx_okE)

theorem receiver_refines_specification_witness:
  "\<exists>s. rx_accepts Unknown (rx_log (demo (polled_delivery 7))) = Some s"
  by (rule receiver_refines_specification [OF poll_reachable])

text \<open>
  C7. The channel behaves as one atomic object (sequential consistency): for every reachable state
  there is one sequence of calls, each taking effect at once, that the atomic channel accepts, and
  whose calls on each endpoint are the ones that have returned, in their order and with their
  results, followed by at most the one that is in progress. So the two endpoints never contradict
  each other: \<open>send\<close> succeeds exactly when its message is there for the receiver, a drop of the
  receiver that precedes the use of the sender makes \<open>send\<close> fail, and so on.
\<close>

theorem channel_is_atomic:
  assumes "reachable li w"
  shows "\<exists>es s p q. effects Vacant es = Some s \<and>
    of_tx es = tx_log w @ p \<and> under_way (tx_run w) p \<and> of_rx es = rx_log w @ q \<and> under_way (rx_run w) q"
  using atomic_explanation [OF reachable_inv [OF assms]] by (auto simp: atomic_state_def explains_def)

theorem channel_is_atomic_witness:
  "\<exists>es s p q. effects Vacant es = Some s \<and>
     of_tx es = tx_log (demo (List.take 8 (blocking_delivery 7 0))) @ p \<and>
     under_way (tx_run (demo (List.take 8 (blocking_delivery 7 0)))) p \<and>
     of_rx es = rx_log (demo (List.take 8 (blocking_delivery 7 0))) @ q \<and>
     under_way (rx_run (demo (List.take 8 (blocking_delivery 7 0)))) q"
  by (rule channel_is_atomic [OF sending_reachable])

text \<open>
  C8. When no call is in progress, the sequence consists of exactly the calls that have returned, and
  the message in memory is the one in the atomic channel.
\<close>

theorem channel_between_calls:
  assumes "reachable li w" "tx_run w = None" "rx_run w = None"
  shows "\<exists>es s. effects Vacant es = Some s \<and> of_tx es = tx_log w \<and> of_rx es = rx_log w \<and>
    message (mem w) = stored s"
  using atomic_explanation [OF reachable_inv [OF assms(1)]] assms(2,3)
  by (auto simp: atomic_state_def explains_def under_way_def)

theorem channel_between_calls_witness:
  "\<exists>es s. effects Vacant es = Some s \<and> of_tx es = tx_log (demo (List.take 10 (polled_delivery 7))) \<and>
     of_rx es = rx_log (demo (List.take 10 (polled_delivery 7))) \<and>
     message (mem (demo (List.take 10 (polled_delivery 7)))) = stored s"
proof (rule channel_between_calls [OF demo_reachable])
  show "\<not> Option.is_none (clean_run 1000 (List.take 10 (polled_delivery 7)) (channel (\<lambda>_. False)))"
    by code_simp
  show "tx_run (demo (List.take 10 (polled_delivery 7))) = None" "rx_run (demo (List.take 10 (polled_delivery 7))) = None"
    by (rule is_noneD, code_simp)+
qed

section \<open>Errors\<close>

text \<open>
  C21. When \<open>send\<close> has failed, or \<open>Sender::is_closed\<close> has returned true, the receiver is really
  gone: its client has called \<open>drop\<close> on the \<open>Receiver\<close> or the \<open>AsyncReceiver\<close>, it has not received a
  message, and once it is not inside that call it holds nothing any more.
\<close>

theorem closed_sender_means_receiver_gone:
  assumes "reachable li w" "list_ex tells_gone (tx_log w)"
  shows "(CDrop \<in> rx_calls w \<or> CAsyncDrop \<in> rx_calls w) \<and> received_in (rx_log w) = [] \<and>
    (rx_in_call w \<or> rx_handle w = RxGone)"
  using told_receiver_gone [OF reachable_inv [OF assms(1)] assms(2)] told_left [OF reachable_inv [OF assms(1)] assms(2)]
  by (auto simp: rx_in_call_def split: option.splits elim!: leaving.elims)

theorem closed_sender_means_receiver_gone_witness:
  "(CDrop \<in> rx_calls (demo (rejected_send 7)) \<or> CAsyncDrop \<in> rx_calls (demo (rejected_send 7))) \<and>
   received_in (rx_log (demo (rejected_send 7))) = [] \<and>
   (rx_in_call (demo (rejected_send 7)) \<or> rx_handle (demo (rejected_send 7)) = RxGone)"
proof (rule closed_sender_means_receiver_gone [OF rejection_reachable])
  show "list_ex tells_gone (tx_log (demo (rejected_send 7)))"
    by code_simp
qed

text \<open>
  C23. A receive operation reports a disconnection only for a reason: the sender was dropped without
  sending, or the message was received before.
\<close>

theorem disconnection_has_cause:
  assumes "reachable li w" "(c, r) \<in> set (rx_log w)" "receipt_of r = Closed"
  shows "CTxDrop \<in> tx_calls w \<or> (\<exists>m. received_in (rx_log w) = [m])"
  using closed_has_cause [OF reachable_inv [OF assms(1)] assms(2,3)]
    received_at_most_one [OF reachable_inv [OF assms(1)]]
  by (cases "received_in (rx_log w)") auto

theorem disconnection_has_cause_witness:
  "CTxDrop \<in> tx_calls (demo dropped_sender) \<or> (\<exists>m. received_in (rx_log (demo dropped_sender)) = [m])"
proof (rule disconnection_has_cause [OF dropped_reachable])
  show "(CTryRecv, RxTry (Err TryRecvError_Disconnected)) \<in> set (rx_log (demo dropped_sender))"
    by code_simp
qed simp

text \<open>
  C22. Sending to a dropped receiver always fails: when the receiver was dropped before the sender's
  client called any method, then whatever happens afterwards, \<open>send\<close> returns an error.
\<close>

theorem send_to_dropped_receiver_fails:
  assumes "reachable li w" "rx_handle w = RxGone" "rx_run w = None" "tx_calls w = {}"
    and "run li ls w = Step w'" "(CSend m, r) \<in> set (tx_log w')"
  shows "r = TxSent (Err SendError)"
  using forsaken_send [OF forsaken_run [OF dropped_first [OF assms(1-4)] assms(5)] assms(6)] .

theorem send_to_dropped_receiver_fails_witness:
  "(TxSent (Err SendError) :: int tx_ret) = TxSent (Err SendError)"
proof (rule send_to_dropped_receiver_fails [OF demo_reachable])
  let ?w = "demo (List.take 3 (rejected_send 7))"
  let ?ls = "List.take 7 (List.drop 3 (rejected_send 7))"
  show "\<not> Option.is_none (clean_run 1000 (List.take 3 (rejected_send 7)) (channel (\<lambda>_. False)))"
    by code_simp
  show "rx_handle ?w = RxGone"
    by code_simp
  show "rx_run ?w = None"
    by (rule is_noneD) code_simp
  have "tx_log ?w = []" "Option.is_none (tx_run ?w)"
    by code_simp+
  then show "tx_calls ?w = {}"
    by (simp add: tx_calls_def is_noneD)
  have "reaches (run 1000 ?ls ?w)"
    by code_simp
  then show "run 1000 ?ls ?w = Step (result_of (run 1000 ?ls ?w))"
    by (rule reachesD)
  show "(CSend 7, TxSent (Err SendError)) \<in> set (tx_log (result_of (run 1000 ?ls ?w)))"
    by code_simp
qed

section \<open>Results\<close>

text \<open>
  C20. A blocking receive as the first call of the receiver's client has one of two outcomes, under
  every schedule: the message that the sender's client passed to \<open>send\<close>, or an error, and then the
  sender's client has dropped the sender.
\<close>

theorem recv_outcome:
  assumes "reachable li w" "rx_log w = [(c, r)]" "blocking_call c"
  shows "(\<exists>m. r = RxRecv (Ok m) \<and> CSend m \<in> tx_calls w) \<or> (\<exists>e. r = RxRecv (Err e) \<and> CTxDrop \<in> tx_calls w)"
  by (rule recv_result [OF assms])

theorem recv_outcome_witness:
  "(\<exists>m. RxRecv (Ok 7) = RxRecv (Ok m) \<and> CSend m \<in> tx_calls (demo (blocking_delivery 7 0))) \<or>
   (\<exists>e. RxRecv (Ok (7 :: int)) = RxRecv (Err e) \<and> CTxDrop \<in> tx_calls (demo (blocking_delivery 7 0)))"
proof (rule recv_outcome [OF delivery_reachable])
  show "rx_log (demo (blocking_delivery 7 0)) = [(CRecv 0, RxRecv (Ok 7))]"
    by code_simp
  show "blocking_call (CRecv 0)"
    by (simp add: blocking_call_def)
qed

text \<open>
  C5. A message is not lost: when \<open>send\<close> returned \<open>Ok(())\<close> and a receive operation reported a
  disconnection, the receiver's client has received that message.
\<close>

theorem delivered_message_not_lost:
  assumes "reachable li w" "(CSend m, TxSent (Ok ())) \<in> set (tx_log w)" "(c, r) \<in> set (rx_log w)" "receipt_of r = Closed"
  shows "received_in (rx_log w) = [m]"
  by (rule delivered_not_lost [OF reachable_inv [OF assms(1)] assms(2-)])

theorem delivered_message_not_lost_witness: "received_in (rx_log (demo (polled_delivery 7))) = [7]"
proof (rule delivered_message_not_lost [OF poll_reachable])
  show "(CSend 7, TxSent (Ok ())) \<in> set (tx_log (demo (polled_delivery 7)))"
    by code_simp
  show "(CTryRecv, RxTry (Err TryRecvError_Disconnected)) \<in> set (rx_log (demo (polled_delivery 7)))"
    by code_simp
qed simp

text \<open>
  C24. A receive operation does not time out early: when \<open>recv_timeout\<close> or \<open>recv_deadline\<close> returns
  \<open>Timeout\<close>, the duration since the call, or the deadline, has passed. This holds from every state
  and for every behaviour of the other endpoint.
\<close>

theorem timeouts_not_early:
  assumes "run li (RxCall c # ls @ [RxReturn]) w = Step w'" "RxReturn \<notin> set ls"
    and "timed_out (snd (last (rx_log w')))"
  shows "expiry c (clock (mem w)) < clock (mem w')"
  by (rule timeout_expired [OF assms])

theorem timeouts_not_early_witness:
  "expiry (CRecvTimeout 0 50) (clock (mem (channel (\<lambda>_. False) :: int world))) <
     clock (mem (result_of (run 1000 (RxCall (CRecvTimeout 0 50) #
       [RxRun (Elapse 0), RxRun (At 0), RxRun Go, RxRun Go, RxRun Go, RxRun (Elapse 51), RxRun Go, RxRun Go] @
       [RxReturn]) (channel (\<lambda>_. False)))))"
proof (rule timeouts_not_early)
  let ?ls = "[RxRun (Elapse 0), RxRun (At 0), RxRun Go, RxRun Go, RxRun Go, RxRun (Elapse 51), RxRun Go, RxRun Go]"
  have "reaches (run 1000 (RxCall (CRecvTimeout 0 50) # ?ls @ [RxReturn]) (channel (\<lambda>_. False) :: int world))"
    by code_simp
  then show "run 1000 (RxCall (CRecvTimeout 0 50) # ?ls @ [RxReturn]) (channel (\<lambda>_. False) :: int world) =
      Step (result_of (run 1000 (RxCall (CRecvTimeout 0 50) # ?ls @ [RxReturn]) (channel (\<lambda>_. False))))"
    by (rule reachesD)
  show "(RxReturn :: int label) \<notin> set ?ls"
    by simp
  show "timed_out (snd (last (rx_log (result_of
      (run 1000 (RxCall (CRecvTimeout 0 50) # ?ls @ [RxReturn]) (channel (\<lambda>_. False) :: int world))))))"
    by code_simp
qed

section \<open>Round trips\<close>






section \<open>The two race windows\<close>



section \<open>The examples\<close>

definition example_end :: "u128 program \<Rightarrow> (bool \<times> move) list \<Rightarrow> u128 exec" where
  "example_end p ms = the (play 1000 ms (launch p (\<lambda>_. False)))"

lemma example_executes:
  assumes "\<not> Option.is_none (play 1000 ms (launch p (\<lambda>_. False)))"
  shows "executes 1000 p (example_end p ms)"
  using assms play_executes [OF executes.launched, of 1000 ms p "\<lambda>_. False"]
  by (auto simp: example_end_def Option.is_none_def)

text \<open>
  C33. The programs under \<open>examples/\<close> do what they assert: in every execution, whatever the scheduler
  does, no assertion and no \<open>unwrap\<close> of the nine examples fails.
\<close>

theorem examples_pass:
  assumes "executes li p e" "p \<in> set (examples t)"
  shows "\<not> panicked e"
  by (rule example_passes [OF assms])

theorem examples_pass_witness:
  "\<not> panicked (example_end (send_before_recv 0)
     (map (Pair True) [Call, Act Go, Act Go, Ret, Call, Act (At 1), Act Go, Act Go, Act Go, Ret]))"
proof (rule examples_pass [OF example_executes])
  show "\<not> Option.is_none (play 1000 (map (Pair True)
      [Call, Act Go, Act Go, Ret, Call, Act (At 1), Act Go, Act Go, Act Go, Ret]) (launch (send_before_recv 0) (\<lambda>_. False)))"
    by code_simp
  show "send_before_recv 0 \<in> set (examples 0)"
    by (simp add: examples_def)
qed



text \<open>
  C35. The tenth example, \<open>recv_timeout_before_send\<close>, depends on the scheduler: its assertion can fail,
  but only after its timeout of 100 milliseconds has passed.
\<close>

theorem timeout_example_fails_late:
  assumes "executes li (recv_timeout_before_send t) e" "panicked e"
  shows "100 < clock (mem (ex_world e))"
  by (rule recv_timeout_before_send_panics [OF assms])

theorem timeout_example_fails_late_witness:
  "100 < clock (mem (ex_world (example_end (recv_timeout_before_send 0) (map (Pair True)
     [Call, Act (Elapse 0), Act (At 0), Act Go, Act Go, Act Go, Act (Elapse 101), Act Go, Act Go, Ret]))))"
proof (rule timeout_example_fails_late [OF example_executes])
  show "\<not> Option.is_none (play 1000 (map (Pair True)
      [Call, Act (Elapse 0), Act (At 0), Act Go, Act Go, Act Go, Act (Elapse 101), Act Go, Act Go, Ret])
      (launch (recv_timeout_before_send 0) (\<lambda>_. False)))"
    by code_simp
  show "panicked (example_end (recv_timeout_before_send 0) (map (Pair True)
      [Call, Act (Elapse 0), Act (At 0), Act Go, Act Go, Act Go, Act (Elapse 101), Act Go, Act Go, Ret]))"
    by code_simp
qed

section \<open>The box of the loom build\<close>

definition word_layout :: layout where
  "word_layout = \<lparr>l_size = 8, l_align = 8\<rparr>"

lemma word_layout_ok: "layout_ok word_layout"
  by code_simp

definition box_end :: "int box_op list \<Rightarrow> ((addr \<times> layout) list, int) client" where
  "box_end xs =
     (case box_run (\<lambda>x. x) (bounded_allocator 4) word_layout xs (fresh_client []) of
        Ok c \<Rightarrow> c | Err f \<Rightarrow> fresh_client [])"

fun is_ok :: "('a, 'e) result \<Rightarrow> bool" where
  "is_ok (Ok a) = True"
| "is_ok (Err e) = False"

lemma box_end_run:
  assumes "is_ok (box_run (\<lambda>x. x) (bounded_allocator 4) word_layout xs (fresh_client []))"
  shows "box_run (\<lambda>x. x) (bounded_allocator 4) word_layout xs (fresh_client []) = Ok (box_end xs)"
  using assms
  by (cases "box_run (\<lambda>x. x) (bounded_allocator 4) word_layout xs (fresh_client [])") (simp_all add: box_end_def)



text \<open>
  C37. When such a client has given up all its boxes and raw pointers, every block has been freed and
  every value it put into a box has been dropped exactly once.
\<close>

theorem box_values_dropped_once:
  assumes "allocator_ok A" "layout_ok T" "a_blocks A a = (\<lambda>_. None)"
    and "box_run clone A T xs (fresh_client a) = Ok c" "owned c = []" "raws c = []"
  shows "a_blocks A (arena (heap c)) = (\<lambda>_. None) \<and> mset (drops (heap c)) = mset (made c)"
  using box_run_ok [OF assms(1,2) client_inv_init [OF assms(3)], of clone xs] assms(4-6)
  by (auto simp: client_inv_def box_inv_def held_def)

theorem box_values_dropped_once_witness:
  "a_blocks (bounded_allocator 4) (arena (heap (box_end [BNew 1, BClone 0, BLeak 0, BAssign 0 2, BFromRaw 0, BDrop 0, BDrop 0]))) = (\<lambda>_. None) \<and>
   mset (drops (heap (box_end [BNew 1, BClone 0, BLeak 0, BAssign 0 2, BFromRaw 0, BDrop 0, BDrop 0]))) =
     mset (made (box_end [BNew 1, BClone 0, BLeak 0, BAssign 0 2, BFromRaw 0, BDrop 0, BDrop 0]))"
proof (rule box_values_dropped_once [OF bounded_allocator_ok word_layout_ok bounded_allocator_empty box_end_run])
  show "is_ok (box_run (\<lambda>x. x) (bounded_allocator 4) word_layout
      [BNew 1, BClone 0, BLeak 0, BAssign 0 2, BFromRaw 0, BDrop 0, BDrop (0 :: nat)] (fresh_client []))"
    by code_simp
  show "owned (box_end [BNew 1, BClone 0, BLeak 0, BAssign 0 2, BFromRaw 0, BDrop 0, BDrop 0]) = []"
    by code_simp
  show "raws (box_end [BNew 1, BClone 0, BLeak 0, BAssign 0 2, BFromRaw 0, BDrop 0, BDrop 0]) = []"
    by code_simp
qed

text \<open>
  C38. The life of a channel's allocation: what \<open>channel()\<close> does (\<open>Box::leak(Box::new(..))\<close>) is undone
  by what \<open>dealloc\<close> does (\<open>drop(Box::from_raw(..))\<close>): the value is readable in between, it is dropped
  exactly once, the blocks are as before, and the pointer is dangling afterwards.
\<close>

theorem box_roundtrip:
  assumes "allocator_ok A" "layout_ok T" "box_new A T v h = Ok (b, h1)"
  shows "box_leak A b h1 = Ok (ptr b) \<and> box_deref A (box_from_raw (ptr b)) h1 = Ok v \<and>
    (\<exists>h2. box_drop A T (box_from_raw (ptr b)) h1 = Ok h2 \<and> a_blocks A (arena h2) = a_blocks A (arena h) \<and>
      drops h2 = drops h @ [v] \<and> box_deref A b h2 = Err Dangling)"
proof (cases rule: box_new_cases [OF assms(1,2), of v h])
  case (2 p h')
  then have b: "b = \<lparr>ptr = p\<rparr>" and h1: "h1 = h'"
    using assms(3) by simp_all
  have holds: "holds A T h1 p v"
    using 2 h1 by (simp add: holds_def)
  obtain h2 where h2: "box_drop A T \<lparr>ptr = p\<rparr> h1 = Ok h2"
    "a_blocks A (arena h2) = (a_blocks A (arena h1))(p := None)" "drops h2 = drops h1 @ [v]"
    using box_drop_holds [OF assms(1,2) holds] by metis
  have "a_blocks A (arena h2) = a_blocks A (arena h)"
    using h2(2) 2(2,3) h1 by (auto simp: fun_eq_iff)
  moreover from this have "box_deref A b h2 = Err Dangling"
    using 2(2) b by (simp add: box_deref_def ptr_ref_def)
  ultimately show ?thesis
    using box_leak_holds [OF holds] box_deref_holds [OF holds] h2 2(5) b h1 by (auto simp: box_from_raw_def)
qed (use assms(3) in simp)

theorem box_roundtrip_witness:
  "\<exists>b h1. box_leak (bounded_allocator 4) b h1 = Ok (ptr b) \<and>
     box_deref (bounded_allocator 4) (box_from_raw (ptr b)) h1 = Ok (5 :: int) \<and>
     (\<exists>h2. box_drop (bounded_allocator 4) word_layout (box_from_raw (ptr b)) h1 = Ok h2 \<and>
       a_blocks (bounded_allocator 4) (arena h2) = a_blocks (bounded_allocator 4) [] \<and>
       drops h2 = [] @ [5] \<and> box_deref (bounded_allocator 4) b h2 = Err Dangling)"
proof -
  let ?h = "\<lparr>arena = [], contents = (\<lambda>_. None), drops = []\<rparr> :: ((addr \<times> layout) list, int) heap"
  have "is_ok (box_new (bounded_allocator 4) word_layout 5 ?h)"
    by code_simp
  then obtain b h1 where new: "box_new (bounded_allocator 4) word_layout 5 ?h = Ok (b, h1)"
    by (cases "box_new (bounded_allocator 4) word_layout 5 ?h") auto
  show ?thesis
    using box_roundtrip [OF bounded_allocator_ok word_layout_ok new] by auto
qed

text \<open>
  C39. \<open>clone\<close> makes an independent box: at another address, with the cloned value; comparisons of the
  two boxes compare their values, and dropping the original leaves the clone as it is.
\<close>

theorem box_clone_independent:
  assumes "allocator_ok A" "layout_ok T" "holds A T h (ptr b) v" "box_clone clone A T b h = Ok (b', h')"
  shows "ptr b' \<noteq> ptr b \<and> box_deref A b' h' = Ok (clone v) \<and> box_compare f A b b' h' = Ok (f v (clone v)) \<and>
    (\<exists>h2. box_drop A T b h' = Ok h2 \<and> box_deref A b' h2 = Ok (clone v))"
proof -
  have new: "box_new A T (clone v) h = Ok (b', h')"
    using assms(4) box_deref_holds [OF assms(3)] by (simp add: box_clone_def box_as_ref_def)
  show ?thesis
  proof (cases rule: box_new_cases [OF assms(1,2), of "clone v" h])
    case (2 p h1)
    then have b': "ptr b' = p" "h' = h1"
      using new by auto
    then have ne: "ptr b' \<noteq> ptr b"
      using 2(2) assms(3) by (auto simp: holds_def)
    have hb: "holds A T h' (ptr b) v" and hb': "holds A T h' (ptr b') (clone v)"
      using 2 b' ne assms(3) by (simp_all add: holds_def)
    obtain h2 where h2: "box_drop A T b h' = Ok h2" "a_blocks A (arena h2) = (a_blocks A (arena h'))(ptr b := None)"
      "contents h2 = (contents h')(ptr b := None)"
      using box_drop_holds [OF assms(1,2) hb] by auto
    have "holds A T h2 (ptr b') (clone v)"
      using hb' h2 ne by (simp add: holds_def)
    then show ?thesis
      using ne h2(1) box_deref_holds [of A T _ "ptr b'" "clone v"] box_deref_holds [OF hb] hb'
      by (auto simp: box_compare_def)
  qed (use new in simp)
qed

theorem box_clone_independent_witness:
  "\<exists>b b' h'. ptr b' \<noteq> ptr b \<and> box_deref (bounded_allocator 4) b' h' = Ok (5 :: int) \<and>
     box_compare (\<le>) (bounded_allocator 4) b b' h' = Ok (5 \<le> (5 :: int)) \<and>
     (\<exists>h2. box_drop (bounded_allocator 4) word_layout b h' = Ok h2 \<and> box_deref (bounded_allocator 4) b' h2 = Ok 5)"
proof -
  let ?h = "heap (box_end [BNew 5])"
  let ?b = "\<lparr>ptr = 1\<rparr> :: box"
  have holds: "holds (bounded_allocator 4) word_layout ?h (ptr ?b) 5"
    by code_simp
  have "is_ok (box_clone (\<lambda>x. x) (bounded_allocator 4) word_layout ?b ?h)"
    by code_simp
  then obtain b' h' where cl: "box_clone (\<lambda>x. x) (bounded_allocator 4) word_layout ?b ?h = Ok (b', h')"
    by (cases "box_clone (\<lambda>x. x) (bounded_allocator 4) word_layout ?b ?h") auto
  show ?thesis
    using box_clone_independent [OF bounded_allocator_ok word_layout_ok holds cl, of "(\<le>)"] by blast
qed

section \<open>Many channels on one heap\<close>




end
